(* ===== verification/Prelude.thy ===== *)
theory Prelude
  imports Main "HOL-Library.Word" "HOL-Library.Multiset" "HOL-Library.Monad_Syntax"
begin

text \<open>
  Shared vocabulary of the development.

  \<^item> The machine types of the kernel (\<^verbatim>\<open>u8\<close>, \<^verbatim>\<open>u16\<close>, \<^verbatim>\<open>u32\<close>, \<^verbatim>\<open>u64\<close>, pointers) and its
    distinguished pointer values.
  \<^item> The convention for failure: an operation whose C code can reach \<^verbatim>\<open>assert\<close>, \<^verbatim>\<open>halt\<close> or an access
    outside the object it works on returns an option; \<open>None\<close> is that failure. A theorem that an
    operation returns \<open>Some\<close> is therefore a theorem that the kernel neither halts nor touches
    memory it does not own.
  \<^item> Block copies (\<^verbatim>\<open>runtime_memcpy\<close>, \<^verbatim>\<open>zero\<close>) on a memory block given as a list of cells.
  \<^item> Generic lemmas on lists and words used by several components.
\<close>

unbundle bit_operations_syntax

type_synonym u8 = "8 word"
type_synonym u16 = "16 word"
type_synonym u32 = "32 word"
type_synonym u64 = "64 word"
type_synonym ptr = "64 word"

text \<open>\<^verbatim>\<open>infinity\<close>, \<^verbatim>\<open>INVALID_PHYSICAL\<close> and \<^verbatim>\<open>INVALID_ADDRESS\<close> of \<^verbatim>\<open>runtime.h\<close>: the all-ones word.\<close>

definition INVALID_ADDRESS :: ptr where
  "INVALID_ADDRESS = - 1"

definition INVALID_PHYSICAL :: u64 where
  "INVALID_PHYSICAL = - 1"

text \<open>
  A heap as its clients see it: a request of \<open>n\<close> cells is either refused (\<^verbatim>\<open>INVALID_ADDRESS\<close>) or
  answered with a block of uninitialised cells, whose contents the model does not choose.
\<close>

type_synonym 'c heap = "nat \<Rightarrow> 'c list option"

definition heap_ok :: "'c heap \<Rightarrow> bool" where
  "heap_ok h \<longleftrightarrow> (\<forall>n blk. h n = Some blk \<longrightarrow> length blk = n)"

text \<open>A heap that never refuses a request.\<close>

definition heap_grants :: "'c heap \<Rightarrow> bool" where
  "heap_grants h \<longleftrightarrow> (\<forall>n. h n \<noteq> None)"

text \<open>\<open>memcpy_to dst off src\<close> copies \<open>src\<close> over the cells of \<open>dst\<close> from \<open>off\<close> on; it fails when
  the destination range leaves the block.\<close>

definition memcpy_to :: "'c list \<Rightarrow> nat \<Rightarrow> 'c list \<Rightarrow> 'c list option" where
  "memcpy_to dst off src =
     (if off + length src \<le> length dst
      then Some (take off dst @ src @ drop (off + length src) dst) else None)"

text \<open>\<open>mem_slice blk off n\<close> reads \<open>n\<close> cells from \<open>off\<close> on, failing outside the block.\<close>

definition mem_slice :: "'c list \<Rightarrow> nat \<Rightarrow> nat \<Rightarrow> 'c list option" where
  "mem_slice blk off n =
     (if off + n \<le> length blk then Some (take n (drop off blk)) else None)"

text \<open>
  Total-correctness assertions about operations that may fail: \<open>ensures m Q\<close> says that \<open>m\<close>
  does not fail and that its result satisfies \<open>Q\<close>.
\<close>

definition ensures :: "'a option \<Rightarrow> ('a \<Rightarrow> bool) \<Rightarrow> bool" where
  "ensures m Q \<longleftrightarrow> (\<exists>x. m = Some x \<and> Q x)"

subsection \<open>Assertions\<close>

lemma ensures_Some [simp]: "ensures (Some x) Q \<longleftrightarrow> Q x"
  by (simp add: ensures_def)

lemma ensures_None [simp]: "\<not> ensures None Q"
  by (simp add: ensures_def)

lemma ensures_bind [simp]: "ensures (m \<bind> f) Q \<longleftrightarrow> ensures m (\<lambda>x. ensures (f x) Q)"
  by (cases m) (simp_all add: ensures_def)

lemma ensures_mono: "ensures m P \<Longrightarrow> (\<And>x. m = Some x \<Longrightarrow> P x \<Longrightarrow> Q x) \<Longrightarrow> ensures m Q"
  by (auto simp: ensures_def)

lemma ensuresI: "m = Some x \<Longrightarrow> Q x \<Longrightarrow> ensures m Q"
  by (simp add: ensures_def)

lemma ensuresE: "ensures m Q \<Longrightarrow> (\<And>x. m = Some x \<Longrightarrow> Q x \<Longrightarrow> thesis) \<Longrightarrow> thesis"
  by (auto simp: ensures_def)

lemma ensures_SomeD: "ensures m Q \<Longrightarrow> m = Some x \<Longrightarrow> Q x"
  by (simp add: ensures_def)

lemma ensures_conj: "ensures m P \<Longrightarrow> ensures m Q \<Longrightarrow> ensures m (\<lambda>x. P x \<and> Q x)"
  by (auto simp: ensures_def)

subsection \<open>Blocks and lists\<close>

lemma heap_okD [dest]: "heap_ok h \<Longrightarrow> h n = Some blk \<Longrightarrow> length blk = n"
  by (simp add: heap_ok_def)

lemma heap_grantsD: "heap_grants h \<Longrightarrow> h n \<noteq> None"
  by (simp add: heap_grants_def)

lemma memcpy_to_Some [simp]:
  "off + length src \<le> length dst \<Longrightarrow>
   memcpy_to dst off src = Some (take off dst @ src @ drop (off + length src) dst)"
  by (simp add: memcpy_to_def)

lemma mem_slice_Some [simp]:
  "off + n \<le> length blk \<Longrightarrow> mem_slice blk off n = Some (take n (drop off blk))"
  by (simp add: mem_slice_def)

lemma take_drop_blit:
  assumes "s \<le> e" "e + length src \<le> length xs"
  shows "take (e + length src - s) (drop s (take e xs @ src @ drop (e + length src) xs))
         = take (e - s) (drop s xs) @ src"
  using assms by (simp add: take_drop)

lemma mset_list_swap:
  "i < length xs \<Longrightarrow> j < length xs \<Longrightarrow> mset (xs[i := xs ! j, j := xs ! i]) = mset xs"
  by (rule mset_swap)

lemma word_less_plus_1: "p + 1 \<noteq> 0 \<Longrightarrow> q < p + 1 \<longleftrightarrow> q \<le> p" for p q :: "'a::len word"
  using unatSuc [of p] by (simp add: word_less_nat_alt word_le_nat_alt add.commute less_Suc_eq_le)

lemma unat_no_wrap: "unat a * unat b < 2 ^ 64 \<Longrightarrow> unat (a * b :: u64) = unat a * unat b"
  by (simp add: unat_word_ariths)

lemma unat_add_no_wrap: "unat a + unat b < 2 ^ 64 \<Longrightarrow> unat (a + b :: u64) = unat a + unat b"
  by (simp add: unat_word_ariths)

lemma centred_mod:
  fixes n :: int
  assumes "0 \<le> n" "n < 2 ^ 64"
  shows "(n + 2 ^ 63) mod 2 ^ 64 - 2 ^ 63 = (if n < 2 ^ 63 then n else n - 2 ^ 64)"
proof (cases "n < 2 ^ 63")
  case True
  then have "(n + 2 ^ 63) mod 2 ^ 64 = n + 2 ^ 63" using assms by (intro mod_pos_pos_trivial) auto
  with True show ?thesis by simp
next
  case False
  have "(n + 2 ^ 63) mod 2 ^ 64 = (n + 2 ^ 63 - 2 ^ 64) mod 2 ^ 64" by (rule mod_diff_right_eq [of "n + 2 ^ 63" "2 ^ 64" "2 ^ 64", symmetric, simplified mod_self diff_0_right, symmetric])
  also have "\<dots> = n + 2 ^ 63 - 2 ^ 64" using False assms by (intro mod_pos_pos_trivial) auto
  finally show ?thesis using False by simp
qed

lemma sint_unat: "sint w = (if unat w < 2 ^ 63 then int (unat w) else int (unat w) - 2 ^ 64)" for w :: u64
proof -
  have "sint (word_of_int (uint w) :: u64) = (uint w + 2 ^ 63) mod 2 ^ 64 - 2 ^ 63"
    by (subst int_word_sint) simp
  then have "sint w = (uint w + 2 ^ 63) mod 2 ^ 64 - 2 ^ 63" by (simp only: word_of_int_uint)
  also have "\<dots> = (if uint w < 2 ^ 63 then uint w else uint w - 2 ^ 64)"
    using uint_lt2p [of w] by (intro centred_mod) simp_all
  finally have "sint w = (if int (unat w) < 2 ^ 63 then int (unat w) else int (unat w) - 2 ^ 64)"
    unfolding uint_nat .
  moreover have "int n < 2 ^ 63 \<longleftrightarrow> n < 2 ^ 63" for n by simp
  ultimately show ?thesis by presburger
qed

lemma sint_nonneg_le:
  fixes a b :: u64
  assumes "unat a < 2 ^ 63" "unat b < 2 ^ 63"
  shows "0 \<le> sint (a - b) \<longleftrightarrow> b \<le> a"
proof (cases "b \<le> a")
  case True
  then show ?thesis using assms by (simp add: sint_unat unat_sub)
next
  case False
  then have "unat (a - b) = unat a + 2 ^ 64 - unat b"
    by (simp add: unat_sub_if_size word_size word_le_nat_alt)
  moreover have "unat a < unat b" using False by (simp add: word_le_nat_alt)
  moreover have "z = x + 2 ^ 64 - y \<Longrightarrow> x < y \<Longrightarrow> y < 2 ^ 63 \<Longrightarrow> \<not> z < 2 ^ 63" for x y z :: nat by simp
  ultimately have "\<not> unat (a - b) < 2 ^ 63" using assms(2) by blast
  moreover have "int (unat (a - b)) < 2 ^ 64" using uint_lt2p [of "a - b"] unfolding uint_nat by simp
  ultimately have "sint (a - b) < 0" unfolding sint_unat by simp
  with False show ?thesis by simp
qed

end
