(* ===== verification/Buffer.thy ===== *)
theory Buffer
  imports Prelude
begin

text \<open>
  \<^verbatim>\<open>kernel/src/runtime/buffer.h\<close> and \<^verbatim>\<open>buffer.c\<close>: growable buffers.

  A buffer is a block of cells (\<open>b_contents\<close>, \<open>b_length\<close> of them) with a window
  \<open>[b_start, b_end)\<close> of valid data. The model is polymorphic in the cell type: the byte buffers
  use \<^typ>\<open>u8\<close>; \<^verbatim>\<open>vector.h\<close> uses the same operations on pointer-sized cells, with every length
  divided by \<^verbatim>\<open>sizeof(void *)\<close>, which the growth arithmetic commutes with. \<open>blist\<close> is the
  data a client sees; the lemmas say what every operation does to it, and that on a well-formed
  buffer no \<^verbatim>\<open>buffer_assert\<close> fires and no copy leaves the block.
\<close>

record 'c buffer =
  b_start :: nat
  b_end :: nat
  b_length :: nat
  b_wrapped :: bool
  b_contents :: "'c list"

definition init_buffer :: "nat \<Rightarrow> bool \<Rightarrow> 'c list \<Rightarrow> 'c buffer" where
  "init_buffer s wrapped contents =
     \<lparr>b_start = 0, b_end = 0, b_length = s, b_wrapped = wrapped, b_contents = contents\<rparr>"

definition allocate_buffer :: "'c heap \<Rightarrow> nat \<Rightarrow> 'c buffer option" where
  "allocate_buffer h s =
     (if s \<noteq> 0 then
        (case h s of None \<Rightarrow> None | Some contents \<Rightarrow> Some (init_buffer s False contents))
      else Some (init_buffer s False []))"

definition wrap_buffer :: "'c list \<Rightarrow> 'c buffer" where
  "wrap_buffer body =
     \<lparr>b_start = 0, b_end = length body, b_length = length body, b_wrapped = True,
      b_contents = body\<rparr>"

definition buffer_ref :: "'c buffer \<Rightarrow> nat \<Rightarrow> nat option" where
  "buffer_ref b off = (if b_start b + off \<le> b_length b then Some (b_start b + off) else None)"

definition buffer_length :: "'c buffer \<Rightarrow> nat" where
  "buffer_length b = b_end b - b_start b"

definition buffer_space :: "'c buffer \<Rightarrow> nat" where
  "buffer_space b = b_length b - b_end b"

definition buffer_clear :: "'c buffer \<Rightarrow> 'c buffer" where
  "buffer_clear b = b\<lparr>b_start := 0, b_end := 0\<rparr>"

definition buffer_consume :: "'c buffer \<Rightarrow> nat \<Rightarrow> 'c buffer option" where
  "buffer_consume b s =
     (if b_start b + s \<le> b_end b \<and> b_end b \<le> b_length b
      then Some (b\<lparr>b_start := b_start b + s\<rparr>) else None)"

definition buffer_produce :: "'c buffer \<Rightarrow> nat \<Rightarrow> 'c buffer option" where
  "buffer_produce b s =
     (if b_start b \<le> b_end b \<and> b_end b + s \<le> b_length b
      then Some (b\<lparr>b_end := b_end b + s\<rparr>) else None)"

text \<open>\<^verbatim>\<open>buffer_set_capacity\<close> returns the new buffer and the capacity it reports.\<close>

definition buffer_set_capacity :: "'c heap \<Rightarrow> 'c buffer \<Rightarrow> nat \<Rightarrow> ('c buffer \<times> nat) option" where
  "buffer_set_capacity h b len =
     (let old_len = b_length b in
      if b_wrapped b then Some (b, old_len)
      else
        let content_len = b_end b - b_start b;
            len = (if len < content_len then content_len else len)
        in if len \<noteq> old_len then
             (case h len of
                None \<Rightarrow> Some (b, old_len)
              | Some new \<Rightarrow> do {
                  new' \<leftarrow> (if old_len \<noteq> 0 then do {
                              src \<leftarrow> mem_slice (b_contents b) (b_start b) content_len;
                              memcpy_to new 0 src
                            } else Some new);
                  Some (b\<lparr>b_length := len, b_end := content_len, b_start := 0,
                          b_contents := new'\<rparr>, len)
                })
           else Some (b, len))"

definition buffer_extend :: "'c heap \<Rightarrow> 'c buffer \<Rightarrow> nat \<Rightarrow> ('c buffer \<times> bool) option" where
  "buffer_extend h b len =
     (if b_length b < b_end b + len then
        let new_len = 2 * (b_end b - b_start b + len) in
        if new_len > b_length b then do {
          (b', r) \<leftarrow> buffer_set_capacity h b new_len;
          Some (b', r = new_len)
        } else do {
          src \<leftarrow> mem_slice (b_contents b) (b_start b) (b_end b - b_start b);
          c \<leftarrow> memcpy_to (b_contents b) 0 src;
          Some (b\<lparr>b_contents := c, b_end := b_end b - b_start b, b_start := 0\<rparr>, True)
        }
      else Some (b, True))"

definition extend_total :: "('c::zero) heap \<Rightarrow> 'c buffer \<Rightarrow> nat \<Rightarrow> ('c buffer \<times> bool) option" where
  "extend_total h b offset =
     (if offset > b_end b then do {
        (b', ok) \<leftarrow> buffer_extend h b (offset - b_end b);
        if \<not> ok then Some (b', False)
        else do {
          c \<leftarrow> memcpy_to (b_contents b') (b_end b') (replicate (offset - b_end b') 0);
          Some (b'\<lparr>b_contents := c, b_end := offset\<rparr>, True)
        }
      } else Some (b, True))"

definition buffer_write :: "'c heap \<Rightarrow> 'c buffer \<Rightarrow> 'c list \<Rightarrow> ('c buffer \<times> bool) option" where
  "buffer_write h b source = do {
     (b', ok) \<leftarrow> buffer_extend h b (length source);
     if \<not> ok then Some (b', False)
     else do {
       p \<leftarrow> buffer_ref b' (buffer_length b');
       c \<leftarrow> memcpy_to (b_contents b') p source;
       b'' \<leftarrow> buffer_produce (b'\<lparr>b_contents := c\<rparr>) (length source);
       Some (b'', True)
     }
   }"

definition buffer_append :: "'c heap \<Rightarrow> 'c buffer \<Rightarrow> 'c list \<Rightarrow> ('c buffer \<times> bool) option" where
  "buffer_append h b body = do {
     (b', ok) \<leftarrow> buffer_extend h b (length body);
     if \<not> ok then Some (b', False) else buffer_write h b' body
   }"

text \<open>\<^verbatim>\<open>buffer_read\<close>: the data read is \<open>None\<close> when the buffer holds too little.\<close>

definition buffer_read :: "'c buffer \<Rightarrow> nat \<Rightarrow> ('c buffer \<times> 'c list option) option" where
  "buffer_read b len =
     (if buffer_length b < len then Some (b, None)
      else do {
        p \<leftarrow> buffer_ref b 0;
        d \<leftarrow> mem_slice (b_contents b) p len;
        b' \<leftarrow> buffer_consume b len;
        Some (b', Some d)
      })"

definition buffer_read_at :: "'c buffer \<Rightarrow> nat \<Rightarrow> nat \<Rightarrow> 'c list option" where
  "buffer_read_at b offset len =
     (let available = buffer_length b in
      if available \<le> offset then Some []
      else do {
        p \<leftarrow> buffer_ref b offset;
        mem_slice (b_contents b) p (min len (available - offset))
      })"

definition buffer_pop :: "'c buffer \<Rightarrow> nat \<Rightarrow> ('c buffer \<times> nat option) option" where
  "buffer_pop b len =
     (if buffer_length b < len then Some (b, None)
      else do {
        p \<leftarrow> buffer_ref b 0;
        b' \<leftarrow> buffer_consume b len;
        Some (b', Some p)
      })"

text \<open>The valid data, and the relation the fields keep.\<close>

definition blist :: "'c buffer \<Rightarrow> 'c list" where
  "blist b = take (b_end b - b_start b) (drop (b_start b) (b_contents b))"

definition buffer_wf :: "'c buffer \<Rightarrow> bool" where
  "buffer_wf b \<longleftrightarrow>
     b_start b \<le> b_end b \<and> b_end b \<le> b_length b \<and> length (b_contents b) = b_length b"

definition push_buffer :: "'c heap \<Rightarrow> 'c buffer \<Rightarrow> 'c buffer \<Rightarrow> ('c buffer \<times> bool) option" where
  "push_buffer h d s = do {
     p \<leftarrow> buffer_ref s 0;
     src \<leftarrow> mem_slice (b_contents s) p (buffer_length s);
     buffer_write h d src
   }"

definition clone_buffer :: "'c heap \<Rightarrow> 'c buffer \<Rightarrow> 'c buffer option option" where
  "clone_buffer h b =
     (case allocate_buffer h (buffer_length b) of
        None \<Rightarrow> Some None
      | Some new \<Rightarrow> do {
          (new', ok) \<leftarrow> push_buffer h new b;
          if ok then Some (Some new') else None
        })"

subsection \<open>Byte buffers\<close>

type_synonym bytebuf = "u8 buffer"

definition byte :: "bytebuf \<Rightarrow> nat \<Rightarrow> u8" where
  "byte b i = b_contents b ! (b_start b + i)"

text \<open>\<^verbatim>\<open>push_u8\<close> asserts that the buffer could be extended, so a refusing heap halts the kernel.\<close>

definition push_u8 :: "u8 heap \<Rightarrow> bytebuf \<Rightarrow> u8 \<Rightarrow> bytebuf option" where
  "push_u8 h b x = do {
     (b', ok) \<leftarrow> buffer_extend h b 1;
     if ok \<and> b_start b' \<le> b_end b' \<and> b_end b' < b_length b' then do {
       p \<leftarrow> buffer_ref b' (buffer_length b');
       c \<leftarrow> memcpy_to (b_contents b') p [x];
       Some (b'\<lparr>b_contents := c, b_end := b_end b' + 1\<rparr>)
     } else None
   }"

definition pop_u8 :: "bytebuf \<Rightarrow> (bytebuf \<times> u8) option" where
  "pop_u8 b =
     (if b_start b + 1 \<le> b_end b \<and> b_end b \<le> b_length b then do {
        p \<leftarrow> buffer_ref b 0;
        d \<leftarrow> mem_slice (b_contents b) p 1;
        Some (b\<lparr>b_start := b_start b + 1\<rparr>, hd d)
      } else None)"

text \<open>\<^verbatim>\<open>buffer_read_byte\<close> returns \<open>- 1\<close> (as \<^verbatim>\<open>u64\<close>) at the end of the buffer.\<close>

definition buffer_read_byte :: "bytebuf \<Rightarrow> (bytebuf \<times> u64) option" where
  "buffer_read_byte b =
     (if buffer_length b = 0 then Some (b, - 1)
      else do {
        p \<leftarrow> buffer_ref b 0;
        d \<leftarrow> mem_slice (b_contents b) p 1;
        Some (b\<lparr>b_start := b_start b + 1\<rparr>, ucast (hd d))
      })"

definition buffer_write_byte :: "u8 heap \<Rightarrow> bytebuf \<Rightarrow> u8 \<Rightarrow> (bytebuf \<times> bool) option" where
  "buffer_write_byte h b x = do {
     (b', ok) \<leftarrow> buffer_extend h b 1;
     if \<not> ok then Some (b', False)
     else do {
       p \<leftarrow> buffer_ref b' (buffer_length b');
       c \<leftarrow> memcpy_to (b_contents b') p [x];
       Some (b'\<lparr>b_contents := c, b_end := b_end b' + 1\<rparr>, True)
     }
   }"

text \<open>
  \<^verbatim>\<open>push_varint\<close>: \<open>varint_tmp x\<close> is the array \<^verbatim>\<open>tmp\<close> after the first loop (seven bits per entry, low
  bits first, the continuation bit on all entries but the first); the second loop pushes it
  from the last entry down.
\<close>

function varint_more :: "u64 \<Rightarrow> u8 list" where
  "varint_more x =
     (if x = 0 then [] else (0x80 OR ucast (x AND 0x7f)) # varint_more (drop_bit 7 x))"
  by pat_completeness auto
termination
proof (relation "measure unat")
  fix x :: u64
  assume "x \<noteq> 0"
  then have "unat x > 0" by (simp add: unat_gt_0)
  then have "unat x div 2 ^ 7 < unat x" by (intro div_less_dividend) auto
  then show "(drop_bit 7 x, x) \<in> measure unat"
    by (simp add: unat_drop_bit_eq drop_bit_eq_div unat_div)
qed simp

definition varint_tmp :: "u64 \<Rightarrow> u8 list" where
  "varint_tmp x = ucast (x AND 0x7f) # varint_more (drop_bit 7 x)"

fun push_all_u8 :: "u8 heap \<Rightarrow> bytebuf \<Rightarrow> u8 list \<Rightarrow> bytebuf option" where
  "push_all_u8 h b [] = Some b"
| "push_all_u8 h b (x # xs) = do { b' \<leftarrow> push_u8 h b x; push_all_u8 h b' xs }"

definition push_varint :: "u8 heap \<Rightarrow> bytebuf \<Rightarrow> u64 \<Rightarrow> bytebuf option" where
  "push_varint h b x = push_all_u8 h b (rev (varint_tmp x))"

text \<open>\<^verbatim>\<open>pop_varint\<close>: the loop consumes one byte per turn, so the bytes left bound its turns.\<close>

function pop_varint_loop :: "bytebuf \<Rightarrow> u64 \<Rightarrow> (bytebuf \<times> u64) option" where
  "pop_varint_loop b out =
     (case pop_u8 b of
        None \<Rightarrow> None
      | Some (b', m) \<Rightarrow>
          (let out' = push_bit 7 out OR (ucast m AND 0x7f)
           in if m AND 0x80 \<noteq> 0 then pop_varint_loop b' out' else Some (b', out')))"
  by pat_completeness auto
termination
  by (relation "measure (\<lambda>(b, out). b_end b - b_start b)")
     (auto simp: pop_u8_def buffer_ref_def bind_eq_Some_conv split: if_splits)

declare pop_varint_loop.simps [simp del] varint_more.simps [simp del]

definition pop_varint :: "bytebuf \<Rightarrow> (bytebuf \<times> u64) option" where
  "pop_varint b = pop_varint_loop b 0"

definition buffer_compare :: "bytebuf \<Rightarrow> bytebuf \<Rightarrow> bool" where
  "buffer_compare a b =
     (let len = buffer_length a in
      if len \<noteq> buffer_length b then False
      else list_all (\<lambda>i. byte a i = byte b i) [0..<len])"

function buffer_lt_loop :: "bytebuf \<Rightarrow> bytebuf \<Rightarrow> nat \<Rightarrow> bool" where
  "buffer_lt_loop a b i =
     (if i < buffer_length b then
        if i \<ge> buffer_length a \<or> byte a i < byte b i then True
        else if byte a i > byte b i then False
        else buffer_lt_loop a b (Suc i)
      else False)"
  by pat_completeness auto
termination
  by (relation "measure (\<lambda>(a, b, i). buffer_length b - i)") auto

declare buffer_lt_loop.simps [simp del]

definition buffer_lt :: "bytebuf \<Rightarrow> bytebuf \<Rightarrow> bool" where
  "buffer_lt a b = buffer_lt_loop a b 0"

text \<open>\<^verbatim>\<open>fnv64\<close>: the hash of the valid bytes.\<close>

definition fnv64_step :: "u64 \<Rightarrow> u8 \<Rightarrow> u64" where
  "fnv64_step hash x = (hash XOR ucast x) * 1099511628211"

definition fnv64 :: "bytebuf \<Rightarrow> u64" where
  "fnv64 b = foldl (\<lambda>hash i. fnv64_step hash (byte b i)) 0xcbf29ce484222325 [0..<buffer_length b]"

fun buffer_strchr_loop :: "bytebuf \<Rightarrow> u8 \<Rightarrow> nat list \<Rightarrow> int" where
  "buffer_strchr_loop b c [] = - 1"
| "buffer_strchr_loop b c (i # is) = (if byte b i = c then int i else buffer_strchr_loop b c is)"

definition buffer_strchr :: "bytebuf \<Rightarrow> u8 \<Rightarrow> int" where
  "buffer_strchr b c = buffer_strchr_loop b c [0..<buffer_length b]"

definition buffer_strrchr :: "bytebuf \<Rightarrow> u8 \<Rightarrow> int" where
  "buffer_strrchr b c = buffer_strchr_loop b c (rev [0..<buffer_length b])"

text \<open>\<^verbatim>\<open>buffer_basename\<close> narrows the buffer to the last path component (47 is the slash).\<close>

definition buffer_basename :: "bytebuf \<Rightarrow> bytebuf option" where
  "buffer_basename b =
     (if buffer_length b \<le> 1 then Some b
      else
        let p = buffer_strrchr b 47 in
        if p \<noteq> - 1 then
          if p = int (buffer_length b) - 1 then
            let b' = b\<lparr>b_end := b_end b - 1\<rparr>; p' = buffer_strrchr b' 47 in
            if p' = - 1 \<or> buffer_length b' = 1 then Some b'
            else buffer_consume b' (nat (p' + 1))
          else buffer_consume b (nat (p + 1))
        else Some b)"

subsection \<open>Well-formedness and contents\<close>

lemma buffer_wfD:
  assumes "buffer_wf b"
  shows "b_start b \<le> b_end b" "b_end b \<le> b_length b" "length (b_contents b) = b_length b"
  using assms by (auto simp: buffer_wf_def)

lemma buffer_wf_start: "buffer_wf b \<Longrightarrow> b_start b = s \<Longrightarrow> s \<le> b_end b"
  by (auto simp: buffer_wf_def)

lemma length_blist: "buffer_wf b \<Longrightarrow> length (blist b) = buffer_length b"
  by (auto simp: blist_def buffer_wf_def buffer_length_def)

lemma init_buffer_wf: "length c = s \<Longrightarrow> buffer_wf (init_buffer s w c)"
  by (simp add: init_buffer_def buffer_wf_def)

lemma blist_init_buffer [simp]: "blist (init_buffer s w c) = []"
  by (simp add: init_buffer_def blist_def)

lemma allocate_buffer_wf:
  "heap_ok h \<Longrightarrow> allocate_buffer h s = Some b \<Longrightarrow> buffer_wf b \<and> blist b = [] \<and> b_start b = 0"
  by (auto simp: allocate_buffer_def init_buffer_wf init_buffer_def blist_def buffer_wf_def
      split: if_splits option.splits)

lemma buffer_clear_wf: "buffer_wf b \<Longrightarrow> buffer_wf (buffer_clear b) \<and> blist (buffer_clear b) = []"
  by (simp add: buffer_clear_def buffer_wf_def blist_def)

lemma buffer_set_capacity_spec:
  assumes "buffer_wf b" "heap_ok h"
  shows "ensures (buffer_set_capacity h b len) (\<lambda>(b', r).
           buffer_wf b' \<and> blist b' = blist b \<and> r = b_length b' \<and> b_wrapped b' = b_wrapped b \<and>
           (b' = b \<or> (b_start b' = 0 \<and> b_end b' = buffer_length b \<and> len \<le> b_length b')))"
proof (cases "h (if len < b_end b - b_start b then b_end b - b_start b else len)")
  case None
  then show ?thesis
    using assms by (auto simp: buffer_set_capacity_def Let_def)
next
  case (Some new)
  then show ?thesis
    using assms
    by (auto simp: buffer_set_capacity_def Let_def buffer_wf_def blist_def buffer_length_def
        heap_ok_def)
qed

lemma buffer_extend_spec:
  assumes "buffer_wf b" "heap_ok h"
  shows "ensures (buffer_extend h b len) (\<lambda>(b', ok).
           buffer_wf b' \<and> blist b' = blist b \<and> b_wrapped b' = b_wrapped b \<and>
           (ok \<longrightarrow> b_end b' + len \<le> b_length b') \<and> (b_start b' = b_start b \<or> b_start b' = 0))"
proof (cases "b_length b < b_end b + len \<and> 2 * (b_end b - b_start b + len) > b_length b")
  case True
  then show ?thesis
    using assms
    by (auto simp: buffer_extend_def Let_def buffer_length_def
        intro!: ensures_mono [OF buffer_set_capacity_spec [OF assms]])
next
  case False
  then show ?thesis
    using assms by (auto simp: buffer_extend_def Let_def buffer_wf_def blist_def)
qed

lemma store_at_end:
  assumes "buffer_wf b" "b_end b + length src \<le> b_length b"
  shows "buffer_wf (b\<lparr>b_contents := take (b_end b) (b_contents b) @ src @
             drop (b_end b + length src) (b_contents b), b_end := b_end b + length src\<rparr>)"
    and "blist (b\<lparr>b_contents := take (b_end b) (b_contents b) @ src @
             drop (b_end b + length src) (b_contents b), b_end := b_end b + length src\<rparr>)
         = blist b @ src"
  using assms by (simp_all add: buffer_wf_def blist_def drop_take)

lemmas store_byte_at_end = store_at_end [of b "[x]" for b x, simplified]

lemma buffer_ref_end: "buffer_wf b \<Longrightarrow> buffer_ref b (buffer_length b) = Some (b_end b)"
  by (simp add: buffer_ref_def buffer_length_def buffer_wf_def)

lemma buffer_write_spec:
  assumes "buffer_wf b" "heap_ok h"
  shows "ensures (buffer_write h b src) (\<lambda>(b', ok).
           buffer_wf b' \<and> blist b' = blist b @ (if ok then src else []) \<and>
           (b_start b' = b_start b \<or> b_start b' = 0))"
  unfolding buffer_write_def ensures_bind
  by (rule ensures_mono [OF buffer_extend_spec [OF assms]])
     (auto simp: buffer_ref_end buffer_produce_def store_at_end buffer_wfD(3)
        intro: buffer_wf_start)

lemma push_u8_spec:
  assumes "buffer_wf b" "heap_ok h"
  shows "push_u8 h b x = None \<or>
         ensures (push_u8 h b x) (\<lambda>b'. buffer_wf b' \<and> blist b' = blist b @ [x])"
proof -
  have "ensures (buffer_extend h b 1) (\<lambda>(b', ok).
          (if ok \<and> b_start b' \<le> b_end b' \<and> b_end b' < b_length b' then
             ensures (do {
               p \<leftarrow> buffer_ref b' (buffer_length b');
               c \<leftarrow> memcpy_to (b_contents b') p [x];
               Some (b'\<lparr>b_contents := c, b_end := b_end b' + 1\<rparr>)
             }) (\<lambda>b'. buffer_wf b' \<and> blist b' = blist b @ [x])
           else True))"
    by (rule ensures_mono [OF buffer_extend_spec [OF assms]])
       (auto simp: buffer_ref_end buffer_wfD(3) store_byte_at_end)
  then show ?thesis
    by (auto simp: push_u8_def elim!: ensuresE split: if_splits)
qed

lemma buffer_extend_granted:
  assumes "buffer_wf b" "heap_ok h" "heap_grants h" "\<not> b_wrapped b"
  shows "ensures (buffer_extend h b len) (\<lambda>(b', ok). ok)"
  using assms
  by (auto simp: buffer_extend_def buffer_set_capacity_def Let_def buffer_wf_def heap_ok_def
      heap_grantsD split: option.splits)

lemma extend_total_spec:
  assumes "buffer_wf b" "heap_ok h" "\<not> b_wrapped b" "b_start b = 0"
  shows "ensures (extend_total h b n) (\<lambda>(b', ok). buffer_wf b' \<and> b_start b' = 0 \<and> \<not> b_wrapped b' \<and>
           blist b' = blist b @ (if ok then replicate (n - b_end b) 0 else []) \<and> (heap_grants h \<longrightarrow> ok))"
proof (cases "n > b_end b")
  case False
  with assms show ?thesis by (simp add: extend_total_def)
next
  case True
  have e: "b_end b' = b_end b" if "buffer_wf b'" "b_start b' = 0" "blist b' = blist b" for b' :: "'a buffer"
    using length_blist [OF that(1)] length_blist [OF assms(1)] that(2,3) assms(4) by (simp add: buffer_length_def)
  obtain b' ok where b': "buffer_extend h b (n - b_end b) = Some (b', ok)" "buffer_wf b'" "blist b' = blist b"
      "\<not> b_wrapped b'" "ok \<longrightarrow> b_end b' + (n - b_end b) \<le> b_length b'" "b_start b' = 0"
    using buffer_extend_spec [OF assms(1,2), of "n - b_end b"] assms(3,4) by (auto elim!: ensuresE)
  have "heap_grants h \<Longrightarrow> ok"
    using buffer_extend_granted [OF assms(1,2) _ assms(3), of "n - b_end b"] b'(1) by (auto elim!: ensuresE)
  with True b' e [OF b'(2,6,3)] show ?thesis
    using store_at_end [OF b'(2), of "replicate (n - b_end b) 0"]
    by (auto simp: extend_total_def memcpy_to_def buffer_wfD(3))
qed

lemma push_u8_granted:
  assumes "buffer_wf b" "heap_ok h" "heap_grants h" "\<not> b_wrapped b"
  shows "ensures (push_u8 h b x) (\<lambda>b'. buffer_wf b' \<and> blist b' = blist b @ [x] \<and> \<not> b_wrapped b')"
  unfolding push_u8_def ensures_bind
  by (rule ensures_mono [OF ensures_conj
        [OF buffer_extend_spec [OF assms(1,2)] buffer_extend_granted [OF assms]]])
     (use assms(4) in \<open>auto simp: buffer_ref_end store_byte_at_end buffer_wfD(3) intro: buffer_wf_start\<close>)

lemma push_all_u8_granted:
  assumes "buffer_wf b" "heap_ok h" "heap_grants h" "\<not> b_wrapped b"
  shows "ensures (push_all_u8 h b xs) (\<lambda>b'. buffer_wf b' \<and> blist b' = blist b @ xs \<and> \<not> b_wrapped b')"
  using assms
proof (induction xs arbitrary: b)
  case (Cons x xs)
  show ?case
    using Cons.prems
    by (auto intro!: ensures_mono [OF push_u8_granted [OF Cons.prems]] ensures_mono [OF Cons.IH])
qed simp

subsection \<open>Variable-length integers\<close>

lemma low7_byte: "ucast (ucast (x AND 0x7f) :: u8) AND 0x7f = (x AND 0x7f :: u64)"
proof -
  have "ucast (ucast (x AND mask 7) :: u8) AND mask 7 = (x AND mask 7 :: u64)"
    by (rule bit_word_eqI) (auto simp: bit_simps)
  then show ?thesis by (simp add: mask_eq_exp_minus_1)
qed

lemma bit_128: "bit (0x80 :: u8) n \<longleftrightarrow> n = 7"
  using bit_exp_iff [where 'a = "8 word", of 7 n] by auto

lemma bit_128_int: "bit (0x80 :: int) n \<longleftrightarrow> n = 7"
  using bit_exp_iff [where 'a = int, of 7 n] by auto

lemma low7_no_continuation: "(ucast (x AND 0x7f :: u64) :: u8) AND 0x80 = 0"
proof -
  have "(ucast (x AND mask 7 :: u64) :: u8) AND 0x80 = 0"
    by (rule bit_word_eqI) (auto simp: bit_simps bit_128 bit_128_int)
  then show ?thesis by (simp add: mask_eq_exp_minus_1)
qed

lemma low7_continuation: "(0x80 OR ucast (x AND 0x7f :: u64) :: u8) AND 0x80 \<noteq> 0"
proof -
  have "(0x80 OR ucast (x AND 0x7f :: u64) :: u8) AND 0x80 = 0x80"
    using low7_no_continuation [of x] by (simp add: bit.conj_disj_distrib2)
  then show ?thesis by simp
qed

lemma low7_continuation_value: "ucast (0x80 OR ucast (x AND 0x7f :: u64) :: u8) AND 0x7f = (x AND 0x7f :: u64)"
proof -
  have "ucast (0x80 OR ucast (x AND mask 7) :: u8) AND mask 7 = (x AND mask 7 :: u64)"
    by (rule bit_word_eqI) (auto simp: bit_simps bit_128 bit_128_int)
  then show ?thesis by (simp add: mask_eq_exp_minus_1)
qed

lemma septets: "push_bit 7 (drop_bit 7 x) OR (x AND 0x7f) = (x :: u64)"
proof -
  have "push_bit 7 (drop_bit 7 x) OR (x AND mask 7) = x"
    by (rule bit_word_eqI) (auto simp: bit_simps)
  then show ?thesis by (simp add: mask_eq_exp_minus_1)
qed

lemma pop_u8_Cons:
  assumes "buffer_wf b" "blist b = x # xs"
  shows "pop_u8 b = Some (b\<lparr>b_start := b_start b + 1\<rparr>, x)"
    and "buffer_wf (b\<lparr>b_start := b_start b + 1\<rparr>)"
    and "blist (b\<lparr>b_start := b_start b + 1\<rparr>) = xs"
proof -
  have lt: "b_start b < b_end b"
    using assms by (cases "b_start b < b_end b") (auto simp: blist_def)
  then have len: "b_start b < length (b_contents b)"
    using assms(1) by (simp add: buffer_wf_def)
  have cons: "drop (b_start b) (b_contents b) =
              b_contents b ! b_start b # drop (Suc (b_start b)) (b_contents b)"
    using len by (rule Cons_nth_drop_Suc [symmetric])
  obtain k where k: "b_end b - b_start b = Suc k"
    using lt by (metis Suc_diff_Suc)
  have xs: "x = b_contents b ! b_start b" "xs = take k (drop (Suc (b_start b)) (b_contents b))"
    using assms(2) cons k by (auto simp: blist_def)
  show "pop_u8 b = Some (b\<lparr>b_start := b_start b + 1\<rparr>, x)"
    using lt assms(1) len cons xs(1)
    by (auto simp: pop_u8_def buffer_ref_def buffer_wf_def hd_drop_conv_nth)
  show "buffer_wf (b\<lparr>b_start := b_start b + 1\<rparr>)"
    using lt assms(1) by (simp add: buffer_wf_def)
  have "b_end b - Suc (b_start b) = k" using k by simp
  then show "blist (b\<lparr>b_start := b_start b + 1\<rparr>) = xs"
    using xs(2) by (simp add: blist_def)
qed

lemma pop_varint_more:
  assumes "buffer_wf b" "blist b = rev (varint_more y) @ rest"
  shows "\<exists>b'. buffer_wf b' \<and> blist b' = rest \<and> pop_varint_loop b 0 = pop_varint_loop b' y"
  using assms
proof (induction y arbitrary: b rest rule: varint_more.induct)
  case (1 y)
  show ?case
  proof (cases "y = 0")
    case True
    with "1.prems" show ?thesis by (auto simp: varint_more.simps)
  next
    case False
    let ?m = "0x80 OR ucast (y AND 0x7f) :: u8"
    from False "1.prems" have "blist b = rev (varint_more (drop_bit 7 y)) @ ?m # rest"
      by (simp add: varint_more.simps [of y])
    from "1.IH" [OF False "1.prems"(1) this]
    obtain b' where b': "buffer_wf b'" "blist b' = ?m # rest"
      and eq: "pop_varint_loop b 0 = pop_varint_loop b' (drop_bit 7 y)"
      by blast
    have "pop_varint_loop b' (drop_bit 7 y) = pop_varint_loop (b'\<lparr>b_start := b_start b' + 1\<rparr>) y"
      by (subst pop_varint_loop.simps)
         (simp add: pop_u8_Cons(1) [OF b'] Let_def low7_continuation low7_continuation_value septets)
    with eq pop_u8_Cons(2,3) [OF b'] show ?thesis by auto
  qed
qed

lemma pop_varint_spec:
  assumes "buffer_wf b" "blist b = rev (varint_tmp x) @ rest"
  shows "ensures (pop_varint b) (\<lambda>(b', y). y = x \<and> buffer_wf b' \<and> blist b' = rest)"
proof -
  have "blist b = rev (varint_more (drop_bit 7 x)) @ ucast (x AND 0x7f) # rest"
    using assms(2) by (simp add: varint_tmp_def)
  from pop_varint_more [OF assms(1) this]
  obtain b' where b': "buffer_wf b'" "blist b' = ucast (x AND 0x7f) # rest"
    and eq: "pop_varint_loop b 0 = pop_varint_loop b' (drop_bit 7 x)"
    by blast
  have "pop_varint_loop b' (drop_bit 7 x) = Some (b'\<lparr>b_start := b_start b' + 1\<rparr>, x)"
    by (subst pop_varint_loop.simps)
       (simp add: pop_u8_Cons(1) [OF b'] Let_def low7_no_continuation low7_byte septets)
  with eq pop_u8_Cons(2,3) [OF b'] show ?thesis by (simp add: pop_varint_def)
qed

subsection \<open>Reading\<close>

lemma buffer_consume_spec:
  assumes "buffer_wf b" "n \<le> buffer_length b"
  shows "ensures (buffer_consume b n) (\<lambda>b'. buffer_wf b' \<and> blist b' = drop n (blist b))"
  using assms
  by (auto simp: buffer_consume_def buffer_wf_def buffer_length_def blist_def drop_take ac_simps)

lemma buffer_read_spec:
  assumes "buffer_wf b"
  shows "ensures (buffer_read b n) (\<lambda>(b', d).
           buffer_wf b' \<and>
           (if n \<le> buffer_length b then d = Some (take n (blist b)) \<and> blist b' = drop n (blist b)
            else d = None \<and> b' = b))"
proof (cases "n \<le> buffer_length b")
  case True
  then have "min n (b_end b - b_start b) = n" by (simp add: buffer_length_def)
  with True assms show ?thesis
    by (auto simp: buffer_read_def buffer_ref_def buffer_wf_def buffer_length_def blist_def
        intro!: ensures_mono [OF buffer_consume_spec])
next
  case False
  with assms show ?thesis by (simp add: buffer_read_def)
qed

subsection \<open>Comparison\<close>

lemma byte_blist: "buffer_wf b \<Longrightarrow> i < buffer_length b \<Longrightarrow> byte b i = blist b ! i"
  by (simp add: byte_def blist_def buffer_wf_def buffer_length_def)

lemma buffer_compare_blist:
  assumes "buffer_wf a" "buffer_wf b"
  shows "buffer_compare a b \<longleftrightarrow> blist a = blist b"
  using assms
  by (auto simp: buffer_compare_def Let_def list_all_iff list_eq_iff_nth_eq length_blist byte_blist)

lemma drop_blist_Cons:
  "buffer_wf b \<Longrightarrow> i < buffer_length b \<Longrightarrow> drop i (blist b) = byte b i # drop (Suc i) (blist b)"
  by (simp add: Cons_nth_drop_Suc byte_blist length_blist)

lemma buffer_lt_loop_lexord:
  assumes "buffer_wf a" "buffer_wf b" "i \<le> buffer_length a"
  shows "buffer_lt_loop a b i \<longleftrightarrow> ord_class.lexordp (drop i (blist a)) (drop i (blist b))"
  using assms
proof (induction a b i rule: buffer_lt_loop.induct)
  case (1 a b i)
  consider "i \<ge> buffer_length b" | "i < buffer_length b" "i = buffer_length a"
    | "i < buffer_length b" "i < buffer_length a"
    using "1.prems"(3) by linarith
  then show ?case
  proof cases
    case 3
    with "1.IH" "1.prems" show ?thesis
      by (subst buffer_lt_loop.simps) (auto simp: drop_blist_Cons not_less)
  qed (use "1.prems" in \<open>subst buffer_lt_loop.simps; simp add: length_blist drop_blist_Cons\<close>)+
qed

lemma buffer_lt_lexord:
  assumes "buffer_wf a" "buffer_wf b"
  shows "buffer_lt a b \<longleftrightarrow> ord_class.lexordp (blist a) (blist b)"
  using buffer_lt_loop_lexord [OF assms, of 0] by (simp add: buffer_lt_def)

lemma foldl_nth_upt: "n \<le> length xs \<Longrightarrow> foldl (\<lambda>a i. f a (xs ! i)) z [0..<n] = foldl f z (take n xs)"
  by (induction n) (auto simp: take_Suc_conv_app_nth)

lemma fnv64_blist:
  assumes "buffer_wf b"
  shows "fnv64 b = foldl fnv64_step 0xcbf29ce484222325 (blist b)"
proof -
  have "fnv64 b = foldl (\<lambda>hash i. fnv64_step hash (blist b ! i)) 0xcbf29ce484222325 [0..<buffer_length b]"
    unfolding fnv64_def by (rule foldl_cong) (auto simp: byte_blist assms)
  then show ?thesis
    using assms by (simp add: foldl_nth_upt length_blist)
qed

section \<open>Properties\<close>

text \<open>Sequences of variable-length integers, written one after the other and read back in order.\<close>

fun push_varints :: "u8 heap \<Rightarrow> bytebuf \<Rightarrow> u64 list \<Rightarrow> bytebuf option" where
  "push_varints h b [] = Some b"
| "push_varints h b (x # xs) = do { b' \<leftarrow> push_varint h b x; push_varints h b' xs }"

fun pop_varints :: "bytebuf \<Rightarrow> nat \<Rightarrow> (bytebuf \<times> u64 list) option" where
  "pop_varints b 0 = Some (b, [])"
| "pop_varints b (Suc n) = do {
     (b1, x) \<leftarrow> pop_varint b;
     (b2, xs) \<leftarrow> pop_varints b1 n;
     Some (b2, x # xs)
   }"

definition varints :: "u64 list \<Rightarrow> u8 list" where
  "varints xs = concat (map (\<lambda>x. rev (varint_tmp x)) xs)"

lemma push_varints_spec:
  assumes "buffer_wf b" "heap_ok h" "heap_grants h" "\<not> b_wrapped b"
  shows "ensures (push_varints h b xs) (\<lambda>b'. buffer_wf b' \<and> blist b' = blist b @ varints xs)"
  using assms
proof (induction xs arbitrary: b)
  case (Cons x xs)
  obtain b1 where "push_varint h b x = Some b1" "buffer_wf b1" "blist b1 = blist b @ rev (varint_tmp x)" "\<not> b_wrapped b1"
    using push_all_u8_granted [OF Cons.prems] by (auto simp: push_varint_def elim!: ensuresE)
  with Cons.IH [of b1] Cons.prems show ?case by (simp add: varints_def)
qed (simp add: varints_def)

lemma pop_varints_spec:
  assumes "buffer_wf b" "blist b = varints xs @ rest"
  shows "ensures (pop_varints b (length xs)) (\<lambda>(b', ys). ys = xs \<and> buffer_wf b' \<and> blist b' = rest)"
  using assms
proof (induction xs arbitrary: b)
  case (Cons x xs)
  from Cons.prems have "blist b = rev (varint_tmp x) @ varints xs @ rest" by (simp add: varints_def)
  from pop_varint_spec [OF Cons.prems(1) this]
  obtain b1 where b1: "pop_varint b = Some (b1, x)" "buffer_wf b1" "blist b1 = varints xs @ rest"
    by (auto elim!: ensuresE)
  from Cons.IH [OF b1(2,3)] b1(1) show ?case by (auto elim!: ensuresE)
qed (simp add: varints_def)

lemma length_varint_more: "unat x < 2 ^ (7 * k) \<Longrightarrow> length (varint_more x) \<le> k"
proof (induction k arbitrary: x)
  case 0
  then have "x = 0" by (simp add: unat_eq_0)
  then show ?case by (simp add: varint_more.simps)
next
  case (Suc k)
  have "unat (drop_bit 7 x) = unat x div 2 ^ 7" by (simp add: unat_drop_bit_eq drop_bit_eq_div unat_div)
  moreover have "unat x < 2 ^ (7 * k) * 2 ^ 7" using Suc.prems by (simp add: power_add)
  ultimately have "unat (drop_bit 7 x) < 2 ^ (7 * k)" by (simp add: less_mult_imp_div_less)
  with Suc.IH [of "drop_bit 7 x"] show ?case by (simp add: varint_more.simps [of x])
qed

text \<open>C28: Any sequence of 64-bit values that \<^verbatim>\<open>push_varint\<close> writes to an empty, growable buffer is read
  back in the same order by \<^verbatim>\<open>pop_varint\<close>, which consumes every byte.\<close>

theorem varint_round_trip:
  assumes "buffer_wf b" "heap_ok h" "heap_grants h" "\<not> b_wrapped b" "blist b = []"
  shows "\<exists>b1 b2. push_varints h b xs = Some b1 \<and> pop_varints b1 (length xs) = Some (b2, xs) \<and> blist b2 = []"
proof -
  obtain b1 where b1: "push_varints h b xs = Some b1" "buffer_wf b1" "blist b1 = varints xs @ []"
    using push_varints_spec [OF assms(1-4), of xs] assms(5) by (auto elim!: ensuresE)
  from pop_varints_spec [OF b1(2,3)] b1(1) show ?thesis by (auto elim!: ensuresE)
qed

text \<open>An empty byte buffer of capacity one, on a heap that grants every request.\<close>

definition zero_heap :: "('c :: zero) heap" where
  "zero_heap n = Some (replicate n 0)"

lemma zero_heap_ok [simp]: "heap_ok zero_heap" "heap_grants zero_heap"
  by (simp_all add: heap_ok_def heap_grants_def zero_heap_def)

definition small_buffer :: bytebuf where
  "small_buffer = init_buffer 1 False [0]"

lemma small_buffer_wf [simp]: "buffer_wf small_buffer" "blist small_buffer = []" "\<not> b_wrapped small_buffer"
  by (simp_all add: small_buffer_def buffer_wf_def init_buffer_def blist_def)

theorem varint_round_trip_witness:
  "\<exists>b1 b2. push_varints zero_heap small_buffer [5, 300, 0, -1] = Some b1 \<and>
     pop_varints b1 (length [5 :: u64, 300, 0, -1]) = Some (b2, [5, 300, 0, -1]) \<and> blist b2 = []"
  using varint_round_trip [of small_buffer zero_heap "[5, 300, 0, -1]"]
  by (simp del: push_varints.simps pop_varints.simps)

text \<open>\<^verbatim>\<open>push_varint\<close> fills at most the ten entries of its array \<^verbatim>\<open>tmp\<close>, whatever the value.\<close>

theorem varint_tmp_bound: "1 \<le> length (varint_tmp x) \<and> length (varint_tmp x) \<le> 10"
proof -
  have "unat (drop_bit 7 x) = unat x div 2 ^ 7" by (simp add: unat_drop_bit_eq drop_bit_eq_div unat_div)
  moreover have "unat x < 2 ^ 64" using unsigned_less [of x] by simp
  ultimately have "unat (drop_bit 7 x) < 2 ^ (7 * 9)" by simp
  from length_varint_more [OF this] show ?thesis by (simp add: varint_tmp_def)
qed

lemma buffer_write_granted:
  assumes "buffer_wf b" "heap_ok h" "heap_grants h" "\<not> b_wrapped b" "buffer_write h b src = Some (b', ok)"
  shows "ok"
  using buffer_extend_granted [OF assms(1-4), of "length src"] assms(5)
  by (auto simp: buffer_write_def bind_eq_Some_conv elim!: ensuresE split: if_splits)

text \<open>C29: \<^verbatim>\<open>buffer_write\<close> on a well-formed buffer always returns; it appends exactly the source when it
  succeeds and keeps the contents when it refuses, and it succeeds whenever the buffer may grow and
  the heap has memory.\<close>

theorem buffer_write_correct:
  assumes "buffer_wf b" "heap_ok h"
  shows "\<exists>b' ok. buffer_write h b src = Some (b', ok) \<and> buffer_wf b' \<and>
           blist b' = blist b @ (if ok then src else []) \<and> (heap_grants h \<and> \<not> b_wrapped b \<longrightarrow> ok)"
proof -
  obtain b' ok where w: "buffer_write h b src = Some (b', ok)" "buffer_wf b'" "blist b' = blist b @ (if ok then src else [])"
    using buffer_write_spec [OF assms, of src] by (auto elim!: ensuresE)
  moreover have "ok" if "heap_grants h" "\<not> b_wrapped b" using buffer_write_granted [OF assms that w(1)] .
  ultimately show ?thesis by blast
qed

theorem buffer_write_witness:
  "\<exists>b' ok. buffer_write zero_heap small_buffer [1, 2, 3] = Some (b', ok) \<and> buffer_wf b' \<and>
     blist b' = blist small_buffer @ (if ok then [1, 2, 3] else []) \<and>
     (heap_grants (zero_heap :: u8 heap) \<and> \<not> b_wrapped small_buffer \<longrightarrow> ok)"
  using buffer_write_correct [of small_buffer zero_heap "[1, 2, 3]"] by simp

text \<open>\<^verbatim>\<open>buffer_lt\<close> and \<^verbatim>\<open>buffer_compare\<close> decide the lexicographic order and the equality of the byte
  strings held; so any two buffers are ordered one way, the other way, or equal, exclusively.\<close>

theorem buffer_lt_trichotomy:
  assumes "buffer_wf a" "buffer_wf b"
  shows "(buffer_lt a b \<longleftrightarrow> ord_class.lexordp (blist a) (blist b)) \<and>
         (buffer_compare a b \<longleftrightarrow> blist a = blist b) \<and>
         (buffer_lt a b \<or> buffer_compare a b \<or> buffer_lt b a) \<and>
         \<not> (buffer_lt a b \<and> buffer_lt b a) \<and> \<not> (buffer_lt a b \<and> buffer_compare a b)"
  using assms lexordp_linear [of "blist a" "blist b"] lexordp_antisym [of "blist a" "blist b"]
    lexordp_irreflexive' [of "blist a"]
  by (auto simp: buffer_lt_lexord buffer_compare_blist)

theorem buffer_lt_witness:
  "let a = wrap_buffer [1, 2]; b = wrap_buffer [1, 3, 0] in buffer_wf a \<and> buffer_wf b \<and>
   (buffer_lt a b \<longleftrightarrow> ord_class.lexordp (blist a) (blist b)) \<and>
   (buffer_compare a b \<longleftrightarrow> blist a = blist b) \<and>
   (buffer_lt a b \<or> buffer_compare a b \<or> buffer_lt b a) \<and>
   \<not> (buffer_lt a b \<and> buffer_lt b a) \<and> \<not> (buffer_lt a b \<and> buffer_compare a b)"
proof -
  have "buffer_wf (wrap_buffer [1, 2 :: u8])" "buffer_wf (wrap_buffer [1, 3, 0 :: u8])"
    by (simp_all add: buffer_wf_def wrap_buffer_def)
  with buffer_lt_trichotomy [of "wrap_buffer [1, 2]" "wrap_buffer [1, 3, 0]"] show ?thesis
    unfolding Let_def by blast
qed

end
