(* ===== verification/Vector.thy ===== *)
theory Vector
  imports Buffer
begin

text \<open>
  \<^verbatim>\<open>kernel/src/runtime/vector.h\<close>: vectors of pointers, which are buffers of pointer-sized cells.
  Positions count cells; \<open>blist v\<close> is the sequence of elements. \<^verbatim>\<open>vector_set\<close> adds its offset to
  \<^verbatim>\<open>start\<close> when it stores, but grows the buffer to the offset counted from the block's
  beginning, so the lemmas about it are for vectors whose window starts at the block's beginning,
  the only vectors the kernel builds.
\<close>

type_synonym vector = "ptr buffer"

definition vector_get :: "vector \<Rightarrow> int \<Rightarrow> ptr" where
  "vector_get v offset =
     (if offset < 0 \<or> nat offset + 1 > buffer_length v then 0
      else b_contents v ! (b_start v + nat offset))"

definition vector_set :: "ptr heap \<Rightarrow> vector \<Rightarrow> nat \<Rightarrow> ptr \<Rightarrow> (vector \<times> bool) option" where
  "vector_set h v offset value = do {
     (v', ok) \<leftarrow> extend_total h v (offset + 1);
     if \<not> ok then Some (v', False)
     else do {
       c \<leftarrow> memcpy_to (b_contents v') (b_start v' + offset) [value];
       Some (v'\<lparr>b_contents := c\<rparr>, True)
     }
   }"

definition vector_length :: "vector \<Rightarrow> nat" where
  "vector_length v = buffer_length v"

definition vector_clear :: "vector \<Rightarrow> vector" where
  "vector_clear v = v\<lparr>b_start := 0, b_end := 0\<rparr>"

definition allocate_vector :: "ptr heap \<Rightarrow> nat \<Rightarrow> vector option" where
  "allocate_vector h len = allocate_buffer h len"

definition vector_push :: "ptr heap \<Rightarrow> vector \<Rightarrow> ptr \<Rightarrow> vector option" where
  "vector_push h v i = do {
     (v', ok) \<leftarrow> buffer_extend h v 1;
     if ok then do {
       c \<leftarrow> memcpy_to (b_contents v') (b_end v') [i];
       Some (v'\<lparr>b_contents := c, b_end := b_end v' + 1\<rparr>)
     } else None
   }"

definition vector_peek :: "vector \<Rightarrow> ptr" where
  "vector_peek v = (if b_end v - b_start v < 1 then 0 else b_contents v ! (b_end v - 1))"

definition vector_pop :: "vector \<Rightarrow> vector \<times> ptr" where
  "vector_pop v =
     (if b_end v - b_start v < 1 then (v, 0)
      else (v\<lparr>b_end := b_end v - 1\<rparr>, b_contents v ! (b_end v - 1)))"

definition vector_consume :: "vector \<Rightarrow> nat \<Rightarrow> vector option" where
  "vector_consume v n = buffer_consume v n"

text \<open>\<^verbatim>\<open>vector_delete\<close>: the loop moves each later element one place down.\<close>

function vector_delete_loop :: "vector \<Rightarrow> nat \<Rightarrow> nat \<Rightarrow> vector option" where
  "vector_delete_loop v offset len =
     (if offset < len - 1 then do {
        x \<leftarrow> mem_slice (b_contents v) (b_start v + offset + 1) 1;
        c \<leftarrow> memcpy_to (b_contents v) (b_start v + offset) x;
        vector_delete_loop (v\<lparr>b_contents := c\<rparr>) (Suc offset) len
      } else Some v)"
  by pat_completeness auto
termination
  by (relation "measure (\<lambda>(v, offset, len). len - offset)") auto

declare vector_delete_loop.simps [simp del]

definition vector_delete :: "vector \<Rightarrow> nat \<Rightarrow> (vector \<times> ptr) option" where
  "vector_delete v offset =
     (let base = b_start v + offset in
      if base + 1 > b_end v then Some (v, 0)
      else do {
        res \<leftarrow> mem_slice (b_contents v) base 1;
        v' \<leftarrow> vector_delete_loop v offset (vector_length v);
        Some (v'\<lparr>b_end := b_end v' - 1\<rparr>, hd res)
      })"

definition vector_delete_range :: "vector \<Rightarrow> nat \<Rightarrow> nat \<Rightarrow> (vector \<times> nat) option" where
  "vector_delete_range v start end' =
     (let start_offset = b_start v + start;
          end_offset = min (b_start v + end') (b_end v)
      in if end_offset \<le> start_offset then Some (v, 0)
         else do {
           v' \<leftarrow> (if end_offset < b_end v then do {
                    src \<leftarrow> mem_slice (b_contents v) end_offset (b_end v - end_offset);
                    c \<leftarrow> memcpy_to (b_contents v) start_offset src;
                    Some (v\<lparr>b_contents := c\<rparr>)
                  } else Some v);
           Some (v'\<lparr>b_end := b_end v' - (end_offset - start_offset)\<rparr>, end_offset - start_offset)
         })"

text \<open>\<^verbatim>\<open>split\<close> and \<^verbatim>\<open>join\<close> on the bytes of the buffers they make, when no allocation fails.\<close>

fun split_loop :: "u8 \<Rightarrow> u8 list \<Rightarrow> u8 list list \<Rightarrow> u8 list \<Rightarrow> u8 list list" where
  "split_loop divider each result [] = (if length each > 0 then result @ [each] else result)"
| "split_loop divider each result (i # source) =
     (if i = divider then split_loop divider [] (result @ [each]) source
      else split_loop divider (each @ [i]) result source)"

definition split :: "u8 list \<Rightarrow> u8 \<Rightarrow> u8 list list" where
  "split source divider = split_loop divider [] [] source"

fun join_loop :: "u8 \<Rightarrow> nat \<Rightarrow> u8 list \<Rightarrow> u8 list list \<Rightarrow> u8 list" where
  "join_loop between i out [] = out"
| "join_loop between i out (x # xs) =
     join_loop between (Suc i) ((if i \<noteq> 0 then out @ [between] else out) @ x) xs"

definition join :: "u8 list list \<Rightarrow> u8 \<Rightarrow> u8 list" where
  "join source between = join_loop between 0 [] source"

subsection \<open>Elements\<close>

definition vector_wf :: "vector \<Rightarrow> bool" where
  "vector_wf v \<longleftrightarrow> buffer_wf v \<and> b_start v = 0 \<and> \<not> b_wrapped v"

lemma vector_length_blist: "vector_wf v \<Longrightarrow> vector_length v = length (blist v)"
  by (simp add: vector_wf_def vector_length_def length_blist)

lemma vector_get_blist:
  "vector_wf v \<Longrightarrow> vector_get v (int i) = (if i < length (blist v) then blist v ! i else 0)"
  by (auto simp: vector_wf_def vector_get_def length_blist blist_def buffer_wf_def buffer_length_def)

lemma vector_set_in_range:
  assumes "vector_wf v" "i < length (blist v)"
  shows "ensures (vector_set h v i x) (\<lambda>(v', ok). ok \<and> vector_wf v' \<and> blist v' = (blist v)[i := x])"
proof -
  have "i < b_end v" and len: "b_end v \<le> length (b_contents v)" and "b_start v = 0"
    using assms by (auto simp: vector_wf_def blist_def buffer_wf_def)
  then show ?thesis
    using assms
    by (auto simp: vector_set_def extend_total_def vector_wf_def buffer_wf_def blist_def
        take_update_swap [symmetric] upd_conv_take_nth_drop [symmetric])
qed

lemma vector_push_spec:
  assumes "vector_wf v" "heap_ok h"
  shows "vector_push h v x = None \<or>
         ensures (vector_push h v x) (\<lambda>v'. vector_wf v' \<and> blist v' = blist v @ [x])"
proof -
  from assms have wf: "buffer_wf v" and s: "b_start v = 0" "\<not> b_wrapped v" by (auto simp: vector_wf_def)
  have "ensures (buffer_extend h v 1) (\<lambda>(v', ok).
          ok \<longrightarrow> ensures (do {
               c \<leftarrow> memcpy_to (b_contents v') (b_end v') [x];
               Some (v'\<lparr>b_contents := c, b_end := b_end v' + 1\<rparr>)
             }) (\<lambda>v'. vector_wf v' \<and> blist v' = blist v @ [x]))"
    by (rule ensures_mono [OF buffer_extend_spec [OF wf assms(2)]])
       (auto simp: buffer_wfD(3) store_byte_at_end vector_wf_def s)
  then show ?thesis
    by (auto simp: vector_push_def elim!: ensuresE split: if_splits)
qed

lemma vector_push_granted:
  assumes "vector_wf v" "heap_ok h" "heap_grants h"
  shows "ensures (vector_push h v x) (\<lambda>v'. vector_wf v' \<and> blist v' = blist v @ [x])"
proof -
  from assms have wf: "buffer_wf v" and s: "b_start v = 0" "\<not> b_wrapped v" by (auto simp: vector_wf_def)
  show ?thesis
    unfolding vector_push_def ensures_bind
    by (rule ensures_mono [OF ensures_conj
          [OF buffer_extend_spec [OF wf assms(2)] buffer_extend_granted [OF wf assms(2,3) s(2)]]])
       (use s in \<open>auto simp: buffer_wfD(3) store_byte_at_end vector_wf_def\<close>)
qed

lemma vector_pop_spec:
  assumes "vector_wf v" "blist v \<noteq> []"
  shows "vector_wf (fst (vector_pop v))" "blist (fst (vector_pop v)) = butlast (blist v)"
    and "snd (vector_pop v) = last (blist v)"
  using assms
  by (auto simp: vector_pop_def vector_wf_def buffer_wf_def blist_def butlast_take last_conv_nth)

lemma vector_peek_blist:
  "vector_wf v \<Longrightarrow> vector_peek v = (if blist v = [] then 0 else last (blist v))"
  by (auto simp: vector_peek_def vector_wf_def buffer_wf_def blist_def last_conv_nth)

end
