(* ===== verification/Pqueue.thy ===== *)
theory Pqueue
  imports Vector
begin

text \<open>
  \<^verbatim>\<open>kernel/src/runtime/pqueue.c\<close>: binary-heap priority queues of pointers, on vectors.

  Positions (\<^verbatim>\<open>index\<close>) are one more than vector positions, so the children of \<open>i\<close> are \<open>2 i\<close> and
  \<open>2 i + 1\<close>. The comparison \<^verbatim>\<open>sort\<close> is a parameter of every operation, as it is a field of
  the C structure; its contract is the locale \<open>pqueue_sort\<close>. An index is a \<open>nat\<close>: a queue whose
  doubled index wrapped a \<^verbatim>\<open>u32\<close> would need a vector of 16 GiB.
\<close>

type_synonym sorter = "ptr \<Rightarrow> ptr \<Rightarrow> bool"

definition qcompare :: "sorter \<Rightarrow> vector \<Rightarrow> nat \<Rightarrow> nat \<Rightarrow> bool" where
  "qcompare srt body x y = srt (vector_get body (int x - 1)) (vector_get body (int y - 1))"

definition assert_set :: "ptr heap \<Rightarrow> vector \<Rightarrow> nat \<Rightarrow> ptr \<Rightarrow> vector option" where
  "assert_set h v i x = do { (v', ok) \<leftarrow> vector_set h v i x; if ok then Some v' else None }"

definition swap :: "ptr heap \<Rightarrow> vector \<Rightarrow> nat \<Rightarrow> nat \<Rightarrow> vector option" where
  "swap h body x y = do {
     let temp = vector_get body (int x - 1);
     body' \<leftarrow> assert_set h body (x - 1) (vector_get body (int y - 1));
     assert_set h body' (y - 1) temp
   }"

text \<open>\<^verbatim>\<open>heal_down\<close>; no caller passes position 0, where the C loop would not advance.\<close>

function heal_down :: "ptr heap \<Rightarrow> sorter \<Rightarrow> vector \<Rightarrow> nat \<Rightarrow> nat \<Rightarrow> vector option" where
  "heal_down h srt body lst where' =
     (if where' = 0 then None
      else if 2 * where' \<le> lst then
        (let i = (if 2 * where' < lst \<and> qcompare srt body (2 * where') (2 * where' + 1)
                  then 2 * where' + 1 else 2 * where')
         in if \<not> qcompare srt body where' i then Some body
            else do {
              body' \<leftarrow> swap h body where' i;
              heal_down h srt body' lst i
            })
      else Some body)"
  by pat_completeness auto
termination
  by (relation "measure (\<lambda>(h, srt, body, lst, where'). lst - where')") auto

function heal_up :: "ptr heap \<Rightarrow> sorter \<Rightarrow> vector \<Rightarrow> nat \<Rightarrow> vector option" where
  "heal_up h srt body where' =
     (if where' > 1 \<and> qcompare srt body (where' div 2) where' then do {
        body' \<leftarrow> swap h body (where' div 2) where';
        heal_up h srt body' (where' div 2)
      } else Some body)"
  by pat_completeness auto
termination
  by (relation "measure (\<lambda>(h, srt, body, where'). where')") auto

function add_pqueue_loop :: "ptr heap \<Rightarrow> sorter \<Rightarrow> vector \<Rightarrow> nat \<Rightarrow> nat \<Rightarrow> vector option" where
  "add_pqueue_loop h srt body i parent =
     (if parent > 0 \<and> qcompare srt body parent i then do {
        body' \<leftarrow> swap h body i parent;
        add_pqueue_loop h srt body' parent (parent div 2)
      } else Some body)"
  by pat_completeness auto
termination
  by (relation "measure (\<lambda>(h, srt, body, i, parent). parent)") auto

declare heal_down.simps [simp del] heal_up.simps [simp del] add_pqueue_loop.simps [simp del]

definition add_pqueue :: "ptr heap \<Rightarrow> sorter \<Rightarrow> vector \<Rightarrow> nat \<Rightarrow> vector option" where
  "add_pqueue h srt body i = add_pqueue_loop h srt body i (i div 2)"

definition pqueue_insert :: "ptr heap \<Rightarrow> sorter \<Rightarrow> vector \<Rightarrow> ptr \<Rightarrow> vector option" where
  "pqueue_insert h srt body v = do {
     body' \<leftarrow> vector_push h body v;
     add_pqueue h srt body' (vector_length body')
   }"

definition pqueue_remove_at :: "ptr heap \<Rightarrow> sorter \<Rightarrow> vector \<Rightarrow> nat \<Rightarrow> vector option" where
  "pqueue_remove_at h srt body i =
     (let (body', n) = vector_pop body in
      if i \<noteq> vector_length body' then do {
        body'' \<leftarrow> assert_set h body' i n;
        if i + 1 > 1 \<and> qcompare srt body'' ((i + 1) div 2) (i + 1)
        then heal_up h srt body'' (i + 1)
        else heal_down h srt body'' (vector_length body'') (i + 1)
      } else Some body')"

function pqueue_remove_loop :: "ptr heap \<Rightarrow> sorter \<Rightarrow> vector \<Rightarrow> ptr \<Rightarrow> nat \<Rightarrow> (vector \<times> bool) option" where
  "pqueue_remove_loop h srt body v i =
     (if i < vector_length body then
        if vector_get body (int i) = v then do {
          body' \<leftarrow> pqueue_remove_at h srt body i;
          Some (body', True)
        } else pqueue_remove_loop h srt body v (Suc i)
      else Some (body, False))"
  by pat_completeness auto
termination
  by (relation "measure (\<lambda>(h, srt, body, v, i). vector_length body - i)") auto

declare pqueue_remove_loop.simps [simp del]

definition pqueue_remove :: "ptr heap \<Rightarrow> sorter \<Rightarrow> vector \<Rightarrow> ptr \<Rightarrow> (vector \<times> bool) option" where
  "pqueue_remove h srt body v = pqueue_remove_loop h srt body v 0"

definition pqueue_pop :: "ptr heap \<Rightarrow> sorter \<Rightarrow> vector \<Rightarrow> (vector \<times> ptr) option" where
  "pqueue_pop h srt body =
     (if vector_length body > 0 then
        (let result = vector_get body 0; (body', n) = vector_pop body in
         if vector_peek body' \<noteq> 0 then do {
           body'' \<leftarrow> assert_set h body' 0 n;
           body''' \<leftarrow> heal_down h srt body'' (vector_length body'') 1;
           Some (body''', result)
         } else Some (body', result))
      else Some (body, INVALID_ADDRESS))"

definition pqueue_peek_at :: "vector \<Rightarrow> nat \<Rightarrow> ptr" where
  "pqueue_peek_at body i =
     (if vector_length body > i then vector_get body (int i) else INVALID_ADDRESS)"

definition pqueue_peek :: "vector \<Rightarrow> ptr" where
  "pqueue_peek body = pqueue_peek_at body 0"

definition pqueue_length :: "vector \<Rightarrow> nat" where
  "pqueue_length body = vector_length body"

text \<open>\<^verbatim>\<open>pqueue_reorder\<close>: Floyd's construction, from the last parent down to the root.\<close>

fun pqueue_reorder_loop :: "ptr heap \<Rightarrow> sorter \<Rightarrow> vector \<Rightarrow> nat \<Rightarrow> vector option" where
  "pqueue_reorder_loop h srt body 0 = Some body"
| "pqueue_reorder_loop h srt body (Suc i) = do {
     body' \<leftarrow> heal_down h srt body (vector_length body) (Suc i);
     pqueue_reorder_loop h srt body' i
   }"

definition pqueue_reorder :: "ptr heap \<Rightarrow> sorter \<Rightarrow> vector \<Rightarrow> vector option" where
  "pqueue_reorder h srt body = pqueue_reorder_loop h srt body (vector_length body div 2)"

text \<open>\<^verbatim>\<open>pqueue_walk\<close>: the handler, which may change the state, runs on the elements in the order of
  the vector until it answers false.\<close>

fun pqueue_walk_loop :: "(ptr \<Rightarrow> 's \<Rightarrow> 's \<times> bool) \<Rightarrow> ptr list \<Rightarrow> 's \<Rightarrow> 's \<times> bool" where
  "pqueue_walk_loop handler [] s = (s, True)"
| "pqueue_walk_loop handler (e # es) s =
     (case handler e s of (s', ok) \<Rightarrow> if ok then pqueue_walk_loop handler es s' else (s', False))"

definition pqueue_walk :: "(ptr \<Rightarrow> 's \<Rightarrow> 's \<times> bool) \<Rightarrow> vector \<Rightarrow> 's \<Rightarrow> 's \<times> bool" where
  "pqueue_walk handler body s = pqueue_walk_loop handler (blist body) s"

definition allocate_pqueue :: "ptr heap \<Rightarrow> vector option" where
  "allocate_pqueue h = allocate_vector h 10"

text \<open>\<^verbatim>\<open>pqueue_validate\<close>, the check compiled in under \<^verbatim>\<open>PQUEUE_PARANOIA\<close>.\<close>

function pqueue_validate :: "sorter \<Rightarrow> vector \<Rightarrow> nat \<Rightarrow> bool" where
  "pqueue_validate srt body x =
     (let lst = vector_length body; i = 2 * x in
      if x = 0 then True
      else if i > lst then True
      else if (i < lst \<and> qcompare srt body x (i + 1)) \<or> qcompare srt body x i then False
      else pqueue_validate srt body i \<and> (i = lst \<or> pqueue_validate srt body (i + 1)))"
  by pat_completeness auto
termination
  by (relation "measure (\<lambda>(srt, body, x). vector_length body + 1 - x)") auto

declare pqueue_validate.simps [simp del]

subsection \<open>Swapping elements\<close>

text \<open>\<open>el L i\<close> is the element at the one-based position \<open>i\<close>; \<open>lswap\<close> exchanges two of them.\<close>

definition el :: "'a list \<Rightarrow> nat \<Rightarrow> 'a" where
  "el L i = L ! (i - 1)"

definition lswap :: "'a list \<Rightarrow> nat \<Rightarrow> nat \<Rightarrow> 'a list" where
  "lswap L x y = L[x - 1 := el L y, y - 1 := el L x]"

lemma length_lswap [simp]: "length (lswap L x y) = length L"
  by (simp add: lswap_def)

lemma mset_lswap [simp]:
  assumes "1 \<le> x" "x \<le> length L" "1 \<le> y" "y \<le> length L"
  shows "mset (lswap L x y) = mset L"
proof -
  have "x - 1 < length L" "y - 1 < length L" using assms by auto
  then show ?thesis unfolding lswap_def el_def by (rule mset_list_swap)
qed

lemma el_lswap:
  assumes "1 \<le> x" "x \<le> length L" "1 \<le> y" "y \<le> length L" "1 \<le> i" "i \<le> length L"
  shows "el (lswap L x y) i = (if i = x then el L y else if i = y then el L x else el L i)"
  using assms by (cases x; cases y; cases i) (auto simp: lswap_def el_def nth_list_update)

lemma vector_get_el:
  assumes "vector_wf v" "1 \<le> i" "i \<le> length (blist v)"
  shows "vector_get v (int i - 1) = el (blist v) i"
proof -
  have "int i - 1 = int (i - 1)" using assms(2) by simp
  then show ?thesis using assms by (simp only: vector_get_blist [OF assms(1)] el_def) auto
qed

lemma assert_set_spec:
  assumes "vector_wf v" "i < length (blist v)"
  shows "ensures (assert_set h v i x) (\<lambda>v'. vector_wf v' \<and> blist v' = (blist v)[i := x])"
  unfolding assert_set_def ensures_bind
  by (rule ensures_mono [OF vector_set_in_range [OF assms]]) auto

lemma swap_spec:
  assumes "vector_wf v" "1 \<le> x" "x \<le> length (blist v)" "1 \<le> y" "y \<le> length (blist v)"
  shows "ensures (swap h v x y) (\<lambda>v'. vector_wf v' \<and> blist v' = lswap (blist v) x y)"
proof -
  have i: "x - 1 < length (blist v)" "y - 1 < length (blist v)" using assms by auto
  show ?thesis
    unfolding swap_def Let_def ensures_bind
    by (rule ensures_mono [OF assert_set_spec [OF assms(1) i(1)]])
       (use assms i in \<open>auto simp: lswap_def vector_get_el [OF assms(1-3)] vector_get_el [OF assms(1,4,5)]
          simp del: One_nat_def intro!: ensures_mono [OF assert_set_spec]\<close>)
qed

subsection \<open>The heap order\<close>

locale pqueue_sort =
  fixes srt :: sorter and key :: "ptr \<Rightarrow> 'k::linorder"
  assumes sort_key: "srt a b \<longleftrightarrow> key b < key a"
begin

text \<open>\<open>heap_from k L\<close>: every position whose parent is at \<open>k\<close> or later is ordered with that parent.\<close>

definition ordered_at :: "ptr list \<Rightarrow> nat \<Rightarrow> bool" where
  "ordered_at L c \<longleftrightarrow> key (el L (c div 2)) \<le> key (el L c)"

definition heap_from :: "nat \<Rightarrow> ptr list \<Rightarrow> bool" where
  "heap_from k L \<longleftrightarrow> (\<forall>c. 2 \<le> c \<and> c \<le> length L \<and> k \<le> c div 2 \<longrightarrow> ordered_at L c)"

definition sift_down_inv :: "nat \<Rightarrow> nat \<Rightarrow> ptr list \<Rightarrow> bool" where
  "sift_down_inv k w L \<longleftrightarrow>
     (\<forall>c. 2 \<le> c \<and> c \<le> length L \<and> k \<le> c div 2 \<and> c div 2 \<noteq> w \<longrightarrow> ordered_at L c) \<and>
     (\<forall>c. 2 \<le> w \<and> k \<le> w div 2 \<and> c \<le> length L \<and> c div 2 = w \<longrightarrow>
        key (el L (w div 2)) \<le> key (el L c))"

definition sift_up_inv :: "nat \<Rightarrow> ptr list \<Rightarrow> bool" where
  "sift_up_inv w L \<longleftrightarrow>
     (\<forall>c. 2 \<le> c \<and> c \<le> length L \<and> c \<noteq> w \<longrightarrow> ordered_at L c) \<and>
     (\<forall>c. 2 \<le> w \<and> c \<le> length L \<and> c div 2 = w \<longrightarrow> key (el L (w div 2)) \<le> key (el L c))"

lemma qcompare_key:
  assumes "vector_wf v" "1 \<le> x" "x \<le> length (blist v)" "1 \<le> y" "y \<le> length (blist v)"
  shows "qcompare srt v x y \<longleftrightarrow> key (el (blist v) y) < key (el (blist v) x)"
  using assms by (simp add: qcompare_def vector_get_el sort_key)

lemma sift_down_step:
  assumes inv: "sift_down_inv k w L" and w: "1 \<le> w" "k \<le> w"
    and i: "i div 2 = w" "i \<le> length L"
    and least: "\<And>c. c div 2 = w \<Longrightarrow> c \<le> length L \<Longrightarrow> key (el L i) \<le> key (el L c)"
    and lt: "key (el L i) < key (el L w)"
  shows "sift_down_inv k i (lswap L w i)"
proof -
  have iw: "i \<ge> 2" "w < i" "w \<le> length L" using i w by auto
  have el: "\<And>c. 1 \<le> c \<Longrightarrow> c \<le> length L \<Longrightarrow>
      el (lswap L w i) c = (if c = w then el L i else if c = i then el L w else el L c)"
    using iw w i by (intro el_lswap) auto
  have "ordered_at (lswap L w i) c"
    if c: "2 \<le> c" "c \<le> length L" "k \<le> c div 2" "c div 2 \<noteq> i" for c
  proof (cases "c div 2 = w")
    case True
    then show ?thesis
      using c least [of c] lt iw w by (auto simp: ordered_at_def el)
  next
    case False
    then have ord: "ordered_at L c" using inv c by (auto simp: sift_down_inv_def)
    have "c \<noteq> i" using False i by auto
    show ?thesis
    proof (cases "c = w")
      case True
      then have "key (el L (w div 2)) \<le> key (el L i)"
        using inv c i by (auto simp: sift_down_inv_def)
      then show ?thesis using True c False iw by (auto simp: ordered_at_def el)
    next
      case neq: False
      then show ?thesis
        using ord c False \<open>c \<noteq> i\<close> by (simp add: ordered_at_def el)
    qed
  qed
  moreover have "key (el (lswap L w i) (i div 2)) \<le> key (el (lswap L w i) c)"
    if c: "c \<le> length L" "c div 2 = i" for c
  proof -
    have "ordered_at L c" using inv c iw i w by (auto simp: sift_down_inv_def)
    then show ?thesis using c i iw w by (auto simp: ordered_at_def el)
  qed
  ultimately show ?thesis by (simp add: sift_down_inv_def)
qed

lemma heal_down_spec:
  assumes "vector_wf v" "1 \<le> w" "k \<le> w" "length (blist v) = lst" "sift_down_inv k w (blist v)"
  shows "ensures (heal_down h srt v lst w) (\<lambda>v'. vector_wf v' \<and> mset (blist v') = mset (blist v) \<and>
           heap_from k (blist v'))"
  using assms
proof (induction "lst - w" arbitrary: v w rule: less_induct)
  case less
  let ?L = "blist v"
  show ?case
  proof (cases "2 * w \<le> lst")
    case False
    have "ordered_at ?L c" if "2 \<le> c" "c \<le> length ?L" "k \<le> c div 2" for c
    proof -
      have "c div 2 \<noteq> w" using that False less.prems(4) by linarith
      with that less.prems(5) show ?thesis by (simp add: sift_down_inv_def)
    qed
    then have "heap_from k ?L" by (simp add: heap_from_def)
    with False less.prems show ?thesis by (subst heal_down.simps) simp
  next
    case True
    define i where "i = (if 2 * w < lst \<and> qcompare srt v (2 * w) (2 * w + 1)
                         then 2 * w + 1 else 2 * w)"
    have i: "i div 2 = w" "i \<le> length ?L" "1 \<le> i"
      using True less.prems by (auto simp: i_def)
    have least: "key (el ?L i) \<le> key (el ?L c)" if "c div 2 = w" "c \<le> length ?L" for c
    proof -
      have "c = 2 * w \<or> c = 2 * w + 1" using that by linarith
      then show ?thesis
        using that True less.prems by (auto simp: i_def qcompare_key not_less)
    qed
    have cmp: "qcompare srt v w i \<longleftrightarrow> key (el ?L i) < key (el ?L w)"
      using less.prems i True by (intro qcompare_key) auto
    have unfold: "heal_down h srt v lst w =
        (if \<not> qcompare srt v w i then Some v
         else do { v' \<leftarrow> swap h v w i; heal_down h srt v' lst i })"
      using True less.prems(2) by (subst heal_down.simps) (simp add: i_def Let_def)
    show ?thesis
    proof (cases "key (el ?L i) < key (el ?L w)")
      case False
      have "ordered_at ?L c" if "2 \<le> c" "c \<le> length ?L" "k \<le> c div 2" for c
        using that less.prems least [of c] False
        by (cases "c div 2 = w") (auto simp: sift_down_inv_def ordered_at_def)
      with False cmp less.prems show ?thesis by (simp add: unfold heap_from_def)
    next
      case lt: True
      have "ensures (swap h v w i) (\<lambda>v'. vector_wf v' \<and> blist v' = lswap ?L w i)"
        using less.prems i True by (intro swap_spec) auto
      then obtain v' where v': "swap h v w i = Some v'" "vector_wf v'" "blist v' = lswap ?L w i"
        by (auto elim: ensuresE)
      have "sift_down_inv k i (lswap ?L w i)"
        using less.prems i least lt by (intro sift_down_step) auto
      then have "ensures (heal_down h srt v' lst i) (\<lambda>v''. vector_wf v'' \<and>
          mset (blist v'') = mset (blist v') \<and> heap_from k (blist v''))"
        using less.prems v' i True by (intro less.hyps) auto
      moreover have "mset (blist v') = mset ?L"
        using v'(3) less.prems i True by simp
      ultimately show ?thesis
        using lt cmp by (simp add: unfold v'(1))
    qed
  qed
qed

definition heap :: "ptr list \<Rightarrow> bool" where
  "heap L \<longleftrightarrow> heap_from 1 L"

lemma heap_ordered: "heap L \<Longrightarrow> 2 \<le> c \<Longrightarrow> c \<le> length L \<Longrightarrow> ordered_at L c"
  by (auto simp: heap_def heap_from_def)

lemma heapI: "(\<And>c. 2 \<le> c \<Longrightarrow> c \<le> length L \<Longrightarrow> ordered_at L c) \<Longrightarrow> heap L"
  by (simp add: heap_def heap_from_def)

lemma sift_up_step:
  assumes inv: "sift_up_inv w L" and w: "2 \<le> w" "w \<le> length L"
    and lt: "key (el L w) < key (el L (w div 2))"
  shows "sift_up_inv (w div 2) (lswap L (w div 2) w)"
proof -
  let ?p = "w div 2"
  have p: "1 \<le> ?p" "?p \<le> length L" "?p < w" using w by auto
  have el: "\<And>c. 1 \<le> c \<Longrightarrow> c \<le> length L \<Longrightarrow>
      el (lswap L ?p w) c = (if c = ?p then el L w else if c = w then el L ?p else el L c)"
    using w p by (intro el_lswap) auto
  have ord: "\<And>c. 2 \<le> c \<Longrightarrow> c \<le> length L \<Longrightarrow> c \<noteq> w \<Longrightarrow> key (el L (c div 2)) \<le> key (el L c)"
    and child: "\<And>c. c \<le> length L \<Longrightarrow> c div 2 = w \<Longrightarrow> key (el L ?p) \<le> key (el L c)"
    using inv w by (auto simp: sift_up_inv_def ordered_at_def)
  have "ordered_at (lswap L ?p w) c" if c: "2 \<le> c" "c \<le> length L" "c \<noteq> ?p" for c
  proof -
    have "c div 2 \<ge> 1" "c div 2 \<le> length L" using c by auto
    then show ?thesis
      using c ord [of c] child [of c] lt p w by (auto simp: ordered_at_def el)
  qed
  moreover have "key (el (lswap L ?p w) (?p div 2)) \<le> key (el (lswap L ?p w) c)"
    if c: "2 \<le> ?p" "c \<le> length L" "c div 2 = ?p" for c
  proof -
    have "?p div 2 \<ge> 1" "?p div 2 < ?p" "1 \<le> c" "c \<noteq> ?p" using c p by auto
    moreover have "key (el L (?p div 2)) \<le> key (el L ?p)" using c p by (intro ord) auto
    moreover have "key (el L ?p) \<le> key (el L c)" if "c \<noteq> w"
      using ord [of c] c that by auto
    ultimately show ?thesis
      using c p w by (auto simp: el intro: order_trans)
  qed
  ultimately show ?thesis by (simp add: sift_up_inv_def)
qed

lemma sift_up_done:
  assumes "sift_up_inv w L" "1 < w \<and> w \<le> length L \<Longrightarrow> \<not> key (el L w) < key (el L (w div 2))"
  shows "heap L"
proof (rule heapI)
  fix c assume c: "2 \<le> c" "c \<le> length L"
  show "ordered_at L c"
    using assms c by (cases "c = w") (auto simp: sift_up_inv_def ordered_at_def)
qed

lemma heal_up_spec:
  assumes "vector_wf v" "1 \<le> w" "w \<le> length (blist v)" "sift_up_inv w (blist v)"
  shows "ensures (heal_up h srt v w) (\<lambda>v'. vector_wf v' \<and> mset (blist v') = mset (blist v) \<and>
           heap (blist v'))"
  using assms
proof (induction w arbitrary: v rule: less_induct)
  case (less w)
  let ?L = "blist v"
  show ?case
  proof (cases "w > 1 \<and> key (el ?L w) < key (el ?L (w div 2))")
    case False
    with less.prems have "heap ?L" by (intro sift_up_done [of w]) auto
    moreover have "\<not> (w > 1 \<and> qcompare srt v (w div 2) w)"
      using False less.prems by (auto simp: qcompare_key)
    ultimately show ?thesis
      using less.prems(1) by (subst heal_up.simps) auto
  next
    case True
    then have c: "qcompare srt v (w div 2) w"
      using less.prems by (subst qcompare_key) auto
    have "ensures (swap h v (w div 2) w) (\<lambda>v'. vector_wf v' \<and> blist v' = lswap ?L (w div 2) w)"
      using less.prems True by (intro swap_spec) auto
    then show ?thesis
      using c True less.prems sift_up_step [of w ?L]
      by (subst heal_up.simps)
         (auto elim!: ensures_mono intro!: ensures_mono [OF less.IH])
  qed
qed

lemma lswap_commute: "1 \<le> x \<Longrightarrow> 1 \<le> y \<Longrightarrow> lswap L x y = lswap L y x"
  by (cases "x = y") (auto simp: lswap_def intro: list_update_swap)

lemma add_pqueue_spec:
  assumes "vector_wf v" "1 \<le> w" "w \<le> length (blist v)" "sift_up_inv w (blist v)"
  shows "ensures (add_pqueue h srt v w) (\<lambda>v'. vector_wf v' \<and> mset (blist v') = mset (blist v) \<and>
           heap (blist v'))"
  using assms unfolding add_pqueue_def
proof (induction w arbitrary: v rule: less_induct)
  case (less w)
  let ?L = "blist v"
  show ?case
  proof (cases "w > 1 \<and> key (el ?L w) < key (el ?L (w div 2))")
    case False
    with less.prems have "heap ?L" by (intro sift_up_done [of w]) auto
    moreover have "\<not> (w div 2 > 0 \<and> qcompare srt v (w div 2) w)"
      using False less.prems by (auto simp: qcompare_key)
    ultimately show ?thesis
      using less.prems(1) by (subst add_pqueue_loop.simps) auto
  next
    case True
    then have c: "qcompare srt v (w div 2) w" "w div 2 > 0"
      using less.prems by (auto simp: qcompare_key)
    have "ensures (swap h v w (w div 2)) (\<lambda>v'. vector_wf v' \<and> blist v' = lswap ?L w (w div 2))"
      using less.prems True by (intro swap_spec) auto
    moreover have "lswap ?L w (w div 2) = lswap ?L (w div 2) w"
      using c less.prems by (intro lswap_commute) auto
    ultimately show ?thesis
      using c True less.prems sift_up_step [of w ?L]
      by (subst add_pqueue_loop.simps)
         (auto elim!: ensures_mono intro!: ensures_mono [OF less.IH])
  qed
qed

lemma heap_snoc_sift_up:
  assumes "heap L"
  shows "sift_up_inv (Suc (length L)) (L @ [x])"
proof -
  have "el (L @ [x]) c = el L c" if "1 \<le> c" "c \<le> length L" for c
    using that by (auto simp: el_def nth_append)
  then show ?thesis
    using heap_ordered [OF assms] by (auto simp: sift_up_inv_def ordered_at_def)
qed

lemma pqueue_insert_granted:
  assumes "vector_wf v" "heap (blist v)" "heap_ok h" "heap_grants h"
  shows "ensures (pqueue_insert h srt v x) (\<lambda>v'. vector_wf v' \<and> heap (blist v') \<and>
           mset (blist v') = add_mset x (mset (blist v)))"
  unfolding pqueue_insert_def ensures_bind
  by (rule ensures_mono [OF vector_push_granted [OF assms(1,3,4)]])
     (auto simp: vector_length_blist heap_snoc_sift_up assms(2)
       intro!: ensures_mono [OF add_pqueue_spec])

text \<open>The first element is a least one.\<close>

lemma heap_least:
  assumes "heap L" "1 \<le> c" "c \<le> length L"
  shows "key (el L 1) \<le> key (el L c)"
  using assms(2,3)
proof (induction c rule: less_induct)
  case (less c)
  show ?case
  proof (cases "c = 1")
    case False
    then have "key (el L 1) \<le> key (el L (c div 2))" using less by (intro less.IH) auto
    also have "\<dots> \<le> key (el L c)"
      using heap_ordered [OF assms(1), of c] less.prems False by (simp add: ordered_at_def)
    finally show ?thesis .
  qed simp
qed

lemma heap_hd_least:
  assumes "heap L" "x \<in> set L"
  shows "key (hd L) \<le> key x"
proof -
  obtain i where "i < length L" "x = L ! i" using assms(2) by (auto simp: in_set_conv_nth)
  then show ?thesis
    using heap_least [OF assms(1), of "Suc i"] by (cases L) (auto simp: el_def)
qed

text \<open>Replacing an element by the last one.\<close>

lemma el_replace:
  assumes "i < length L - 1" "1 \<le> c" "c \<le> length L - 1"
  shows "el ((butlast L)[i := x]) c = (if c = i + 1 then x else el L c)"
  using assms by (cases c) (auto simp: el_def nth_list_update nth_butlast)

lemma replace_sift_up:
  assumes "heap L" and i: "1 \<le> i" "i < length L - 1" and lt: "key x < key (el L ((i + 1) div 2))"
  shows "sift_up_inv (i + 1) ((butlast L)[i := x])"
proof -
  let ?w = "i + 1" and ?M = "(butlast L)[i := x]"
  have ord: "\<And>c. 2 \<le> c \<Longrightarrow> c \<le> length L \<Longrightarrow> key (el L (c div 2)) \<le> key (el L c)"
    using heap_ordered [OF assms(1)] by (simp add: ordered_at_def)
  have el: "\<And>c. 1 \<le> c \<Longrightarrow> c \<le> length L - 1 \<Longrightarrow> el ?M c = (if c = ?w then x else el L c)"
    using i by (intro el_replace) auto
  have pw: "key (el L (?w div 2)) \<le> key (el L ?w)" using i by (intro ord) auto
  have "ordered_at ?M c" if c: "2 \<le> c" "c \<le> length L - 1" "c \<noteq> ?w" for c
  proof (cases "c div 2 = ?w")
    case True
    then have "key (el L ?w) \<le> key (el L c)" using ord [of c] c by auto
    with lt pw have "key x \<le> key (el L c)" by (meson less_imp_le order_trans)
    with True c i show ?thesis by (simp add: ordered_at_def el)
  next
    case False
    with c ord [of c] show ?thesis by (auto simp: ordered_at_def el)
  qed
  moreover have "key (el ?M (?w div 2)) \<le> key (el ?M c)"
    if c: "c \<le> length L - 1" "c div 2 = ?w" for c
  proof -
    have "key (el L ?w) \<le> key (el L c)" using ord [of c] c by auto
    with pw have "key (el L (?w div 2)) \<le> key (el L c)" by (rule order_trans)
    with c i show ?thesis by (auto simp: el)
  qed
  ultimately show ?thesis by (simp add: sift_up_inv_def)
qed

lemma replace_sift_down:
  assumes "heap L" and i: "i < length L - 1"
    and ge: "1 \<le> i \<Longrightarrow> \<not> key x < key (el L ((i + 1) div 2))"
  shows "sift_down_inv 1 (i + 1) ((butlast L)[i := x])"
proof -
  let ?w = "i + 1" and ?M = "(butlast L)[i := x]"
  have ord: "\<And>c. 2 \<le> c \<Longrightarrow> c \<le> length L \<Longrightarrow> key (el L (c div 2)) \<le> key (el L c)"
    using heap_ordered [OF assms(1)] by (simp add: ordered_at_def)
  have el: "\<And>c. 1 \<le> c \<Longrightarrow> c \<le> length L - 1 \<Longrightarrow> el ?M c = (if c = ?w then x else el L c)"
    using i by (intro el_replace) auto
  have "ordered_at ?M c" if c: "2 \<le> c" "c \<le> length L - 1" "c div 2 \<noteq> ?w" for c
    using c ord [of c] ge i by (cases "c = ?w") (auto simp: ordered_at_def el)
  moreover have "key (el ?M (?w div 2)) \<le> key (el ?M c)"
    if c: "2 \<le> ?w" "c \<le> length L - 1" "c div 2 = ?w" for c
  proof -
    have "key (el L (?w div 2)) \<le> key (el L ?w)" using ord [of ?w] c i by auto
    moreover have "key (el L ?w) \<le> key (el L c)" using ord [of c] c by auto
    ultimately have "key (el L (?w div 2)) \<le> key (el L c)" by (rule order_trans)
    with c i show ?thesis by (auto simp: el)
  qed
  ultimately show ?thesis by (simp add: sift_down_inv_def)
qed

lemma heap_butlast:
  assumes "heap L"
  shows "heap (butlast L)"
proof (rule heapI)
  fix c assume c: "2 \<le> c" "c \<le> length (butlast L)"
  have "el (butlast L) d = el L d" if "1 \<le> d" "d \<le> length (butlast L)" for d
    using that by (auto simp: el_def nth_butlast)
  then show "ordered_at (butlast L) c"
    using heap_ordered [OF assms, of c] c by (auto simp: ordered_at_def)
qed

lemma pqueue_remove_at_spec:
  assumes "vector_wf v" "heap (blist v)" "i < length (blist v)"
  shows "ensures (pqueue_remove_at h srt v i) (\<lambda>v'. vector_wf v' \<and> heap (blist v') \<and>
           mset (blist v') = mset (blist v) - {#blist v ! i#})"
proof -
  let ?L = "blist v" and ?v1 = "fst (vector_pop v)"
  have ne: "?L \<noteq> []" using assms(3) by auto
  note pop = vector_pop_spec [OF assms(1) ne]
  have split: "?L = butlast ?L @ [last ?L]" using ne by simp
  have mset_L: "mset ?L = add_mset (last ?L) (mset (butlast ?L))"
    by (subst split) simp
  show ?thesis
  proof (cases "i = length ?L - 1")
    case True
    then have "?L ! i = last ?L" using ne by (simp add: last_conv_nth)
    with True pop assms(2) mset_L show ?thesis
      by (auto simp: pqueue_remove_at_def split_beta vector_length_blist heap_butlast)
  next
    case False
    then have i: "i < length ?L - 1" using assms(3) by auto
    let ?M = "(butlast ?L)[i := last ?L]"
    have "ensures (assert_set h ?v1 i (last ?L)) (\<lambda>v2. vector_wf v2 \<and> blist v2 = ?M)"
      using assert_set_spec [of ?v1 i h "last ?L"] pop i by simp
    then obtain v2 where v2: "assert_set h ?v1 i (last ?L) = Some v2" "vector_wf v2" "blist v2 = ?M"
      by (auto elim: ensuresE)
    have nth: "butlast ?L ! i = ?L ! i" using i by (simp add: nth_butlast)
    then have "?L ! i \<in># mset (butlast ?L)"
      using i by (metis length_butlast nth_mem set_mset_mset)
    then have mset_M: "mset ?M = mset ?L - {#?L ! i#}"
      using i mset_L nth by (simp add: mset_update)
    have cmp: "qcompare srt v2 ((i + 1) div 2) (i + 1) \<longleftrightarrow>
        key (last ?L) < key (el ?L ((i + 1) div 2))" if "1 \<le> i"
      using that i v2 by (auto simp: qcompare_key el_replace)
    have unfold: "pqueue_remove_at h srt v i =
        (if i + 1 > 1 \<and> qcompare srt v2 ((i + 1) div 2) (i + 1) then heal_up h srt v2 (i + 1)
         else heal_down h srt v2 (vector_length v2) (i + 1))"
      using pop False v2
      by (simp add: pqueue_remove_at_def split_beta vector_length_blist)
    show ?thesis
    proof (cases "1 \<le> i \<and> key (last ?L) < key (el ?L ((i + 1) div 2))")
      case True
      then show ?thesis
        using cmp i v2 mset_M replace_sift_up [OF assms(2), of i "last ?L"] unfold
        by (auto intro!: ensures_mono [OF heal_up_spec])
    next
      case no: False
      then show ?thesis
        using cmp i v2 mset_M replace_sift_down [OF assms(2), of i "last ?L"] unfold
        by (auto simp: heap_def vector_length_blist
            intro!: ensures_mono [OF heal_down_spec [where k = 1]])
    qed
  qed
qed

lemma pqueue_remove_loop_spec:
  assumes "vector_wf v" "heap (blist v)" "\<forall>j<i. j < length (blist v) \<longrightarrow> blist v ! j \<noteq> x"
  shows "ensures (pqueue_remove_loop h srt v x i) (\<lambda>(v', found).
           vector_wf v' \<and> heap (blist v') \<and> found = (x \<in> set (blist v)) \<and>
           mset (blist v') = mset (blist v) - {#x#})"
  using assms
proof (induction "length (blist v) - i" arbitrary: i)
  case 0
  then have "x \<notin> set (blist v)" by (auto simp: in_set_conv_nth)
  with 0 show ?case
    by (subst pqueue_remove_loop.simps) (simp add: vector_length_blist diff_single_trivial)
next
  case (Suc n)
  then have i: "i < length (blist v)" by simp
  show ?case
  proof (cases "blist v ! i = x")
    case True
    with i Suc.prems show ?thesis
      by (subst pqueue_remove_loop.simps)
         (auto simp: vector_length_blist vector_get_blist
           intro!: ensures_mono [OF pqueue_remove_at_spec])
  next
    case False
    have "ensures (pqueue_remove_loop h srt v x (Suc i)) (\<lambda>(v', found).
           vector_wf v' \<and> heap (blist v') \<and> found = (x \<in> set (blist v)) \<and>
           mset (blist v') = mset (blist v) - {#x#})"
      using Suc.hyps(2) Suc.prems False less_Suc_eq
      by (intro Suc.hyps(1)) auto
    with False i Suc.prems show ?thesis
      by (subst pqueue_remove_loop.simps) (simp add: vector_length_blist vector_get_blist)
  qed
qed

lemma pqueue_pop_spec:
  assumes "vector_wf v" "heap (blist v)" "blist v \<noteq> []" "0 \<notin> set (blist v)"
  shows "ensures (pqueue_pop h srt v) (\<lambda>(v', x). vector_wf v' \<and> heap (blist v') \<and>
           x = hd (blist v) \<and> mset (blist v') = mset (blist v) - {#x#})"
proof -
  let ?L = "blist v" and ?v1 = "fst (vector_pop v)"
  note pop = vector_pop_spec [OF assms(1,3)]
  have get: "vector_get v 0 = hd ?L"
    using vector_get_blist [OF assms(1), of 0] assms(3) by (simp add: hd_conv_nth)
  have peek: "vector_peek ?v1 \<noteq> 0 \<longleftrightarrow> length ?L \<noteq> 1"
  proof -
    have "butlast ?L \<noteq> [] \<Longrightarrow> last (butlast ?L) \<in> set ?L"
      by (meson in_set_butlastD last_in_set)
    then show ?thesis
      using pop assms(3,4) by (auto simp: vector_peek_blist butlast_conv_take le_Suc_eq)
  qed
  show ?thesis
  proof (cases "length ?L = 1")
    case True
    then obtain x where "?L = [x]" by (auto simp: length_Suc_conv)
    with peek pop get assms show ?thesis
      by (auto simp: pqueue_pop_def split_beta Let_def vector_length_blist heap_def heap_from_def)
  next
    case False
    then have L: "Suc 0 < length ?L" "0 < length ?L" using assms(3) by (auto simp: Suc_lessI)
    have eq: "pqueue_pop h srt v = do { v' \<leftarrow> pqueue_remove_at h srt v 0; Some (v', hd ?L) }"
      using peek False pop get L vector_length_blist [OF assms(1)]
      by (simp add: pqueue_pop_def pqueue_remove_at_def split_beta Let_def vector_length_blist)
    have "?L ! 0 = hd ?L" using assms(3) by (simp add: hd_conv_nth)
    then show ?thesis
      using ensures_mono [OF pqueue_remove_at_spec [OF assms(1,2) L(2)]] by (simp add: eq)
  qed
qed

lemma pqueue_reorder_loop_spec:
  assumes "vector_wf v" "heap_from (Suc i) (blist v)"
  shows "ensures (pqueue_reorder_loop h srt v i) (\<lambda>v'. vector_wf v' \<and> heap (blist v') \<and>
           mset (blist v') = mset (blist v))"
  using assms
proof (induction i arbitrary: v)
  case 0
  then show ?case by (simp add: heap_def)
next
  case (Suc i)
  have "sift_down_inv (Suc i) (Suc i) (blist v)"
    using Suc.prems(2) by (auto simp: sift_down_inv_def heap_from_def)
  then have "ensures (heal_down h srt v (vector_length v) (Suc i))
      (\<lambda>v'. vector_wf v' \<and> mset (blist v') = mset (blist v) \<and> heap_from (Suc i) (blist v'))"
    using Suc.prems by (intro heal_down_spec) (auto simp: vector_length_blist)
  then show ?case
    by (auto elim!: ensures_mono intro!: ensures_mono [OF Suc.IH])
qed

lemma pqueue_reorder_spec:
  assumes "vector_wf v"
  shows "ensures (pqueue_reorder h srt v) (\<lambda>v'. vector_wf v' \<and> heap (blist v') \<and>
           mset (blist v') = mset (blist v))"
  unfolding pqueue_reorder_def
  using assms by (intro pqueue_reorder_loop_spec) (auto simp: heap_from_def vector_length_blist)

lemma pqueue_validate_heap:
  assumes "vector_wf v" "heap (blist v)" "1 \<le> x"
  shows "pqueue_validate srt v x"
  using assms(3)
proof (induction "length (blist v) + 1 - x" arbitrary: x rule: less_induct)
  case less
  show ?case
  proof (cases "2 * x \<le> length (blist v)")
    case True
    have "\<not> qcompare srt v x c" if "c div 2 = x" "c \<le> length (blist v)" for c
    proof -
      have "ordered_at (blist v) c" using that less.prems assms(2) by (intro heap_ordered) auto
      then show ?thesis using that less.prems assms(1) by (auto simp: qcompare_key ordered_at_def)
    qed
    moreover have "pqueue_validate srt v (2 * x)" "2 * x = length (blist v) \<or> pqueue_validate srt v (2 * x + 1)"
      using less.hyps [of "2 * x"] less.hyps [of "2 * x + 1"] less.prems True by auto
    ultimately show ?thesis
      using True assms(1) by (subst pqueue_validate.simps) (auto simp: Let_def vector_length_blist)
  next
    case False
    then show ?thesis
      using assms(1) by (subst pqueue_validate.simps) (auto simp: Let_def vector_length_blist)
  qed
qed

end

end
