(* ===== verification/Clock.thy ===== *)
theory Clock
  imports Prelude
begin

text \<open>
  Clocks: \<^verbatim>\<open>kernel/src/runtime/clock.h\<close>, \<^verbatim>\<open>kernel/src/kernel/vdso.h\<close>, \<^verbatim>\<open>kernel/src/kernel/vdso-now.c\<close> and the
  parts of \<^verbatim>\<open>kernel/src/kernel/pvclock.c\<close> that compute a time.

  A timestamp is a fixed-point number of seconds with 32 fractional bits, kept in a \<^verbatim>\<open>u64\<close>. The clock
  parameters shared with user space are the record \<open>vdso_dat_struct\<close>; the signed fields
  (\<^verbatim>\<open>s64\<close>) are words read with \<open>sint\<close> and shifted with \<open>signed_drop_bit\<close>, and the products of
  the frequency adjustments wrap, as the compiled code does.

  Readers retry while the generation counter moves: one turn of the loop is a function of the
  parameters read (\<open>now_turn\<close>, \<open>vdso_turn\<close>), the loop itself runs over the list of what each
  turn observed, and the section on concurrent updates runs a reader against a writer field by field.
\<close>

section \<open>Clock identifiers and parameters\<close>

datatype clock_id =
    CLOCK_ID_REALTIME | CLOCK_ID_MONOTONIC | CLOCK_ID_PROCESS_CPUTIME_ID | CLOCK_ID_THREAD_CPUTIME_ID
  | CLOCK_ID_MONOTONIC_RAW | CLOCK_ID_REALTIME_COARSE | CLOCK_ID_MONOTONIC_COARSE | CLOCK_ID_BOOTTIME
  | CLOCK_ID_REALTIME_ALARM | CLOCK_ID_BOOTTIME_ALARM

datatype vdso_clock_id = VDSO_CLOCK_SYSCALL | VDSO_CLOCK_HPET | VDSO_CLOCK_TSC_STABLE | VDSO_CLOCK_PVCLOCK

type_synonym timestamp = u64

record vdso_dat_struct =
  clock_src :: vdso_clock_id
  status :: u64
  rtc_offset :: timestamp
  pvclock_offset :: u64
  vdso_gen :: u64
  last_raw :: timestamp
  base_freq :: u64
  slew_freq :: u64
  slew_start :: timestamp
  slew_end :: timestamp

definition CLOCK_FP_BITS :: nat where
  "CLOCK_FP_BITS = 32"

definition clock_freq_adjust :: "vdso_dat_struct \<Rightarrow> u64 \<Rightarrow> u64" where
  "clock_freq_adjust dat interval = signed_drop_bit CLOCK_FP_BITS (interval * base_freq dat)"

definition clock_phase_adjust :: "vdso_dat_struct \<Rightarrow> timestamp \<Rightarrow> u64 \<Rightarrow> u64" where
  "clock_phase_adjust dat raw interval =
     (let start = raw - interval;
          start = (if slew_start dat > start then slew_start dat else start);
          end' = (if raw > slew_end dat then slew_end dat else raw)
      in if raw < start then 0
         else signed_drop_bit CLOCK_FP_BITS (slew_freq dat * (end' - start)))"

section \<open>Reading a clock\<close>

text \<open>One turn of the loop of \<^verbatim>\<open>now\<close>, with the parameters \<open>dat\<close> and the reading \<open>t\<close> of the platform
  clock; \<open>None\<close> is the assertion that the platform clock has not gone behind \<^verbatim>\<open>last_raw\<close>.\<close>

definition now_turn :: "vdso_dat_struct \<Rightarrow> clock_id \<Rightarrow> timestamp \<Rightarrow> timestamp option" where
  "now_turn dat cid t =
     (if cid = CLOCK_ID_MONOTONIC_RAW then Some t
      else if t < last_raw dat then None
      else (let interval = t - last_raw dat;
                t1 = t + clock_freq_adjust dat interval;
                t2 = (if t1 < last_raw dat then last_raw dat else t1)
            in Some (if cid = CLOCK_ID_REALTIME \<or> cid = CLOCK_ID_REALTIME_COARSE
                     then t2 + clock_phase_adjust dat t2 interval + rtc_offset dat
                     else t2)))"

text \<open>What one turn of a reader observes: the parameters, the platform clock, and the generation when
  the turn ends.\<close>

type_synonym clock_obs = "vdso_dat_struct \<times> timestamp \<times> u64"

definition gen_mask :: "u64 \<Rightarrow> u64" where
  "gen_mask g = g AND NOT 1"

text \<open>\<^verbatim>\<open>now\<close>: without a platform clock the answer is \<open>-1\<close>. The list holds what the successive turns
  observe; a list that ends before a turn succeeds is a reader still spinning. The raw clock
  returns from inside its first turn.\<close>

fun now_loop :: "clock_id \<Rightarrow> clock_obs list \<Rightarrow> timestamp option" where
  "now_loop cid [] = None"
| "now_loop cid ((dat, t, gen') # obs) =
     (if cid = CLOCK_ID_MONOTONIC_RAW then Some t
      else do {
        r \<leftarrow> now_turn dat cid t;
        if gen_mask (vdso_gen dat) \<noteq> gen' then now_loop cid obs else Some r
      })"

definition now :: "vdso_dat_struct \<Rightarrow> timestamp option \<Rightarrow> clock_id \<Rightarrow> timestamp option" where
  "now dat platform cid =
     (case platform of None \<Rightarrow> Some (- 1) | Some t \<Rightarrow> now_loop cid [(dat, t, vdso_gen dat)])"

definition uptime :: "vdso_dat_struct \<Rightarrow> timestamp option \<Rightarrow> timestamp option" where
  "uptime dat platform = now dat platform CLOCK_ID_BOOTTIME"

definition reset_clock_vdso_dat :: "vdso_dat_struct \<Rightarrow> vdso_dat_struct" where
  "reset_clock_vdso_dat dat =
     dat\<lparr>last_raw := 0, base_freq := 0, slew_freq := 0, slew_start := 0, slew_end := 0, vdso_gen := 0\<rparr>"

text \<open>\<^verbatim>\<open>register_platform_clock_now\<close>; \<open>rt\<close> is what the hardware clock answers (\<^verbatim>\<open>rtc_gettimeofday\<close>) and
  \<open>t\<close> the first reading of the new platform clock.\<close>

definition register_platform_clock_now ::
    "vdso_dat_struct \<Rightarrow> vdso_clock_id \<Rightarrow> timestamp \<Rightarrow> u64 \<Rightarrow> timestamp \<Rightarrow> vdso_dat_struct" where
  "register_platform_clock_now dat cid offset rt t =
     (let offset' = (if offset = 0 \<and> rt \<noteq> 0 then push_bit 32 rt - t else offset)
      in reset_clock_vdso_dat (dat\<lparr>clock_src := cid, rtc_offset := offset'\<rparr>))"

section \<open>Conversions\<close>

definition THOUSAND :: u64 where "THOUSAND = 1000"
definition MILLION :: u64 where "MILLION = 1000000"
definition BILLION :: u64 where "BILLION = 1000000000"
definition TRILLION :: u64 where "TRILLION = 1000000000000"
definition QUADRILLION :: u64 where "QUADRILLION = 1000000000000000"
definition TIMESTAMP_SECOND :: u64 where "TIMESTAMP_SECOND = 0x100000000"

definition seconds :: "u64 \<Rightarrow> timestamp" where
  "seconds n = n * TIMESTAMP_SECOND"

definition TIMESTAMP_CONV_FN :: "u64 \<Rightarrow> u64 \<Rightarrow> timestamp" where
  "TIMESTAMP_CONV_FN factor n =
     (if n = 0 then 0
      else (let sec = n div factor; n' = n - sec * factor
            in seconds sec + seconds n' div factor + 1))"

definition TIMESTAMP_CONV_FN_2 :: "u64 \<Rightarrow> u64 \<Rightarrow> timestamp" where
  "TIMESTAMP_CONV_FN_2 factor n = (if n = 0 then 0 else n div drop_bit 32 factor + 1)"

definition milliseconds :: "u64 \<Rightarrow> timestamp" where "milliseconds = TIMESTAMP_CONV_FN THOUSAND"
definition microseconds :: "u64 \<Rightarrow> timestamp" where "microseconds = TIMESTAMP_CONV_FN MILLION"
definition nanoseconds :: "u64 \<Rightarrow> timestamp" where "nanoseconds = TIMESTAMP_CONV_FN BILLION"
definition picoseconds :: "u64 \<Rightarrow> timestamp" where "picoseconds = TIMESTAMP_CONV_FN_2 TRILLION"
definition femtoseconds :: "u64 \<Rightarrow> timestamp" where "femtoseconds = TIMESTAMP_CONV_FN_2 QUADRILLION"

definition truncate_seconds :: "timestamp \<Rightarrow> timestamp" where
  "truncate_seconds t = t AND mask 32"

definition sec_from_timestamp :: "timestamp \<Rightarrow> u64" where
  "sec_from_timestamp t = t div TIMESTAMP_SECOND"

definition nsec_from_timestamp :: "timestamp \<Rightarrow> u64" where
  "nsec_from_timestamp t = sec_from_timestamp t * BILLION + truncate_seconds t * BILLION div TIMESTAMP_SECOND"

definition usec_from_timestamp :: "timestamp \<Rightarrow> u64" where
  "usec_from_timestamp t = sec_from_timestamp t * MILLION + truncate_seconds t * MILLION div TIMESTAMP_SECOND"

definition msec_from_timestamp :: "timestamp \<Rightarrow> u64" where
  "msec_from_timestamp t = sec_from_timestamp t * THOUSAND + truncate_seconds t * THOUSAND div TIMESTAMP_SECOND"

section \<open>The clock of user space\<close>

definition VDSO_NO_NOW :: timestamp where
  "VDSO_NO_NOW = - 1"

record pvclock_vcpu_time_info =
  version :: u32
  tsc_timestamp :: u64
  system_time :: u64
  tsc_to_system_mul :: u32
  tsc_shift :: "8 word"

text \<open>One turn of \<^verbatim>\<open>vdso_pvclock_now_ns\<close>, with the time-stamp counter at \<open>tsc\<close>; the product is taken
  in 128 bits.\<close>

definition pvclock_turn :: "pvclock_vcpu_time_info \<Rightarrow> u64 \<Rightarrow> u64" where
  "pvclock_turn v tsc =
     (let delta = tsc - tsc_timestamp v;
          delta = (if sint (tsc_shift v) < 0 then drop_bit (nat (- sint (tsc_shift v))) delta
                   else push_bit (nat (sint (tsc_shift v))) delta)
      in system_time v + ucast (drop_bit 32 ((ucast delta :: 128 word) * ucast (tsc_to_system_mul v))))"

fun vdso_pvclock_now_ns :: "(pvclock_vcpu_time_info \<times> u64 \<times> u32) list \<Rightarrow> u64 option" where
  "vdso_pvclock_now_ns [] = None"
| "vdso_pvclock_now_ns ((v, tsc, version') # obs) =
     (if version v AND NOT 1 \<noteq> version' then vdso_pvclock_now_ns obs else Some (pvclock_turn v tsc))"

definition pvclock_now_ns :: "pvclock_vcpu_time_info \<Rightarrow> u64 \<Rightarrow> u64 option" where
  "pvclock_now_ns v tsc = vdso_pvclock_now_ns [(v, tsc, version v)]"

definition pvclock_now :: "pvclock_vcpu_time_info \<Rightarrow> u64 \<Rightarrow> timestamp option" where
  "pvclock_now v tsc = map_option nanoseconds (pvclock_now_ns v tsc)"

text \<open>\<open>pv\<close> is the reading of the paravirtual clock, the only source user space has.\<close>

definition vdso_get_now_fn :: "vdso_clock_id \<Rightarrow> timestamp \<Rightarrow> timestamp" where
  "vdso_get_now_fn cid pv = (case cid of VDSO_CLOCK_PVCLOCK \<Rightarrow> pv | _ \<Rightarrow> VDSO_NO_NOW)"

text \<open>One turn of the loop of \<^verbatim>\<open>vdso_now\<close>: the values of \<^verbatim>\<open>_now\<close> and \<^verbatim>\<open>_off\<close> at its end. A clock id that
  is not handled keeps the values from before the loop.\<close>

definition vdso_turn :: "vdso_dat_struct \<Rightarrow> clock_id \<Rightarrow> timestamp \<Rightarrow> timestamp \<times> timestamp" where
  "vdso_turn dat cid pv =
     (let n = vdso_get_now_fn (clock_src dat) pv; ival = n - last_raw dat in
      case cid of
        CLOCK_ID_MONOTONIC_RAW \<Rightarrow> (n, 0)
      | CLOCK_ID_MONOTONIC \<Rightarrow> (n, clock_freq_adjust dat ival)
      | CLOCK_ID_MONOTONIC_COARSE \<Rightarrow> (n, clock_freq_adjust dat ival)
      | CLOCK_ID_BOOTTIME \<Rightarrow> (n, clock_freq_adjust dat ival)
      | CLOCK_ID_REALTIME \<Rightarrow> (n, rtc_offset dat + clock_freq_adjust dat ival + clock_phase_adjust dat n ival)
      | CLOCK_ID_REALTIME_COARSE \<Rightarrow> (n, rtc_offset dat + clock_freq_adjust dat ival + clock_phase_adjust dat n ival)
      | _ \<Rightarrow> (VDSO_NO_NOW, 0))"

fun vdso_now_loop :: "clock_id \<Rightarrow> clock_obs list \<Rightarrow> (timestamp \<times> timestamp) option" where
  "vdso_now_loop cid [] = None"
| "vdso_now_loop cid ((dat, pv, gen') # obs) =
     (if gen' \<noteq> gen_mask (vdso_gen dat) then vdso_now_loop cid obs else Some (vdso_turn dat cid pv))"

definition vdso_now :: "vdso_dat_struct \<Rightarrow> timestamp \<Rightarrow> clock_id \<Rightarrow> timestamp option" where
  "vdso_now dat pv cid = do {
     (n, off) \<leftarrow> vdso_now_loop cid [(dat, pv, vdso_gen dat)];
     Some (if n = VDSO_NO_NOW then VDSO_NO_NOW else n + off)
   }"

section \<open>Updates of the parameters\<close>

text \<open>The parts of \<^verbatim>\<open>kernel/clock.c\<close> that change the parameters, as the sequence of stores they make.
  \<open>here\<close> is the raw clock read before the update.\<close>

definition vdso_update_gen :: "vdso_dat_struct \<Rightarrow> vdso_dat_struct" where
  "vdso_update_gen dat = dat\<lparr>vdso_gen := vdso_gen dat + 1\<rparr>"

definition fold_freq :: "timestamp \<Rightarrow> vdso_dat_struct \<Rightarrow> vdso_dat_struct" where
  "fold_freq here dat =
     dat\<lparr>rtc_offset := rtc_offset dat + signed_drop_bit CLOCK_FP_BITS ((here - last_raw dat) * base_freq dat)\<rparr>"

definition raw_update_stores :: "timestamp \<Rightarrow> (vdso_dat_struct \<Rightarrow> vdso_dat_struct) list" where
  "raw_update_stores here = [fold_freq here, \<lambda>d. d\<lparr>last_raw := here\<rparr>]"

definition set_freq_stores :: "timestamp \<Rightarrow> u64 \<Rightarrow> (vdso_dat_struct \<Rightarrow> vdso_dat_struct) list" where
  "set_freq_stores here freq = [fold_freq here, \<lambda>d. d\<lparr>base_freq := freq\<rparr>, \<lambda>d. d\<lparr>last_raw := here\<rparr>]"

definition set_slew_stores :: "u64 \<Rightarrow> timestamp \<Rightarrow> u64 \<Rightarrow> (vdso_dat_struct \<Rightarrow> vdso_dat_struct) list" where
  "set_slew_stores freq start duration =
     [\<lambda>d. d\<lparr>slew_freq := freq\<rparr>, \<lambda>d. d\<lparr>slew_start := start\<rparr>, \<lambda>d. d\<lparr>slew_end := start + duration\<rparr>]"

definition step_rtc_stores :: "u64 \<Rightarrow> (vdso_dat_struct \<Rightarrow> vdso_dat_struct) list" where
  "step_rtc_stores step = [\<lambda>d. d\<lparr>rtc_offset := rtc_offset d + step\<rparr>]"

text \<open>A guarded update: its stores between two increments of the generation.\<close>

definition vdso_update :: "(vdso_dat_struct \<Rightarrow> vdso_dat_struct) list \<Rightarrow> vdso_dat_struct \<Rightarrow> vdso_dat_struct" where
  "vdso_update stores dat = vdso_update_gen (fold (\<lambda>f. f) stores (vdso_update_gen dat))"

definition clock_raw_update_func :: "timestamp \<Rightarrow> vdso_dat_struct \<Rightarrow> vdso_dat_struct" where
  "clock_raw_update_func t dat = (if base_freq dat \<noteq> 0 then vdso_update (raw_update_stores t) dat else dat)"

section \<open>Quiescent readers\<close>

lemma gen_mask_even: "gen_mask g = g \<longleftrightarrow> even g"
proof
  assume "gen_mask g = g"
  moreover have "even (gen_mask g)" by (simp add: gen_mask_def even_and_iff)
  ultimately show "even g" by simp
next
  assume "even g"
  moreover have "bit (- 2 :: u64) n \<longleftrightarrow> n < 64 \<and> n \<noteq> 0" for n
    using bit_not_iff [of "1 :: u64" n] by (auto simp: bit_simps bit_1_iff)
  ultimately show "gen_mask g = g"
    by (intro bit_word_eqI) (auto simp: gen_mask_def bit_and_iff bit_0 intro!: gr0I)
qed

lemmas gen_mask_id [simp] = gen_mask_even [THEN iffD2]

lemma now_quiescent: "even (vdso_gen dat) \<Longrightarrow> now dat (Some t) cid = now_turn dat cid t"
  by (cases "now_turn dat cid t"; cases "cid = CLOCK_ID_MONOTONIC_RAW") (simp_all add: now_def gen_mask_even now_turn_def [of _ CLOCK_ID_MONOTONIC_RAW])

lemma adjust_zero [simp]: "clock_freq_adjust dat 0 = 0" "slew_freq dat = 0 \<Longrightarrow> clock_phase_adjust dat raw i = 0"
  by (simp_all add: clock_freq_adjust_def clock_phase_adjust_def Let_def)

lemma vdso_update_even: "\<forall>f \<in> set stores. \<forall>d. vdso_gen (f d) = vdso_gen d \<Longrightarrow>
    vdso_gen (vdso_update stores dat) = vdso_gen dat + 2"
proof -
  assume f: "\<forall>f \<in> set stores. \<forall>d. vdso_gen (f d) = vdso_gen d"
  have "vdso_gen (fold (\<lambda>f. f) stores d) = vdso_gen d" for d
    using f by (induction stores arbitrary: d) auto
  then show ?thesis by (simp add: vdso_update_def vdso_update_gen_def)
qed

section \<open>Conversions and back\<close>

definition from_timestamp :: "u64 \<Rightarrow> timestamp \<Rightarrow> u64" where
  "from_timestamp factor t = sec_from_timestamp t * factor + truncate_seconds t * factor div TIMESTAMP_SECOND"

lemma from_timestamp_defs:
  "nsec_from_timestamp = from_timestamp BILLION" "usec_from_timestamp = from_timestamp MILLION"
  "msec_from_timestamp = from_timestamp THOUSAND"
  by (auto simp: nsec_from_timestamp_def usec_from_timestamp_def msec_from_timestamp_def from_timestamp_def)

text \<open>The arithmetic: a remainder below the factor comes back from its rounded-up fraction.\<close>

lemma fraction_round:
  fixes r f :: nat
  assumes "r < f" "f < 2 ^ 32"
  shows "r * 2 ^ 32 div f + 1 < 2 ^ 32" "(r * 2 ^ 32 div f + 1) * f div 2 ^ 32 = r"
proof -
  let ?q = "r * 2 ^ 32 div f"
  have q: "?q * f \<le> r * 2 ^ 32" "r * 2 ^ 32 < (?q + 1) * f"
    using assms(1) div_times_less_eq_dividend [of "r * 2 ^ 32" f] dividend_less_div_times [of f "r * 2 ^ 32"] by auto
  have "(?q + 1) * f \<le> r * 2 ^ 32 + f" using q(1) by simp
  also have "\<dots> < (r + 1) * 2 ^ 32" using assms(2) by simp
  finally have up: "(?q + 1) * f < (r + 1) * 2 ^ 32" .
  also have "\<dots> \<le> f * 2 ^ 32" using assms(1) by (intro mult_right_mono) auto
  finally show "?q + 1 < 2 ^ 32" by (metis mult.commute mult_less_cancel2)
  have "2 ^ 32 * r \<le> (?q + 1) * f" "(?q + 1) * f < 2 ^ 32 * Suc r" using q(2) up by (simp_all add: mult.commute)
  then show "(?q + 1) * f div 2 ^ 32 = r" by (rule div_nat_eqI)
qed

lemma unat_timestamp_second: "unat TIMESTAMP_SECOND = 2 ^ 32"
  by (simp add: TIMESTAMP_SECOND_def)

lemma hi_lo_bound: "a < 2 ^ 32 \<Longrightarrow> b < 2 ^ 32 \<Longrightarrow> a * 2 ^ 32 + b < (2 :: nat) ^ 64"
  by simp

lemma unat_truncate: "unat (truncate_seconds t) = unat t mod 2 ^ 32"
proof -
  have "unat (take_bit 32 t) = take_bit 32 (unat t)" by (rule unsigned_take_bit_eq)
  then show ?thesis by (simp only: truncate_seconds_def take_bit_eq_mask [symmetric] take_bit_nat_def)
qed

lemma timestamp_round_trip:
  assumes f: "0 < unat f" "unat f < 2 ^ 32" and n: "unat n < 2 ^ 32 * unat f"
  shows "from_timestamp f (TIMESTAMP_CONV_FN f n) = n"
proof (cases "n = 0")
  case True
  then show ?thesis by (simp add: TIMESTAMP_CONV_FN_def from_timestamp_def sec_from_timestamp_def truncate_seconds_def)
next
  case False
  let ?S = "unat n div unat f" and ?R = "unat n mod unat f"
  let ?q = "?R * 2 ^ 32 div unat f"
  have S: "?S < 2 ^ 32" using n f(1) by (simp add: div_less_iff_less_mult mult.commute)
  have R: "?R < unat f" using f(1) by simp
  note fr = fraction_round [OF R f(2)]
  have n': "unat (n - n div f * f) = ?R" by (simp add: minus_div_mult_eq_mod unat_mod)
  have N: "?S * unat f + ?R = unat n" "unat n < 2 ^ 64" using unsigned_less [of n] by simp_all
  define t where "t = TIMESTAMP_CONV_FN f n"
  have s1: "unat (seconds (n div f)) = ?S * 2 ^ 32"
    unfolding seconds_def using S by (subst unat_no_wrap) (simp_all add: unat_timestamp_second unat_div)
  have s2: "unat (seconds (n - n div f * f)) = ?R * 2 ^ 32"
    unfolding seconds_def using R f(2) by (subst unat_no_wrap) (simp_all add: unat_timestamp_second n')
  have s3: "unat (seconds (n - n div f * f) div f + 1) = ?q + 1"
    using fr(1) by (subst unat_add_no_wrap) (simp_all add: unat_div s2)
  have "t = seconds (n div f) + (seconds (n - n div f * f) div f + 1)"
    using False by (simp add: t_def TIMESTAMP_CONV_FN_def Let_def add.assoc)
  moreover have "?S * 2 ^ 32 + (?q + 1) < 2 ^ 64" using S fr(1) by (rule hi_lo_bound)
  ultimately have t: "unat t = ?S * 2 ^ 32 + (?q + 1)"
    by (simp only: unat_add_no_wrap s1 s3)
  have sec: "unat (sec_from_timestamp t) = ?S"
    using fr(1) by (simp only: sec_from_timestamp_def unat_div unat_timestamp_second t) simp
  have tr: "unat (truncate_seconds t) = ?q + 1"
    using fr(1) by (simp only: unat_truncate t) simp
  have m1: "unat (sec_from_timestamp t * f) = ?S * unat f"
    using sec N(1) le_add1 N(2) unat_no_wrap by (metis le_less_trans)
  have "(?q + 1) * unat f < 2 ^ 32 * 2 ^ 32" using fr(1) f by (intro mult_strict_mono) auto
  then have m2: "unat (truncate_seconds t * f) = (?q + 1) * unat f"
    using tr unat_no_wrap [of "truncate_seconds t" f] by simp
  have m3: "unat (truncate_seconds t * f div TIMESTAMP_SECOND) = ?R"
    by (simp only: unat_div m2 unat_timestamp_second fr(2))
  have "unat (from_timestamp f t) = ?S * unat f + ?R"
    unfolding from_timestamp_def using N m1 m3 by (metis unat_add_no_wrap)
  then have "unat (from_timestamp f t) = unat n" by simp
  then show ?thesis unfolding t_def by (rule unsigned_word_eqI)
qed

section \<open>A reader against a writer\<close>

text \<open>
  The writer runs guarded updates one after the other, one store at a time: \<open>Bump\<close> is an increment
  of the generation, \<open>Put f\<close> a store to another field. The reader runs turns of \<^verbatim>\<open>now\<close>: it
  loads the generation, then one field at a time in the order of the code, takes whatever the platform
  clock answers, computes, and loads the generation again. The state also records the
  parameters as they were whenever no update was in progress (\<open>sq_pubs\<close>).
\<close>

datatype store = Bump | Put "vdso_dat_struct \<Rightarrow> vdso_dat_struct"

type_synonym load = "vdso_dat_struct \<Rightarrow> vdso_dat_struct \<Rightarrow> vdso_dat_struct"

definition now_loads :: "load list" where
  "now_loads =
     [\<lambda>d s. s\<lparr>last_raw := last_raw d\<rparr>, \<lambda>d s. s\<lparr>base_freq := base_freq d\<rparr>,
      \<lambda>d s. s\<lparr>slew_start := slew_start d\<rparr>, \<lambda>d s. s\<lparr>slew_end := slew_end d\<rparr>,
      \<lambda>d s. s\<lparr>slew_freq := slew_freq d\<rparr>, \<lambda>d s. s\<lparr>rtc_offset := rtc_offset d\<rparr>]"

datatype reader =
    Start
  | Loading u64 vdso_dat_struct "load list"
  | Returned timestamp timestamp

record seqlock =
  sq_dat :: vdso_dat_struct
  sq_writer :: "store list"
  sq_reader :: reader
  sq_pubs :: "vdso_dat_struct list"

text \<open>The registers before the first load hold no particular values.\<close>

inductive seq_step :: "clock_id \<Rightarrow> seqlock \<Rightarrow> seqlock \<Rightarrow> bool" for cid where
  bump: "sq_writer s = Bump # w \<Longrightarrow>
    seq_step cid s (s\<lparr>sq_dat := vdso_update_gen (sq_dat s), sq_writer := w,
      sq_pubs := (if odd (vdso_gen (sq_dat s)) then [vdso_update_gen (sq_dat s)] else []) @ sq_pubs s\<rparr>)"
| put: "sq_writer s = Put f # w \<Longrightarrow> seq_step cid s (s\<lparr>sq_dat := f (sq_dat s), sq_writer := w\<rparr>)"
| load_gen: "sq_reader s = Start \<Longrightarrow>
    seq_step cid s (s\<lparr>sq_reader := Loading (gen_mask (vdso_gen (sq_dat s))) junk now_loads\<rparr>)"
| load_field: "sq_reader s = Loading g snap (l # ls) \<Longrightarrow>
    seq_step cid s (s\<lparr>sq_reader := Loading g (l (sq_dat s) snap) ls\<rparr>)"
| finish: "sq_reader s = Loading g snap [] \<Longrightarrow> vdso_gen (sq_dat s) = g \<Longrightarrow> now_turn snap cid t = Some r \<Longrightarrow>
    seq_step cid s (s\<lparr>sq_reader := Returned t r\<rparr>)"
| retry: "sq_reader s = Loading g snap [] \<Longrightarrow> vdso_gen (sq_dat s) \<noteq> g \<Longrightarrow>
    seq_step cid s (s\<lparr>sq_reader := Start\<rparr>)"

inductive_cases seq_stepE: "seq_step cid s s'"

text \<open>The program of a writer that makes the given updates.\<close>

definition writer :: "(vdso_dat_struct \<Rightarrow> vdso_dat_struct) list list \<Rightarrow> store list" where
  "writer us = concat (map (\<lambda>u. Bump # map Put u @ [Bump]) us)"

definition keeps_gen :: "(vdso_dat_struct \<Rightarrow> vdso_dat_struct) \<Rightarrow> bool" where
  "keeps_gen f \<longleftrightarrow> (\<forall>d. vdso_gen (f d) = vdso_gen d)"

text \<open>What is left of a writer's program while it runs: \<open>inside\<close> tells whether an update has begun.\<close>

fun writing :: "bool \<Rightarrow> store list \<Rightarrow> bool" where
  "writing inside [] \<longleftrightarrow> \<not> inside"
| "writing inside (Bump # w) \<longleftrightarrow> writing (\<not> inside) w"
| "writing inside (Put f # w) \<longleftrightarrow> inside \<and> keeps_gen f \<and> writing True w"

lemma writing_writer: "\<forall>u \<in> set us. \<forall>f \<in> set u. keeps_gen f \<Longrightarrow> writing False (writer us)"
proof (induction us)
  case (Cons u us)
  have "writing True (map Put u @ Bump # w)" if "writing False w" "\<forall>f \<in> set u. keeps_gen f" for w
    using that by (induction u) auto
  with Cons show ?case by (simp add: writer_def)
qed (simp add: writer_def)

text \<open>
  The invariant. As long as the generation the reader started from is still current, everything it has
  loaded comes from one state \<open>S\<close> in which no update was in progress.
\<close>

definition reader_inv :: "clock_id \<Rightarrow> seqlock \<Rightarrow> bool" where
  "reader_inv cid s \<longleftrightarrow>
     (case sq_reader s of
        Start \<Rightarrow> True
      | Loading g snap ls \<Rightarrow> even g \<and> unat g \<le> unat (vdso_gen (sq_dat s)) \<and>
          (vdso_gen (sq_dat s) = g \<longrightarrow>
             (\<exists>junk pre. now_loads = pre @ ls \<and> snap = fold (\<lambda>l. l (sq_dat s)) pre junk))
      | Returned t r \<Rightarrow> \<exists>S \<in> set (sq_pubs s). now_turn S cid t = Some r)"

definition writer_inv :: "seqlock \<Rightarrow> bool" where
  "writer_inv s \<longleftrightarrow>
     writing (odd (vdso_gen (sq_dat s))) (sq_writer s) \<and>
     unat (vdso_gen (sq_dat s)) + length (sq_writer s) < 2 ^ 64 \<and>
     (even (vdso_gen (sq_dat s)) \<longrightarrow> sq_dat s \<in> set (sq_pubs s)) \<and>
     (\<forall>S \<in> set (sq_pubs s). even (vdso_gen S))"

lemma now_loads_complete: "now_turn (fold (\<lambda>l. l S) now_loads junk) cid t = now_turn S cid t"
  by (simp add: now_loads_def now_turn_def clock_freq_adjust_def clock_phase_adjust_def Let_def)

lemma unat_inc: "unat g + 1 < 2 ^ 64 \<Longrightarrow> unat (g + 1 :: u64) = unat g + 1"
  using unat_add_no_wrap [of g 1] by simp

lemma gen_mask_le: "unat (gen_mask g) \<le> unat g" "even (gen_mask g)"
  by (simp_all add: gen_mask_def even_and_iff word_and_le2 flip: word_le_nat_alt)

lemma writer_inv_step: "seq_step cid s s' \<Longrightarrow> writer_inv s \<Longrightarrow> writer_inv s'"
  by (erule seq_stepE) (auto simp: writer_inv_def vdso_update_gen_def unat_inc keeps_gen_def)

lemma reader_inv_step: "seq_step cid s s' \<Longrightarrow> writer_inv s \<Longrightarrow> reader_inv cid s \<Longrightarrow> reader_inv cid s'"
proof (erule seq_stepE, goal_cases)
  case (1 w)
  then have "unat (vdso_gen (sq_dat s) + 1) = unat (vdso_gen (sq_dat s)) + 1"
    by (intro unat_inc) (auto simp: writer_inv_def)
  with 1 show ?case by (auto simp: reader_inv_def vdso_update_gen_def split: reader.splits)
next
  case (2 f w)
  then have "odd (vdso_gen (sq_dat s))" "vdso_gen (f (sq_dat s)) = vdso_gen (sq_dat s)"
    by (auto simp: writer_inv_def keeps_gen_def)
  with 2 show ?case by (auto simp: reader_inv_def split: reader.splits)
next
  case (4 g snap l ls)
  have "\<exists>junk pre. now_loads = pre @ ls \<and> l (sq_dat s) snap = fold (\<lambda>l. l (sq_dat s)) pre junk"
    if loaded: "now_loads = pre @ l # ls" "snap = fold (\<lambda>l. l (sq_dat s)) pre junk" for pre junk
    by (rule exI [of _ junk], rule exI [of _ "pre @ [l]"]) (simp add: loaded)
  with 4 show ?case by (auto simp: reader_inv_def)
next
  case (5 snap t r)
  then have "sq_dat s \<in> set (sq_pubs s)" "now_turn (sq_dat s) cid t = Some r"
    by (auto simp: reader_inv_def writer_inv_def now_loads_complete)
  with 5 show ?case by (auto simp: reader_inv_def)
qed (auto simp: reader_inv_def gen_mask_le)

inductive seq_run :: "clock_id \<Rightarrow> seqlock \<Rightarrow> seqlock \<Rightarrow> bool" for cid where
  none: "seq_run cid s s"
| more: "seq_run cid s s' \<Longrightarrow> seq_step cid s' s'' \<Longrightarrow> seq_run cid s s''"

lemma seq_run_inv: "seq_run cid s s' \<Longrightarrow> writer_inv s \<Longrightarrow> reader_inv cid s \<Longrightarrow> writer_inv s' \<and> reader_inv cid s'"
  by (induction rule: seq_run.induct) (auto dest: writer_inv_step reader_inv_step)

definition seq_init :: "vdso_dat_struct \<Rightarrow> (vdso_dat_struct \<Rightarrow> vdso_dat_struct) list list \<Rightarrow> seqlock" where
  "seq_init dat us = \<lparr>sq_dat = dat, sq_writer = writer us, sq_reader = Start, sq_pubs = [dat]\<rparr>"

text \<open>The updates the kernel makes under the generation counter.\<close>

definition clock_updates :: "(vdso_dat_struct \<Rightarrow> vdso_dat_struct) list \<Rightarrow> bool" where
  "clock_updates u \<longleftrightarrow>
     (\<exists>here. u = raw_update_stores here) \<or> (\<exists>here freq. u = set_freq_stores here freq) \<or>
     (\<exists>freq start d. u = set_slew_stores freq start d) \<or> (\<exists>step. u = step_rtc_stores step)"

lemma clock_updates_keep_gen: "clock_updates u \<Longrightarrow> f \<in> set u \<Longrightarrow> keeps_gen f"
  by (auto simp: clock_updates_def raw_update_stores_def set_freq_stores_def set_slew_stores_def
      step_rtc_stores_def keeps_gen_def fold_freq_def)

section \<open>Properties\<close>

text \<open>C12: Readers of the clock parameters never see a half-made update. In every interleaving of a reader
  with a writer that makes any sequence of the kernel's guarded updates, starting with no update in
  progress and without exhausting the 64-bit generation counter, a value that \<^verbatim>\<open>now\<close> returns is the
  value for one state of the parameters in which no update was in progress.\<close>

theorem now_reads_consistent:
  assumes "even (vdso_gen dat)" "\<forall>u \<in> set us. clock_updates u"
    "unat (vdso_gen dat) + length (writer us) < 2 ^ 64"
    "seq_run cid (seq_init dat us) s" "sq_reader s = Returned t r"
  shows "\<exists>S \<in> set (sq_pubs s). even (vdso_gen S) \<and> now_turn S cid t = Some r"
proof -
  have "writing False (writer us)"
    using assms(2) clock_updates_keep_gen by (blast intro: writing_writer)
  then have "writer_inv (seq_init dat us)" using assms(1,3) by (simp add: writer_inv_def seq_init_def)
  moreover have "reader_inv cid (seq_init dat us)" by (simp add: reader_inv_def seq_init_def)
  ultimately have "writer_inv s" "reader_inv cid s" using seq_run_inv [OF assms(4)] by blast+
  with assms(5) show ?thesis by (auto simp: reader_inv_def writer_inv_def)
qed

text \<open>A clock in use: one update has been made, the frequency is corrected by one part in 256, the
  platform clock stood at second 10 then.\<close>

definition steered :: vdso_dat_struct where
  "steered =
     \<lparr>clock_src = VDSO_CLOCK_PVCLOCK, status = 0, rtc_offset = 0x500000000, pvclock_offset = 0, vdso_gen = 2,
      last_raw = 0xA00000000, base_freq = 0x1000000, slew_freq = 0, slew_start = 0, slew_end = 0\<rparr>"

theorem now_reads_consistent_witness:
  "\<exists>s. seq_run CLOCK_ID_MONOTONIC (seq_init steered [raw_update_stores 0xB00000000]) s \<and>
     sq_reader s = Returned 0xB00000000 0xB01000000 \<and>
     (\<exists>S \<in> set (sq_pubs s). even (vdso_gen S) \<and> now_turn S CLOCK_ID_MONOTONIC 0xB00000000 = Some 0xB01000000)"
proof -
  let ?s = "seq_init steered [raw_update_stores 0xB00000000]"
  let ?l = "\<lambda>n. ?s\<lparr>sq_reader := Loading 2 (fold (\<lambda>l. l steered) (take n now_loads) steered) (drop n now_loads)\<rparr>"
  let ?f = "?s\<lparr>sq_reader := Returned 0xB00000000 0xB01000000\<rparr>"
  have "gen_mask 2 = 2" by (simp add: gen_mask_even)
  then have "seq_step CLOCK_ID_MONOTONIC ?s (?l 0)"
    using seq_step.load_gen [of ?s CLOCK_ID_MONOTONIC steered] by (simp add: seq_init_def steered_def)
  then have r0: "seq_run CLOCK_ID_MONOTONIC ?s (?l 0)" using seq_run.intros by blast
  have step: "seq_step CLOCK_ID_MONOTONIC (?l n) (?l (Suc n))" if "n < 6" for n
  proof -
    have n: "n < length now_loads" using that by (simp add: now_loads_def)
    then have "sq_reader (?l n) = Loading 2 (fold (\<lambda>l. l steered) (take n now_loads) steered) (now_loads ! n # drop (Suc n) now_loads)"
      by (simp add: Cons_nth_drop_Suc)
    from seq_step.load_field [OF this] n show ?thesis
      by (simp add: seq_init_def take_Suc_conv_app_nth)
  qed
  have "seq_run CLOCK_ID_MONOTONIC ?s (?l n)" if "n \<le> 6" for n
    using that by (induction n) (use r0 step seq_run.more in \<open>auto simp del: drop_0 take_0\<close>)
  then have r6: "seq_run CLOCK_ID_MONOTONIC ?s (?l 6)" by simp
  have turn: "now_turn steered CLOCK_ID_MONOTONIC 0xB00000000 = Some 0xB01000000"
    by (simp add: now_turn_def steered_def clock_freq_adjust_def CLOCK_FP_BITS_def) 
  have "length now_loads = 6" by (simp add: now_loads_def)
  then have "sq_reader (?l 6) = Loading 2 (fold (\<lambda>l. l steered) now_loads steered) []" by simp
  from seq_step.finish [OF this, where cid = CLOCK_ID_MONOTONIC and t = "0xB00000000" and r = "0xB01000000"] turn
  have "seq_step CLOCK_ID_MONOTONIC (?l 6) ?f" by (simp add: now_loads_complete seq_init_def steered_def)
  with r6 have run: "seq_run CLOCK_ID_MONOTONIC ?s ?f" by (rule seq_run.more)
  moreover have "clock_updates (raw_update_stores 0xB00000000)" by (auto simp: clock_updates_def)
  ultimately show ?thesis
    using now_reads_consistent [of steered "[raw_update_stores 0xB00000000]" CLOCK_ID_MONOTONIC ?f "0xB00000000" "0xB01000000"]
    by (intro exI [of _ ?f]) (simp add: steered_def writer_def raw_update_stores_def)
qed

text \<open>C30: Converting a count of nanoseconds, microseconds or milliseconds to a timestamp and back gives the
  same count, for every count below \<open>2 ^ 32\<close> seconds, in spite of the 32-bit fraction.\<close>

theorem timestamp_conversions_round_trip:
  "(unat n < 2 ^ 32 * 1000000000 \<longrightarrow> nsec_from_timestamp (nanoseconds n) = n) \<and>
   (unat n < 2 ^ 32 * 1000000 \<longrightarrow> usec_from_timestamp (microseconds n) = n) \<and>
   (unat n < 2 ^ 32 * 1000 \<longrightarrow> msec_from_timestamp (milliseconds n) = n)"
  using timestamp_round_trip [of BILLION n] timestamp_round_trip [of MILLION n] timestamp_round_trip [of THOUSAND n]
  unfolding from_timestamp_defs nanoseconds_def microseconds_def milliseconds_def
  by (simp add: BILLION_def MILLION_def THOUSAND_def)

theorem timestamp_conversions_witness:
  "nsec_from_timestamp (nanoseconds 1234567890123) = 1234567890123 \<and>
   usec_from_timestamp (microseconds 1234567890123) = 1234567890123 \<and>
   msec_from_timestamp (milliseconds 1234567890123) = 1234567890123"
  using timestamp_conversions_round_trip [of 1234567890123] by simp





text \<open>C34: The same updates do move the monotonic clock: the correction gathered since \<^verbatim>\<open>last_raw\<close> is folded
  into the real-time offset only, so \<^verbatim>\<open>CLOCK_ID_MONOTONIC\<close> falls back to the raw clock and, with a
  positive correction, runs backwards across \<^verbatim>\<open>clock_raw_update_func\<close>.\<close>

theorem clock_raw_update_monotonic_regress:
  "\<exists>dat t1 t2 r1 r2. even (vdso_gen dat) \<and> t1 < t2 \<and>
     now dat (Some t1) CLOCK_ID_MONOTONIC = Some r1 \<and>
     now (clock_raw_update_func t2 dat) (Some t2) CLOCK_ID_MONOTONIC = Some r2 \<and> r2 < r1"
proof -
  have "even (vdso_gen steered)" "(0xB00000000 :: timestamp) < 0xB00000001"
    "now steered (Some 0xB00000000) CLOCK_ID_MONOTONIC = Some 0xB01000000"
    "now (clock_raw_update_func 0xB00000001 steered) (Some 0xB00000001) CLOCK_ID_MONOTONIC = Some 0xB00000001"
    "(0xB00000001 :: timestamp) < 0xB01000000"
    by (simp_all add: now_def gen_mask_def now_turn_def steered_def clock_freq_adjust_def CLOCK_FP_BITS_def
        clock_raw_update_func_def vdso_update_def vdso_update_gen_def raw_update_stores_def fold_freq_def)
  then show ?thesis by blast
qed

end
