(* ===== verification/Timer.thy ===== *)
theory Timer
  imports Pqueue Clock
begin

text \<open>
  Timers: \<^verbatim>\<open>kernel/src/runtime/timer.h\<close>, \<^verbatim>\<open>kernel/src/runtime/timer.c\<close> and the operations of
  \<^verbatim>\<open>kernel/src/kernel/clock.c\<close> that reorder or adjust the kernel's timers.

  Timers live in a store indexed by their addresses; a timer queue keeps its armed timers in a priority
  queue ordered by expiry. A handler is code of the timer's owner: the operations take the effect of handlers
  as a parameter \<open>run\<close>, and every invocation is also recorded in \<open>ts_log\<close> (timer, expiry, overruns).
  Clock readings come from \<open>clock_env\<close>. Comparisons read the clock parameters while no update of them
  is in progress, which is when the loop of \<^verbatim>\<open>timer_expiry\<close> runs once.
\<close>

record timer =
  t_id :: clock_id
  t_expiry :: timestamp
  t_interval :: timestamp
  t_absolute :: bool
  t_active :: bool
  t_queued :: bool
  t_handler :: ptr

text \<open>A timer queue; \<open>tq_simple\<close> tells whether it has a \<^verbatim>\<open>now\<close> of its own, which decides how
  expiries are compared.\<close>

record timerqueue =
  tq_pq :: vector
  tq_next_expiry :: timestamp
  tq_simple :: bool
  tq_update :: bool

record tstate =
  ts_timers :: "ptr \<Rightarrow> timer"
  ts_queue :: timerqueue
  ts_log :: "(ptr \<times> u64 \<times> u64) list"

record clock_env =
  ce_dat :: vdso_dat_struct
  ce_platform :: "timestamp option"
  ce_queue_now :: timestamp

type_synonym handlers = "ptr \<Rightarrow> u64 \<Rightarrow> u64 \<Rightarrow> tstate \<Rightarrow> tstate option"

definition timer_disabled :: u64 where
  "timer_disabled = - 1"

definition init_timer :: "timer \<Rightarrow> timer" where
  "init_timer t = t\<lparr>t_active := False, t_queued := False\<rparr>"

definition timer_is_active :: "timer \<Rightarrow> bool" where
  "timer_is_active t = t_active t"

section \<open>Expiry\<close>

text \<open>One turn of the loop of \<^verbatim>\<open>timer_expiry\<close>, from the value of \<^verbatim>\<open>expiry\<close> before it; \<open>Inl\<close> returns at
  once.\<close>

definition timer_expiry_turn :: "vdso_dat_struct \<Rightarrow> clock_id \<Rightarrow> timestamp \<Rightarrow> timestamp + timestamp" where
  "timer_expiry_turn dat cid expiry =
     (let interval = expiry - last_raw dat in
      case cid of
        CLOCK_ID_MONOTONIC_RAW \<Rightarrow> Inl expiry
      | _ \<Rightarrow>
         (let e = (if cid = CLOCK_ID_REALTIME \<or> cid = CLOCK_ID_REALTIME_COARSE
                   then (let e1 = expiry - rtc_offset dat in e1 - clock_phase_adjust dat e1 interval)
                   else expiry)
          in Inr (e - clock_freq_adjust dat interval)))"

text \<open>The loop: each element is what a turn observes, as for \<^verbatim>\<open>now\<close>. The variable \<^verbatim>\<open>expiry\<close> is not
  reloaded from the timer, so a turn continues from what the turn before left.\<close>

fun timer_expiry_loop :: "clock_id \<Rightarrow> timestamp \<Rightarrow> (vdso_dat_struct \<times> u64) list \<Rightarrow> timestamp option" where
  "timer_expiry_loop cid expiry [] = None"
| "timer_expiry_loop cid expiry ((dat, gen') # obs) =
     (case timer_expiry_turn dat cid expiry of
        Inl e \<Rightarrow> Some e
      | Inr e \<Rightarrow> if gen_mask (vdso_gen dat) \<noteq> gen' then timer_expiry_loop cid e obs else Some e)"

definition timer_expiry :: "vdso_dat_struct \<Rightarrow> timer \<Rightarrow> timestamp" where
  "timer_expiry dat t = (case timer_expiry_turn dat (t_id t) (t_expiry t) of Inl e \<Rightarrow> e | Inr e \<Rightarrow> e)"

definition timerqueue_now :: "clock_env \<Rightarrow> timerqueue \<Rightarrow> timer \<Rightarrow> timestamp option" where
  "timerqueue_now env q t =
     (if tq_simple q then Some (ce_queue_now env) else now (ce_dat env) (ce_platform env) (t_id t))"

definition timerqueue_expiry :: "vdso_dat_struct \<Rightarrow> timerqueue \<Rightarrow> timer \<Rightarrow> timestamp" where
  "timerqueue_expiry dat q t = (if tq_simple q then t_expiry t else timer_expiry dat t)"

definition timer_get_remaining :: "clock_env \<Rightarrow> timerqueue \<Rightarrow> timer \<Rightarrow> (timestamp \<times> timestamp) option" where
  "timer_get_remaining env q t = do {
     tnow \<leftarrow> timerqueue_now env q t;
     Some (if t_expiry t > tnow then t_expiry t - tnow else 0, t_interval t)
   }"

definition timer_compare :: "vdso_dat_struct \<Rightarrow> (ptr \<Rightarrow> timer) \<Rightarrow> sorter" where
  "timer_compare dat ts za zb = (timer_expiry dat (ts za) > timer_expiry dat (ts zb))"

definition timer_compare_simple :: "(ptr \<Rightarrow> timer) \<Rightarrow> sorter" where
  "timer_compare_simple ts za zb = (t_expiry (ts za) > t_expiry (ts zb))"

text \<open>The comparison a queue was created with (\<^verbatim>\<open>allocate_timerqueue\<close>).\<close>

definition tq_sort :: "vdso_dat_struct \<Rightarrow> tstate \<Rightarrow> sorter" where
  "tq_sort dat s = (if tq_simple (ts_queue s) then timer_compare_simple (ts_timers s) else timer_compare dat (ts_timers s))"

definition allocate_timerqueue :: "ptr heap \<Rightarrow> bool \<Rightarrow> timerqueue option" where
  "allocate_timerqueue h simple = do {
     pq \<leftarrow> allocate_pqueue h;
     Some \<lparr>tq_pq = pq, tq_next_expiry = 0, tq_simple = simple, tq_update = False\<rparr>
   }"

section \<open>Operations\<close>

definition refresh_timer_update_locked :: "vdso_dat_struct \<Rightarrow> tstate \<Rightarrow> ptr \<Rightarrow> tstate" where
  "refresh_timer_update_locked dat s next =
     (if next = INVALID_ADDRESS then s
      else s\<lparr>ts_queue := (ts_queue s)\<lparr>tq_next_expiry := timerqueue_expiry dat (ts_queue s) (ts_timers s next),
                                       tq_update := True\<rparr>\<rparr>)"

definition set_timer :: "tstate \<Rightarrow> ptr \<Rightarrow> timer \<Rightarrow> tstate" where
  "set_timer s p t = s\<lparr>ts_timers := (ts_timers s)(p := t)\<rparr>"

definition set_pq :: "tstate \<Rightarrow> vector \<Rightarrow> tstate" where
  "set_pq s pq = s\<lparr>ts_queue := (ts_queue s)\<lparr>tq_pq := pq\<rparr>\<rparr>"

definition register_timer ::
    "ptr heap \<Rightarrow> clock_env \<Rightarrow> tstate \<Rightarrow> ptr \<Rightarrow> clock_id \<Rightarrow> timestamp \<Rightarrow> bool \<Rightarrow> timestamp \<Rightarrow> ptr \<Rightarrow> tstate option" where
  "register_timer h env s p cid val absolute interval n = do {
     let t = (ts_timers s p)\<lparr>t_id := cid\<rparr>;
     expiry \<leftarrow> (if absolute then Some val else map_option (\<lambda>x. x + val) (timerqueue_now env (ts_queue s) t));
     if t_queued t then None
     else do {
       let s1 = set_timer s p (t\<lparr>t_expiry := expiry, t_interval := interval, t_absolute := absolute,
                                 t_active := True, t_queued := True, t_handler := n\<rparr>);
       pq \<leftarrow> pqueue_insert h (tq_sort (ce_dat env) s1) (tq_pq (ts_queue s1)) p;
       Some (refresh_timer_update_locked (ce_dat env) (set_pq s1 pq) (pqueue_peek pq))
     }
   }"

text \<open>An invocation of a timer's handler.\<close>

definition apply_handler :: "handlers \<Rightarrow> ptr \<Rightarrow> u64 \<Rightarrow> u64 \<Rightarrow> tstate \<Rightarrow> tstate option" where
  "apply_handler run p expiry overruns s =
     run (t_handler (ts_timers s p)) expiry overruns (s\<lparr>ts_log := ts_log s @ [(p, expiry, overruns)]\<rparr>)"

text \<open>\<^verbatim>\<open>remove_timer\<close>: the state, whether the timer was removed, and the time that remained if the caller wants it (\<^verbatim>\<open>remain\<close> not null).\<close>

definition remove_timer ::
    "ptr heap \<Rightarrow> clock_env \<Rightarrow> handlers \<Rightarrow> bool \<Rightarrow> tstate \<Rightarrow> ptr \<Rightarrow> (tstate \<times> bool \<times> timestamp option) option" where
  "remove_timer h env run want s p =
     (let t = ts_timers s p; x = t_expiry t in
      if \<not> t_active t then (if t_queued t then None else Some (s, False, None))
      else do {
        let s1 = set_timer s p (t\<lparr>t_active := False\<rparr>);
        s2 \<leftarrow> (if t_queued t then do {
                  let s2 = set_timer s p (t\<lparr>t_active := False, t_queued := False\<rparr>);
                  (pq, found) \<leftarrow> pqueue_remove h (tq_sort (ce_dat env) s2) (tq_pq (ts_queue s2)) p;
                  if \<not> found then None
                  else apply_handler run p 0 timer_disabled (set_pq s2 pq)
                }
                else if t_interval t = 0 then None else Some s1);
        if want then do {
          n \<leftarrow> timerqueue_now env (ts_queue s2) (ts_timers s2 p);
          Some (s2, True, Some (if x > n then x - n else 0))
        } else Some (s2, True, None)
      })"

text \<open>The number of periods by which a timer is behind, as \<^verbatim>\<open>timer_service\<close> counts them; the comparison and
  the division are unsigned.\<close>

definition timer_overruns :: "u64 \<Rightarrow> timestamp \<Rightarrow> u64" where
  "timer_overruns delta interval = (if delta > interval then delta div interval + 1 else 1)"

definition timer_due :: "vdso_dat_struct \<Rightarrow> tstate \<Rightarrow> timestamp \<Rightarrow> ptr \<Rightarrow> bool" where
  "timer_due dat s here p \<longleftrightarrow> 0 \<le> sint (here - timerqueue_expiry dat (ts_queue s) (ts_timers s p))"

text \<open>One turn of the loop of \<^verbatim>\<open>timer_service\<close> for the due timer \<open>p\<close> at the head of the queue.\<close>

definition timer_fire :: "ptr heap \<Rightarrow> vdso_dat_struct \<Rightarrow> handlers \<Rightarrow> timestamp \<Rightarrow> tstate \<Rightarrow> ptr \<Rightarrow> tstate option" where
  "timer_fire h dat run here s p = do {
     (pq, _) \<leftarrow> pqueue_pop h (tq_sort dat s) (tq_pq (ts_queue s));
     let t = ts_timers s p;
     let delta = here - timerqueue_expiry dat (ts_queue s) t;
     if \<not> (t_active t \<and> t_queued t) then None
     else do {
       let interval = (t_interval t \<noteq> 0);
       let overruns = (if interval then timer_overruns delta (t_interval t) else 1);
       let t1 = (if interval then t\<lparr>t_expiry := t_expiry t + t_interval t * overruns\<rparr> else t\<lparr>t_active := False\<rparr>);
       let t2 = t1\<lparr>t_queued := False\<rparr>;
       s2 \<leftarrow> apply_handler run p (t_expiry t2) overruns (set_pq (set_timer s p t2) pq);
       if interval then
         if t_active (ts_timers s2 p) then do {
           let s3 = set_timer s2 p ((ts_timers s2 p)\<lparr>t_queued := True\<rparr>);
           pq3 \<leftarrow> pqueue_insert h (tq_sort dat s3) (tq_pq (ts_queue s3)) p;
           Some (set_pq s3 pq3)
         }
         else apply_handler run p 0 timer_disabled s2
       else Some s2
     }
   }"

partial_function (option) timer_service_loop ::
    "ptr heap \<Rightarrow> vdso_dat_struct \<Rightarrow> handlers \<Rightarrow> timestamp \<Rightarrow> tstate \<Rightarrow> tstate option" where
  "timer_service_loop h dat run here s =
     (let p = pqueue_peek (tq_pq (ts_queue s)) in
      if p \<noteq> INVALID_ADDRESS \<and> timer_due dat s here p then
        timer_fire h dat run here s p \<bind> timer_service_loop h dat run here
      else Some (refresh_timer_update_locked dat s p))"

declare timer_service_loop.simps [code]

definition timer_service :: "ptr heap \<Rightarrow> vdso_dat_struct \<Rightarrow> handlers \<Rightarrow> tstate \<Rightarrow> timestamp \<Rightarrow> tstate option" where
  "timer_service h dat run s here = timer_service_loop h dat run here s"

definition timer_reorder :: "ptr heap \<Rightarrow> vdso_dat_struct \<Rightarrow> tstate \<Rightarrow> tstate option" where
  "timer_reorder h dat s = map_option (set_pq s) (pqueue_reorder h (tq_sort dat s) (tq_pq (ts_queue s)))"

text \<open>\<^verbatim>\<open>timer_adjust_end\<close> with the handler applied to every queued timer, then the queue put in order.\<close>

definition timer_adjust_end :: "ptr heap \<Rightarrow> vdso_dat_struct \<Rightarrow> (ptr \<Rightarrow> tstate \<Rightarrow> tstate \<times> bool) \<Rightarrow> tstate \<Rightarrow> tstate option" where
  "timer_adjust_end h dat handler s = timer_reorder h dat (fst (pqueue_walk handler (tq_pq (ts_queue s)) s))"

section \<open>Changes of the clock\<close>

text \<open>The kernel's clock state: the parameters, the kernel timers, the hardware clock as last written by
  \<^verbatim>\<open>rtc_settimeofday\<close>, and how often the timers of processes were told of a change.\<close>

record kclock =
  kc_dat :: vdso_dat_struct
  kc_timers :: tstate
  kc_rtc :: u64
  kc_notified :: nat

definition clock_set_freq :: "ptr heap \<Rightarrow> timestamp option \<Rightarrow> u64 \<Rightarrow> kclock \<Rightarrow> kclock option" where
  "clock_set_freq h platform freq k = do {
     here \<leftarrow> now (kc_dat k) platform CLOCK_ID_MONOTONIC_RAW;
     let dat = vdso_update (set_freq_stores here freq) (kc_dat k);
     ts \<leftarrow> timer_reorder h dat (kc_timers k);
     Some (k\<lparr>kc_dat := dat, kc_timers := ts\<rparr>)
   }"

definition clock_set_slew :: "ptr heap \<Rightarrow> u64 \<Rightarrow> timestamp \<Rightarrow> u64 \<Rightarrow> kclock \<Rightarrow> kclock option" where
  "clock_set_slew h freq start duration k = do {
     let dat = vdso_update (set_slew_stores freq start duration) (kc_dat k);
     ts \<leftarrow> timer_reorder h dat (kc_timers k);
     Some (k\<lparr>kc_dat := dat, kc_timers := ts\<rparr>)
   }"

definition timer_adjust_handler :: "u64 \<Rightarrow> ptr \<Rightarrow> tstate \<Rightarrow> tstate \<times> bool" where
  "timer_adjust_handler amt p s =
     (let t = ts_timers s p in
      if t_absolute t then (s, True)
      else if t_id t = CLOCK_ID_REALTIME \<or> t_id t = CLOCK_ID_REALTIME_COARSE \<or> t_id t = CLOCK_ID_REALTIME_ALARM
           then (set_timer s p (t\<lparr>t_expiry := t_expiry t + amt\<rparr>), True)
           else (s, True))"

definition clock_step_rtc :: "ptr heap \<Rightarrow> timestamp option \<Rightarrow> u64 \<Rightarrow> kclock \<Rightarrow> kclock option" where
  "clock_step_rtc h platform step k = do {
     let dat = vdso_update (step_rtc_stores step) (kc_dat k);
     ts \<leftarrow> timer_adjust_end h dat (timer_adjust_handler step) (kc_timers k);
     n \<leftarrow> now dat platform CLOCK_ID_REALTIME;
     Some (k\<lparr>kc_dat := dat, kc_timers := ts, kc_rtc := sec_from_timestamp n, kc_notified := kc_notified k + 1\<rparr>)
   }"

definition clock_reset_rtc :: "ptr heap \<Rightarrow> timestamp option \<Rightarrow> timestamp \<Rightarrow> kclock \<Rightarrow> kclock option" where
  "clock_reset_rtc h platform wallclock_now k = do {
     n \<leftarrow> now (kc_dat k) platform CLOCK_ID_REALTIME;
     raw \<leftarrow> now (kc_dat k) platform CLOCK_ID_MONOTONIC_RAW;
     let dat = reset_clock_vdso_dat ((kc_dat k)\<lparr>rtc_offset := wallclock_now - raw\<rparr>);
     ts \<leftarrow> timer_adjust_end h dat (timer_adjust_handler (wallclock_now - n)) (kc_timers k);
     Some (k\<lparr>kc_dat := dat, kc_timers := ts, kc_rtc := sec_from_timestamp wallclock_now,
             kc_notified := kc_notified k + 1\<rparr>)
   }"

definition rtime :: "vdso_dat_struct \<Rightarrow> timestamp option \<Rightarrow> u64 option" where
  "rtime dat platform = map_option sec_from_timestamp (now dat platform CLOCK_ID_REALTIME)"

section \<open>The queue invariant\<close>

definition tkey :: "vdso_dat_struct \<Rightarrow> tstate \<Rightarrow> ptr \<Rightarrow> timestamp" where
  "tkey dat s p = timerqueue_expiry dat (ts_queue s) (ts_timers s p)"

text \<open>Both comparisons of timer queues order by the expiry the queue uses: the contract of the priority
  queue.\<close>

interpretation tqs: pqueue_sort "tq_sort dat s" "tkey dat s" for dat s
  by unfold_locales
     (simp add: tq_sort_def tkey_def timerqueue_expiry_def timer_compare_def timer_compare_simple_def)

lemma set_simps [simp]:
  "ts_queue (set_timer s p t) = ts_queue s" "ts_timers (set_timer s p t) = (ts_timers s)(p := t)"
  "ts_log (set_timer s p t) = ts_log s" "ts_log (set_pq s pq) = ts_log s"
  "tq_pq (ts_queue (set_pq s pq)) = pq" "ts_timers (set_pq s pq) = ts_timers s"
  "tq_simple (ts_queue (set_pq s pq)) = tq_simple (ts_queue s)"
  by (simp_all add: set_timer_def set_pq_def)

lemma refresh_simps [simp]:
  "tq_pq (ts_queue (refresh_timer_update_locked dat s p)) = tq_pq (ts_queue s)"
  "ts_timers (refresh_timer_update_locked dat s p) = ts_timers s"
  "tq_simple (ts_queue (refresh_timer_update_locked dat s p)) = tq_simple (ts_queue s)"
  "ts_log (refresh_timer_update_locked dat s p) = ts_log s"
  by (simp_all add: refresh_timer_update_locked_def)

text \<open>The heap order depends only on the expiries of the queued timers.\<close>

lemma tq_heap_cong:
  assumes "\<And>p. p \<in> set L \<Longrightarrow> tkey dat s p = tkey dat s' p"
  shows "tqs.heap dat s L \<longleftrightarrow> tqs.heap dat s' L"
proof -
  have "tkey dat s (el L c) = tkey dat s' (el L c)" if "1 \<le> c" "c \<le> length L" for c
    using that assms by (auto simp: el_def)
  moreover have "1 \<le> c div 2" "c div 2 \<le> length L" if "2 \<le> c" "c \<le> length L" for c
    using that by auto
  ultimately show ?thesis
    unfolding tqs.heap_def tqs.heap_from_def tqs.ordered_at_def by auto
qed

lemma tq_heap_change:
  assumes "tqs.heap dat s L" "\<forall>p \<in> set L. tkey dat s' p = tkey dat s p"
  shows "tqs.heap dat s' L"
  using assms tq_heap_cong [of L dat s' s] by blast

definition tq_inv :: "vdso_dat_struct \<Rightarrow> tstate \<Rightarrow> bool" where
  "tq_inv dat s \<longleftrightarrow>
     vector_wf (tq_pq (ts_queue s)) \<and> tqs.heap dat s (blist (tq_pq (ts_queue s))) \<and>
     distinct (blist (tq_pq (ts_queue s))) \<and> 0 \<notin> set (blist (tq_pq (ts_queue s))) \<and>
     INVALID_ADDRESS \<notin> set (blist (tq_pq (ts_queue s))) \<and>
     (\<forall>p. p \<in> set (blist (tq_pq (ts_queue s))) \<longleftrightarrow> t_queued (ts_timers s p)) \<and>
     (\<forall>p. t_queued (ts_timers s p) \<longrightarrow> t_active (ts_timers s p)) \<and>
     (\<forall>p. t_active (ts_timers s p) \<and> \<not> t_queued (ts_timers s p) \<longrightarrow> t_interval (ts_timers s p) \<noteq> 0)"

lemma tq_inv_queued: "tq_inv dat s \<Longrightarrow> p \<in> set (blist (tq_pq (ts_queue s))) \<longleftrightarrow> t_queued (ts_timers s p)"
  by (simp add: tq_inv_def)

lemma tq_inv_refresh [simp]: "tq_inv dat (refresh_timer_update_locked dat' s p) \<longleftrightarrow> tq_inv dat s"
  using tq_heap_cong [of "blist (tq_pq (ts_queue s))" dat "refresh_timer_update_locked dat' s p" s]
  by (auto simp: tq_inv_def tkey_def timerqueue_expiry_def)

lemma tq_inv_log [simp]: "tq_inv dat (s\<lparr>ts_log := l\<rparr>) \<longleftrightarrow> tq_inv dat s"
  using tq_heap_cong [of "blist (tq_pq (ts_queue s))" dat "s\<lparr>ts_log := l\<rparr>" s]
  by (auto simp: tq_inv_def tkey_def)

lemma tkey_set [simp]:
  "tkey dat (set_pq s pq) p = tkey dat s p"
  "tkey dat (set_timer s q t) p = (if p = q then timerqueue_expiry dat (ts_queue s) t else tkey dat s p)"
  by (simp_all add: tkey_def timerqueue_expiry_def)

text \<open>Putting a timer into the queue.\<close>

lemma enqueue_spec:
  assumes inv: "tq_inv dat s" and h: "heap_ok h" "heap_grants h"
    and p: "\<not> t_queued (ts_timers s p)" "p \<noteq> 0" "p \<noteq> INVALID_ADDRESS" "t_queued t" "t_active t"
  shows "ensures (pqueue_insert h (tq_sort dat (set_timer s p t)) (tq_pq (ts_queue s)) p) (\<lambda>pq.
           tq_inv dat (set_pq (set_timer s p t) pq))"
proof -
  let ?L = "blist (tq_pq (ts_queue s))" and ?s = "set_timer s p t"
  have L: "vector_wf (tq_pq (ts_queue s))" "tqs.heap dat s ?L" "distinct ?L" "p \<notin> set ?L"
    using inv p(1) by (auto simp: tq_inv_def)
  have "\<forall>q \<in> set ?L. tkey dat ?s q = tkey dat s q" using L(4) by auto
  with L(2) have "tqs.heap dat ?s ?L" by (rule tq_heap_change)
  from tqs.pqueue_insert_granted [OF L(1) this h]
  obtain pq where pq: "pqueue_insert h (tq_sort dat ?s) (tq_pq (ts_queue s)) p = Some pq" "vector_wf pq"
      "tqs.heap dat ?s (blist pq)" "mset (blist pq) = add_mset p (mset ?L)"
    by (auto elim!: ensuresE)
  have "tqs.heap dat (set_pq ?s pq) (blist pq)" by (rule tq_heap_change [OF pq(3)]) simp
  moreover have "distinct (blist pq)"
    using L(3,4) pq(4) by (metis distinct.simps(2) mset.simps(2) mset_eq_imp_distinct_iff)
  moreover have "set (blist pq) = insert p (set ?L)"
    using pq(4) by (metis mset.simps(2) mset_eq_setD list.simps(15))
  ultimately have "tq_inv dat (set_pq ?s pq)" using inv pq(2) p by (auto simp: tq_inv_def)
  with pq(1) show ?thesis by simp
qed

text \<open>Taking a timer out of the queue: what is left is the invariant once the timer is marked.\<close>

lemma dequeued_inv:
  assumes inv: "tq_inv dat s" and pq: "vector_wf pq" "tqs.heap dat s (blist pq)"
      "mset (blist pq) = mset (blist (tq_pq (ts_queue s))) - {#p#}"
    and t: "\<not> t_queued t" "t_active t \<Longrightarrow> t_interval t \<noteq> 0"
  shows "tq_inv dat (set_pq (set_timer s p t) pq)"
proof -
  let ?L = "blist (tq_pq (ts_queue s))" and ?s = "set_pq (set_timer s p t) pq"
  have "distinct ?L" using inv by (simp add: tq_inv_def)
  then have "mset (blist pq) = mset (remove1 p ?L)" using pq(3) by simp
  then have "distinct (blist pq)" "set (blist pq) = set ?L - {p}"
    using \<open>distinct ?L\<close> by (metis mset_eq_imp_distinct_iff distinct_remove1, metis mset_eq_setD set_remove1_eq)
  moreover from this have "tqs.heap dat ?s (blist pq)"
    by (intro tq_heap_change [OF pq(2)]) auto
  ultimately show ?thesis using inv pq(1) t by (auto simp: tq_inv_def)
qed

lemma timer_all_fields [simp]:
  "t\<lparr>t_id := a, t_expiry := b, t_interval := c, t_absolute := d, t_active := e, t_queued := f, t_handler := g\<rparr> =
   \<lparr>t_id = a, t_expiry = b, t_interval = c, t_absolute = d, t_active = e, t_queued = f, t_handler = g\<rparr>"
  by (rule timer.equality) simp_all

lemma register_timer_spec:
  assumes "tq_inv (ce_dat env) s" "heap_ok h" "heap_grants h" "\<not> t_queued (ts_timers s p)" "p \<noteq> 0" "p \<noteq> INVALID_ADDRESS"
    "absolute \<or> timerqueue_now env (ts_queue s) ((ts_timers s p)\<lparr>t_id := cid\<rparr>) = Some n"
  shows "ensures (register_timer h env s p cid val absolute interval hd') (\<lambda>s'.
     tq_inv (ce_dat env) s' \<and> ts_log s' = ts_log s \<and>
     ts_timers s' = (ts_timers s)(p := \<lparr>t_id = cid, t_expiry = (if absolute then val else n + val), t_interval = interval,
        t_absolute = absolute, t_active = True, t_queued = True, t_handler = hd'\<rparr>))"
proof -
  let ?t = "(ts_timers s p)\<lparr>t_id := cid, t_expiry := (if absolute then val else n + val), t_interval := interval,
        t_absolute := absolute, t_active := True, t_queued := True, t_handler := hd'\<rparr>"
  obtain pq where "pqueue_insert h (tq_sort (ce_dat env) (set_timer s p ?t)) (tq_pq (ts_queue s)) p = Some pq"
      "tq_inv (ce_dat env) (set_pq (set_timer s p ?t) pq)"
    using enqueue_spec [OF assms(1-6), of ?t] by (auto elim!: ensuresE)
  with assms show ?thesis by (auto simp: register_timer_def Let_def simp del: fun_upd_apply)
qed

text \<open>Handlers that leave timers and queue alone.\<close>

definition inert :: "handlers \<Rightarrow> bool" where
  "inert run \<longleftrightarrow> (\<forall>n e ov s. run n e ov s = Some s)"

lemma apply_inert: "inert run \<Longrightarrow> apply_handler run p e ov s = Some (s\<lparr>ts_log := ts_log s @ [(p, e, ov)]\<rparr>)"
  by (simp add: apply_handler_def inert_def)

lemma log_simps [simp]:
  "set_pq (s\<lparr>ts_log := l\<rparr>) pq = (set_pq s pq)\<lparr>ts_log := l\<rparr>" "set_timer (s\<lparr>ts_log := l\<rparr>) p t = (set_timer s p t)\<lparr>ts_log := l\<rparr>"
  "tq_sort dat (s\<lparr>ts_log := l\<rparr>) = tq_sort dat s" "tkey dat (s\<lparr>ts_log := l\<rparr>) q = tkey dat s q"
  by (simp_all add: set_pq_def set_timer_def tq_sort_def tkey_def)

lemma remove_timer_spec:
  assumes inv: "tq_inv (ce_dat env) s" and run: "inert run" and n: "timerqueue_now env (ts_queue s) (ts_timers s p) = Some n"
  shows "ensures (remove_timer h env run want s p) (\<lambda>(s', removed, remain).
     tq_inv (ce_dat env) s' \<and> removed = t_active (ts_timers s p) \<and>
     ts_timers s' = (if removed then (ts_timers s)(p := (ts_timers s p)\<lparr>t_active := False, t_queued := False\<rparr>) else ts_timers s) \<and>
     ts_log s' = ts_log s @ (if t_queued (ts_timers s p) then [(p, 0, timer_disabled)] else []) \<and>
     remain = (if removed \<and> want then Some (if t_expiry (ts_timers s p) > n then t_expiry (ts_timers s p) - n else 0) else None))"
proof -
  let ?t = "ts_timers s p" and ?L = "blist (tq_pq (ts_queue s))"
  let ?t' = "?t\<lparr>t_active := False, t_queued := False\<rparr>" 
  have L: "vector_wf (tq_pq (ts_queue s))" "tqs.heap (ce_dat env) s ?L" "p \<in> set ?L \<longleftrightarrow> t_queued ?t"
    using inv by (auto simp: tq_inv_def)
  have n': "timerqueue_now env q ?t' = Some n" if "tq_simple q = tq_simple (ts_queue s)" for q
    using n that by (simp add: timerqueue_now_def split: if_splits)
  consider "\<not> t_active ?t" "\<not> t_queued ?t" | "t_active ?t" "t_queued ?t" | "t_active ?t" "\<not> t_queued ?t" "t_interval ?t \<noteq> 0"
    using inv by (auto simp: tq_inv_def)
  then show ?thesis
  proof cases
    case 2
    have k: "tkey (ce_dat env) (set_timer s p ?t') q = tkey (ce_dat env) s q" for q
      by (simp add: tkey_def timerqueue_expiry_def timer_expiry_def)
    then have "tqs.heap (ce_dat env) (set_timer s p ?t') ?L" by (intro tq_heap_change [OF L(2)]) blast
    from tqs.pqueue_remove_loop_spec [OF L(1) this, of 0 p h]
    obtain pq where pq: "pqueue_remove h (tq_sort (ce_dat env) (set_timer s p ?t')) (tq_pq (ts_queue s)) p = Some (pq, True)"
        "vector_wf pq" "tqs.heap (ce_dat env) (set_timer s p ?t') (blist pq)" "mset (blist pq) = mset ?L - {#p#}"
      using 2 L(3) by (auto simp: pqueue_remove_def elim!: ensuresE)
    have "tqs.heap (ce_dat env) s (blist pq)" using k by (intro tq_heap_change [OF pq(3)]) simp
    from dequeued_inv [OF inv pq(2) this pq(4), of ?t']
    have "tq_inv (ce_dat env) (set_pq (set_timer s p ?t') pq)" by simp
    with 2 pq(1) n' show ?thesis
      by (simp add: remove_timer_def Let_def apply_inert [OF run] del: fun_upd_apply add: fun_upd_same)
  next
    case 3
    then have t: "?t\<lparr>t_active := False\<rparr> = ?t'" by (intro timer.equality) simp_all
    have "set_pq (set_timer s p ?t') (tq_pq (ts_queue s)) = set_timer s p ?t'" by (simp add: set_pq_def set_timer_def)
    moreover have "mset ?L = mset ?L - {#p#}" using 3 L(3) by (simp add: diff_single_trivial)
    ultimately have "tq_inv (ce_dat env) (set_timer s p ?t')"
      using dequeued_inv [OF inv L(1,2), of p ?t'] by simp
    with 3 n' show ?thesis by (simp add: remove_timer_def Let_def t [symmetric] del: fun_upd_apply add: fun_upd_same)
  qed (use inv in \<open>simp add: remove_timer_def\<close>)
qed

section \<open>Servicing a queue\<close>

text \<open>The number of periods a timer is behind at time \<open>here\<close>, and the timer once they have been
  accounted for: what servicing a queue means for one of its timers.\<close>

definition behind :: "timestamp \<Rightarrow> timer \<Rightarrow> nat" where
  "behind here t =
     (if t_queued t \<and> t_expiry t \<le> here
      then if t_interval t = 0 then 1 else (unat here - unat (t_expiry t)) div unat (t_interval t) + 1
      else 0)"

definition serviced :: "timestamp \<Rightarrow> timer \<Rightarrow> timer" where
  "serviced here t =
     (if behind here t = 0 then t
      else if t_interval t = 0 then t\<lparr>t_active := False, t_queued := False\<rparr>
      else t\<lparr>t_expiry := t_expiry t + t_interval t * of_nat (behind here t)\<rparr>)"

text \<open>Timers whose times stay clear of the sign bit.\<close>

definition in_range :: "timestamp \<Rightarrow> timer \<Rightarrow> bool" where
  "in_range here t \<longleftrightarrow> unat here < 2 ^ 62 \<and> (t_queued t \<longrightarrow> unat (t_expiry t) < 2 ^ 63 \<and> unat (t_interval t) < 2 ^ 62)"

text \<open>One firing of a due timer.\<close>

definition fired :: "timestamp \<Rightarrow> timer \<Rightarrow> timer \<times> u64" where
  "fired here t =
     (if t_interval t = 0 then (t\<lparr>t_active := False, t_queued := False\<rparr>, 1)
      else (let ov = timer_overruns (here - t_expiry t) (t_interval t)
            in (t\<lparr>t_expiry := t_expiry t + t_interval t * ov\<rparr>, ov)))"

lemma overruns_nat:
  fixes here e i :: u64
  assumes "e \<le> here" "unat here < 2 ^ 62"
  shows "unat (timer_overruns (here - e) i) =
    (if unat here - unat e > unat i then (unat here - unat e) div unat i + 1 else 1)"
proof -
  have d: "unat (here - e) = unat here - unat e" using assms(1) by (simp add: unat_sub)
  have "(unat here - unat e) div unat i \<le> unat here - unat e" by (rule div_le_dividend)
  moreover have "q \<le> x - y \<Longrightarrow> x < 2 ^ 62 \<Longrightarrow> q + 1 < 2 ^ 64" for q x y :: nat by simp
  ultimately have "(unat here - unat e) div unat i + 1 < 2 ^ 64" using assms(2) by blast
  then have "unat ((here - e) div i + 1) = (unat here - unat e) div unat i + 1"
    by (subst unat_add_no_wrap) (simp_all add: unat_div d)
  then show ?thesis by (simp add: timer_overruns_def word_less_nat_alt d)
qed

text \<open>The arithmetic of catching up.\<close>

lemma catch_up:
  fixes H E I :: nat
  assumes "E \<le> H" "0 < I"
  defines "k \<equiv> (H - E) div I + 1" and "ov \<equiv> if H - E > I then (H - E) div I + 1 else 1"
  shows "1 \<le> ov" "H < E + I * k" "E + I * k \<le> H + I"
    and "E + I * ov \<le> H \<longrightarrow> k = ov + ((H - (E + I * ov)) div I + 1)" "H < E + I * ov \<longrightarrow> k = ov" "I * ov \<le> H - E + I"
proof -
  have k: "H - E < I * k" "I * k \<le> H - E + I"
    using dividend_less_div_times [OF assms(2), of "H - E"] div_times_less_eq_dividend [of "H - E" I]
    by (simp_all add: k_def algebra_simps)
  show "1 \<le> ov" by (simp add: ov_def)
  show "H < E + I * k" "E + I * k \<le> H + I" using k assms(1) by linarith+
  consider "H - E > I" | "H - E = I" | "H - E < I" by linarith
  then have "(E + I * ov \<le> H \<longrightarrow> k = ov + ((H - (E + I * ov)) div I + 1)) \<and> (H < E + I * ov \<longrightarrow> k = ov) \<and> I * ov \<le> H - E + I"
  proof cases
    case 1
    then have "ov = k" by (simp add: ov_def k_def)
    with k show ?thesis by auto
  next
    case 2
    then have "ov = 1" "k = 2" "E + I = H" using assms(1,2) by (auto simp: ov_def k_def)
    then show ?thesis by auto
  next
    case 3
    then have "ov = 1" "k = 1" by (auto simp: ov_def k_def)
    with 3 show ?thesis by auto
  qed
  then show "E + I * ov \<le> H \<longrightarrow> k = ov + ((H - (E + I * ov)) div I + 1)" "H < E + I * ov \<longrightarrow> k = ov" "I * ov \<le> H - E + I"
    by blast+
qed

lemma fired_step:
  assumes q: "t_queued t" "t_expiry t \<le> here" and r: "in_range here t" and f: "fired here t = (t', ov)"
  shows "in_range here t'" "1 \<le> unat ov" "behind here t = unat ov + behind here t'" "serviced here t' = serviced here t"
proof -
  have "in_range here t' \<and> 1 \<le> unat ov \<and> behind here t = unat ov + behind here t' \<and> serviced here t' = serviced here t"
  proof (cases "t_interval t = 0")
    case True
    with f have "t' = t\<lparr>t_active := False, t_queued := False\<rparr>" "ov = 1" by (auto simp: fired_def)
    with True q r show ?thesis by (auto simp: behind_def serviced_def in_range_def)
  next
    case False
    let ?H = "unat here" and ?E = "unat (t_expiry t)" and ?I = "unat (t_interval t)"
    from False f have t': "t' = t\<lparr>t_expiry := t_expiry t + t_interval t * ov\<rparr>"
      and ov: "ov = timer_overruns (here - t_expiry t) (t_interval t)"
      by (auto simp: fired_def Let_def)
    have b: "?H < 2 ^ 62" "?I < 2 ^ 62" using r q(1) by (auto simp: in_range_def)
    have ovn: "unat ov = (if ?H - ?E > ?I then (?H - ?E) div ?I + 1 else 1)"
      unfolding ov by (rule overruns_nat [OF q(2) b(1)])
    have EI: "?E \<le> ?H" "0 < ?I" using q(2) False by (simp_all add: word_le_nat_alt unat_gt_0)
    note cu = catch_up [OF EI, folded ovn]
    have ari: "x \<le> h - e + i \<Longrightarrow> h < 2 ^ 62 \<Longrightarrow> i < 2 ^ 62 \<Longrightarrow> e \<le> h \<Longrightarrow> x < 2 ^ 64 \<and> e + x < 2 ^ 63" for x h i e :: nat
      by (intro conjI) simp_all
    have "?I * unat ov < 2 ^ 64 \<and> ?E + ?I * unat ov < 2 ^ 63" using ari [OF cu(6) b EI(1)] .
    then have E': "unat (t_expiry t') = ?E + ?I * unat ov" "unat (t_expiry t') < 2 ^ 63"
      unfolding t' by (simp_all add: unat_add_no_wrap unat_no_wrap)
    have "behind here t = unat ov + behind here t'"
      using cu(4,5) q False E'(1) by (auto simp: behind_def t' word_le_nat_alt)
    moreover have "in_range here t'" using r E'(2) by (simp add: in_range_def t')
    moreover have "serviced here t' = serviced here t"
    proof (cases "behind here t' = 0")
      case True
      with calculation(1) cu(1) False show ?thesis by (simp add: serviced_def) (simp add: t')
    next
      case False
      with calculation(1) cu(1) \<open>t_interval t \<noteq> 0\<close> show ?thesis
        by (simp add: serviced_def) (simp add: t' algebra_simps)
    qed
    ultimately show ?thesis using cu(1) by blast
  qed
  then show "in_range here t'" "1 \<le> unat ov" "behind here t = unat ov + behind here t'" "serviced here t' = serviced here t"
    by blast+
qed

lemma serviced_later:
  assumes "t_queued (serviced here t)" "in_range here t"
  shows "here < t_expiry (serviced here t)"
proof (cases "behind here t = 0")
  case True
  with assms show ?thesis by (simp add: serviced_def behind_def not_le split: if_splits)
next
  case False
  let ?H = "unat here" and ?E = "unat (t_expiry t)" and ?I = "unat (t_interval t)" and ?k = "behind here t"
  have i: "t_interval t \<noteq> 0" "t_queued t" "t_expiry t \<le> here"
    using assms(1) False by (auto simp: serviced_def behind_def split: if_splits)
  then have EI: "?E \<le> ?H" "0 < ?I" and k: "?k = (?H - ?E) div ?I + 1"
    by (simp_all add: word_le_nat_alt unat_gt_0 behind_def)
  note cu = catch_up(2,3) [OF EI, folded k]
  have b: "?H < 2 ^ 62" "?I < 2 ^ 62" using assms(2) i(2) by (auto simp: in_range_def)
  have ari: "e + x \<le> h + i \<Longrightarrow> h < 2 ^ 62 \<Longrightarrow> i < 2 ^ 62 \<Longrightarrow> x < 2 ^ 64 \<and> e + x < 2 ^ 64" for x h i e :: nat
    by (intro conjI) simp_all
  have "?I * ?k < 2 ^ 64 \<and> ?E + ?I * ?k < 2 ^ 64" by (rule ari [OF cu(2) b])
  moreover have "1 * ?k \<le> ?I * ?k" using EI(2) by (intro mult_right_mono) auto
  ultimately have "?k < 2 ^ 64" by linarith
  then have "unat (of_nat ?k :: u64) = ?k" by (simp add: unat_of_nat)
  with \<open>?I * ?k < 2 ^ 64 \<and> ?E + ?I * ?k < 2 ^ 64\<close>
  have "unat (t_expiry t + t_interval t * of_nat ?k) = ?E + ?I * ?k"
    by (simp add: unat_add_no_wrap unat_no_wrap)
  then show ?thesis using cu(1) False i(1) by (simp add: serviced_def word_less_nat_alt)
qed

lemma peek_hd:
  assumes "tq_inv dat s"
  shows "pqueue_peek (tq_pq (ts_queue s)) =
    (if blist (tq_pq (ts_queue s)) = [] then INVALID_ADDRESS else hd (blist (tq_pq (ts_queue s))))"
  using assms vector_get_blist [of "tq_pq (ts_queue s)" 0]
  by (simp add: pqueue_peek_def pqueue_peek_at_def vector_length_blist tq_inv_def hd_conv_nth)

lemma timer_fire_spec:
  assumes inv: "tq_inv dat s" and h: "heap_ok h" "heap_grants h" and run: "inert run" and simple: "tq_simple (ts_queue s)"
    and p: "blist (tq_pq (ts_queue s)) \<noteq> []" "p = hd (blist (tq_pq (ts_queue s)))"
    and f: "fired here (ts_timers s p) = (t', ov)"
  shows "ensures (timer_fire h dat run here s p) (\<lambda>s'. tq_inv dat s' \<and> tq_simple (ts_queue s') \<and>
     ts_timers s' = (ts_timers s)(p := t') \<and> ts_log s' = ts_log s @ [(p, t_expiry t', ov)])"
proof -
  let ?L = "blist (tq_pq (ts_queue s))" and ?t = "ts_timers s p"
  have L: "vector_wf (tq_pq (ts_queue s))" "tqs.heap dat s ?L" "0 \<notin> set ?L" and pL: "p \<in> set ?L"
    using inv p by (auto simp: tq_inv_def)
  have t: "t_queued ?t" "t_active ?t" "p \<noteq> 0" "p \<noteq> INVALID_ADDRESS" using inv pL by (auto simp: tq_inv_def)
  obtain pq where pq: "pqueue_pop h (tq_sort dat s) (tq_pq (ts_queue s)) = Some (pq, p)" "vector_wf pq"
      "tqs.heap dat s (blist pq)" "mset (blist pq) = mset ?L - {#p#}"
    using tqs.pqueue_pop_spec [OF L(1,2) p(1) L(3), of h] p(2) by (auto elim!: ensuresE)
  let ?t2 = "t'\<lparr>t_queued := False\<rparr>"
  let ?s = "set_pq (set_timer s p ?t2) pq"
  let ?s2 = "?s\<lparr>ts_log := ts_log s @ [(p, t_expiry t', ov)]\<rparr>"
  have d: "here - timerqueue_expiry dat (ts_queue s) ?t = here - t_expiry ?t"
    using simple by (simp add: timerqueue_expiry_def)
  show ?thesis
  proof (cases "t_interval ?t = 0")
    case True
    then have t': "t' = ?t\<lparr>t_active := False, t_queued := False\<rparr>" "ov = 1" using f by (auto simp: fired_def)
    have "tq_inv dat ?s" by (rule dequeued_inv [OF inv pq(2-4)]) (simp_all add: t')
    with True t pq(1) t' simple show ?thesis
      by (simp add: timer_fire_def Let_def apply_inert [OF run] del: fun_upd_apply add: fun_upd_same)
  next
    case False
    then have t': "t' = ?t\<lparr>t_expiry := t_expiry ?t + t_interval ?t * ov\<rparr>"
      and ov: "timer_overruns (here - t_expiry ?t) (t_interval ?t) = ov"
      using f by (auto simp: fired_def Let_def)
    have inv2: "tq_inv dat ?s2" using False by (simp add: dequeued_inv [OF inv pq(2-4)] t')
    have q: "\<not> t_queued (ts_timers ?s2 p)" "t_queued t'" "t_active t'" using t t' by simp_all
    from enqueue_spec [OF inv2 h q(1) t(3,4) q(2,3)]
    obtain pq3 where pq3: "pqueue_insert h (tq_sort dat (set_timer ?s2 p t')) pq p = Some pq3"
        "tq_inv dat (set_pq (set_timer ?s2 p t') pq3)"
      by (auto elim!: ensuresE simp del: log_simps)
    have t3: "?t\<lparr>t_expiry := e, t_queued := True\<rparr> = ?t\<lparr>t_expiry := e\<rparr>" for e
      using t(1) by (intro timer.equality) simp_all
    have "timer_fire h dat run here s p = do {
        pq3 \<leftarrow> pqueue_insert h (tq_sort dat (set_timer ?s2 p t')) pq p;
        Some (set_pq (set_timer ?s2 p t') pq3)
      }"
      using False t by (simp add: timer_fire_def pq(1) Let_def d ov apply_inert [OF run] t' t3)
    with pq3 simple show ?thesis by simp
  qed
qed

definition overruns_of :: "ptr \<Rightarrow> (ptr \<times> u64 \<times> u64) list \<Rightarrow> nat" where
  "overruns_of p es = sum_list (map (\<lambda>(q, e, ov). if q = p then unat ov else 0) es)"

lemma service_done:
  assumes inv: "tq_inv dat s" and simple: "tq_simple (ts_queue s)" and r: "\<forall>p. in_range here (ts_timers s p)"
    and stop: "\<not> (pqueue_peek (tq_pq (ts_queue s)) \<noteq> INVALID_ADDRESS \<and> timer_due dat s here (pqueue_peek (tq_pq (ts_queue s))))"
  shows "behind here (ts_timers s p) = 0"
proof (cases "t_queued (ts_timers s p)")
  case True
  let ?L = "blist (tq_pq (ts_queue s))"
  have p: "p \<in> set ?L" "tqs.heap dat s ?L" using inv True by (auto simp: tq_inv_def)
  then have ne: "?L \<noteq> []" by auto
  then have hd: "hd ?L \<in> set ?L" by simp
  then have "hd ?L \<noteq> INVALID_ADDRESS" "t_queued (ts_timers s (hd ?L))" using inv by (auto simp: tq_inv_def)
  then have "\<not> timer_due dat s here (hd ?L)" using stop peek_hd [OF inv] ne by auto
  moreover have "unat here < 2 ^ 63" "unat (t_expiry (ts_timers s (hd ?L))) < 2 ^ 63"
    using r \<open>t_queued (ts_timers s (hd ?L))\<close> by (auto simp: in_range_def elim: allE [of _ "hd ?L"])
  ultimately have "here < t_expiry (ts_timers s (hd ?L))"
    using simple sint_nonneg_le [of here "t_expiry (ts_timers s (hd ?L))"]
    by (simp add: timer_due_def timerqueue_expiry_def not_le)
  also have "\<dots> \<le> t_expiry (ts_timers s p)"
    using tqs.heap_hd_least [OF p(2,1)] simple by (simp add: tkey_def timerqueue_expiry_def)
  finally show ?thesis by (simp add: behind_def not_le)
qed (simp add: behind_def)

lemma service_loop_spec:
  assumes "tq_inv dat s" "heap_ok h" "heap_grants h" "inert run" "tq_simple (ts_queue s)" "\<forall>p. in_range here (ts_timers s p)"
  shows "ensures (timer_service_loop h dat run here s) (\<lambda>s'. tq_inv dat s' \<and>
     ts_timers s' = (\<lambda>p. serviced here (ts_timers s p)) \<and>
     (\<exists>es. ts_log s' = ts_log s @ es \<and> (\<forall>p. overruns_of p es = behind here (ts_timers s p))))"
  using assms
proof (induction "\<Sum>p \<in> set (blist (tq_pq (ts_queue s))). behind here (ts_timers s p)" arbitrary: s rule: less_induct)
  case less
  let ?L = "blist (tq_pq (ts_queue s))" and ?p = "pqueue_peek (tq_pq (ts_queue s))"
  note inv = less.prems(1) and simple = less.prems(5) and r = less.prems(6)
  show ?case
  proof (cases "?p \<noteq> INVALID_ADDRESS \<and> timer_due dat s here ?p")
    case False
    with service_done [OF inv simple r False] inv show ?thesis
      by (subst timer_service_loop.simps) (auto simp: Let_def serviced_def overruns_of_def)
  next
    case True
    then have ne: "?L \<noteq> []" and p: "?p = hd ?L" using peek_hd [OF inv] by (auto split: if_splits)
    then have pL: "?p \<in> set ?L" by simp
    then have q: "t_queued (ts_timers s ?p)" using inv by (auto simp: tq_inv_def)
    then have "unat here < 2 ^ 63" "unat (t_expiry (ts_timers s ?p)) < 2 ^ 63" and rp: "in_range here (ts_timers s ?p)"
      using r by (auto simp: in_range_def elim: allE [of _ ?p])
    then have due: "t_expiry (ts_timers s ?p) \<le> here"
      using True simple sint_nonneg_le [of here "t_expiry (ts_timers s ?p)"] by (simp add: timer_due_def timerqueue_expiry_def)
    obtain t' ov where f: "fired here (ts_timers s ?p) = (t', ov)" by fastforce
    note st = fired_step [OF q due rp f]
    obtain s' where s': "timer_fire h dat run here s ?p = Some s'" "tq_inv dat s'" "tq_simple (ts_queue s')"
        "ts_timers s' = (ts_timers s)(?p := t')" "ts_log s' = ts_log s @ [(?p, t_expiry t', ov)]"
      using timer_fire_spec [OF inv less.prems(2-5) ne p f] by (auto elim!: ensuresE)
    have r': "\<forall>p. in_range here (ts_timers s' p)" using r st(1) s'(4) by simp
    have sub: "x \<in> set ?L" if "x \<in> set (blist (tq_pq (ts_queue s')))" for x
      using that pL tq_inv_queued [OF inv, of x] tq_inv_queued [OF s'(2), of x] s'(4) by (auto split: if_splits)
    have "(\<Sum>p \<in> set (blist (tq_pq (ts_queue s'))). behind here (ts_timers s' p)) \<le> (\<Sum>p \<in> set ?L. behind here (ts_timers s' p))"
      using sub by (intro sum_mono2) blast+
    also have "\<dots> < (\<Sum>p \<in> set ?L. behind here (ts_timers s p))"
      using st(2,3) pL s'(4) by (intro sum_strict_mono_ex1) auto
    finally have "ensures (timer_service_loop h dat run here s') (\<lambda>s''. tq_inv dat s'' \<and>
       ts_timers s'' = (\<lambda>p. serviced here (ts_timers s' p)) \<and>
       (\<exists>es. ts_log s'' = ts_log s' @ es \<and> (\<forall>p. overruns_of p es = behind here (ts_timers s' p))))"
      using less.hyps less.prems(2-4) s'(2,3) r' by blast
    moreover have "(\<lambda>p. serviced here (ts_timers s' p)) = (\<lambda>p. serviced here (ts_timers s p))"
      using s'(4) st(4) by auto
    moreover have "overruns_of p ((?p, t_expiry t', ov) # es) = behind here (ts_timers s p)"
      if "\<forall>p. overruns_of p es = behind here (ts_timers s' p)" for es p
      using that [rule_format, of p] s'(4) st(3) by (auto simp: overruns_of_def)
    ultimately have "ensures (timer_service_loop h dat run here s') (\<lambda>s''. tq_inv dat s'' \<and>
       ts_timers s'' = (\<lambda>p. serviced here (ts_timers s p)) \<and>
       (\<exists>es. ts_log s'' = ts_log s @ es \<and> (\<forall>p. overruns_of p es = behind here (ts_timers s p))))"
      unfolding s'(5) append_assoc append.simps by (elim ensures_mono) metis
    with True s'(1) show ?thesis by (subst timer_service_loop.simps) (simp add: Let_def)
  qed
qed

section \<open>Reordering after a change of the clock\<close>

text \<open>All of the invariant but the heap order, which a change of the clock parameters or of expiries
  may break.\<close>

definition tq_contents :: "tstate \<Rightarrow> bool" where
  "tq_contents s \<longleftrightarrow>
     vector_wf (tq_pq (ts_queue s)) \<and> distinct (blist (tq_pq (ts_queue s))) \<and> 0 \<notin> set (blist (tq_pq (ts_queue s))) \<and>
     INVALID_ADDRESS \<notin> set (blist (tq_pq (ts_queue s))) \<and>
     (\<forall>p. p \<in> set (blist (tq_pq (ts_queue s))) \<longleftrightarrow> t_queued (ts_timers s p)) \<and>
     (\<forall>p. t_queued (ts_timers s p) \<longrightarrow> t_active (ts_timers s p)) \<and>
     (\<forall>p. t_active (ts_timers s p) \<and> \<not> t_queued (ts_timers s p) \<longrightarrow> t_interval (ts_timers s p) \<noteq> 0)"

lemma tq_inv_contents: "tq_inv dat s \<longleftrightarrow> tq_contents s \<and> tqs.heap dat s (blist (tq_pq (ts_queue s)))"
  by (auto simp: tq_inv_def tq_contents_def)

lemma timer_reorder_spec:
  assumes "tq_contents s"
  shows "ensures (timer_reorder h dat s) (\<lambda>s'. tq_inv dat s' \<and> ts_timers s' = ts_timers s \<and> ts_log s' = ts_log s)"
proof -
  let ?L = "blist (tq_pq (ts_queue s))"
  have "vector_wf (tq_pq (ts_queue s))" using assms by (simp add: tq_contents_def)
  from tqs.pqueue_reorder_spec [OF this, of h dat s]
  obtain pq where pq: "pqueue_reorder h (tq_sort dat s) (tq_pq (ts_queue s)) = Some pq" "vector_wf pq"
      "tqs.heap dat s (blist pq)" "mset (blist pq) = mset ?L"
    by (auto elim!: ensuresE)
  have "set (blist pq) = set ?L" "distinct (blist pq) = distinct ?L"
    using pq(4) by (metis mset_eq_setD, metis mset_eq_imp_distinct_iff)
  with assms pq(2) have "tq_contents (set_pq s pq)" unfolding tq_contents_def by (simp only: set_simps) blast
  moreover have "tqs.heap dat (set_pq s pq) (blist pq)" by (rule tq_heap_change [OF pq(3)]) simp
  ultimately show ?thesis using pq(1) by (simp add: timer_reorder_def tq_inv_contents)
qed

definition adjusted :: "u64 \<Rightarrow> timer \<Rightarrow> timer" where
  "adjusted amt t =
     (if \<not> t_absolute t \<and> (t_id t = CLOCK_ID_REALTIME \<or> t_id t = CLOCK_ID_REALTIME_COARSE \<or> t_id t = CLOCK_ID_REALTIME_ALARM)
      then t\<lparr>t_expiry := t_expiry t + amt\<rparr> else t)"

lemma adjust_handler: "timer_adjust_handler amt p s = (set_timer s p (adjusted amt (ts_timers s p)), True)"
  by (simp add: timer_adjust_handler_def Let_def adjusted_def set_timer_def)

lemma walk_adjust:
  assumes "distinct L"
  shows "fst (pqueue_walk_loop (timer_adjust_handler amt) L s) =
    s\<lparr>ts_timers := (\<lambda>p. if p \<in> set L then adjusted amt (ts_timers s p) else ts_timers s p)\<rparr>"
  using assms
proof (induction L arbitrary: s)
  case (Cons x L)
  then show ?case by (auto simp: adjust_handler set_timer_def fun_eq_iff intro!: tstate.equality)
qed simp

lemma timer_adjust_spec:
  assumes "tq_contents s"
  shows "ensures (timer_adjust_end h dat (timer_adjust_handler amt) s) (\<lambda>s'. tq_inv dat s' \<and>
     ts_timers s' = (\<lambda>p. if t_queued (ts_timers s p) then adjusted amt (ts_timers s p) else ts_timers s p))"
proof -
  let ?s = "s\<lparr>ts_timers := (\<lambda>p. if t_queued (ts_timers s p) then adjusted amt (ts_timers s p) else ts_timers s p)\<rparr>"
  have "fst (pqueue_walk (timer_adjust_handler amt) (tq_pq (ts_queue s)) s) = ?s"
    using assms by (simp add: pqueue_walk_def walk_adjust tq_contents_def)
  moreover have "tq_contents ?s" using assms by (auto simp: tq_contents_def adjusted_def)
  from timer_reorder_spec [OF this, of h dat] have "ensures (timer_reorder h dat ?s)
     (\<lambda>s'. tq_inv dat s' \<and> ts_timers s' = ts_timers ?s)" by (elim ensures_mono) simp
  ultimately show ?thesis by (simp add: timer_adjust_end_def)
qed

section \<open>Properties\<close>

text \<open>A queue with its own clock and two armed timers: a periodic one, two periods behind at time 25, and
  a one-shot timer.\<close>

definition periodic :: timer where
  "periodic = \<lparr>t_id = CLOCK_ID_MONOTONIC, t_expiry = 5, t_interval = 10, t_absolute = True, t_active = True, t_queued = True, t_handler = 1\<rparr>"

definition one_shot :: timer where
  "one_shot = \<lparr>t_id = CLOCK_ID_MONOTONIC, t_expiry = 20, t_interval = 0, t_absolute = True, t_active = True, t_queued = True, t_handler = 2\<rparr>"

definition two_timers :: tstate where
  "two_timers =
     \<lparr>ts_timers = (\<lambda>p. if p = 8 then periodic else if p = 16 then one_shot else one_shot\<lparr>t_active := False, t_queued := False\<rparr>),
      ts_queue = \<lparr>tq_pq = \<lparr>b_start = 0, b_end = 2, b_length = 2, b_wrapped = False, b_contents = [8, 16]\<rparr>,
                   tq_next_expiry = 5, tq_simple = True, tq_update = True\<rparr>,
      ts_log = []\<rparr>"

lemma two_timers_inv: "tq_inv dat two_timers" "\<forall>p. in_range 25 (ts_timers two_timers p)" "tq_simple (ts_queue two_timers)"
proof -
  have "tqs.ordered_at dat two_timers [8, 16] 2"
    by (simp add: tqs.ordered_at_def el_def tkey_def timerqueue_expiry_def two_timers_def periodic_def one_shot_def)
  then have "tqs.heap dat two_timers [8, 16]"
    by (intro tqs.heapI) (metis One_nat_def Suc_1 le_antisym length_Cons list.size(3))
  then show "tq_inv dat two_timers"
    by (auto simp: tq_inv_contents tq_contents_def two_timers_def vector_wf_def buffer_wf_def blist_def
        INVALID_ADDRESS_def periodic_def one_shot_def)
qed (auto simp: two_timers_def in_range_def periodic_def one_shot_def)



text \<open>C25: \<^verbatim>\<open>register_timer\<close> on a timer that is not queued arms it with the given parameters, relative expiries
  counted from the queue's clock, keeps the queue in order and touches no other timer.\<close>

theorem register_timer_correct:
  assumes "tq_inv (ce_dat env) s" "heap_ok h" "heap_grants h" "\<not> t_queued (ts_timers s p)" "p \<noteq> 0" "p \<noteq> INVALID_ADDRESS"
    "absolute \<or> timerqueue_now env (ts_queue s) ((ts_timers s p)\<lparr>t_id := cid\<rparr>) = Some n"
  shows "\<exists>s'. register_timer h env s p cid val absolute interval hd' = Some s' \<and> tq_inv (ce_dat env) s' \<and>
     ts_log s' = ts_log s \<and>
     ts_timers s' = (ts_timers s)(p := \<lparr>t_id = cid, t_expiry = (if absolute then val else n + val), t_interval = interval,
        t_absolute = absolute, t_active = True, t_queued = True, t_handler = hd'\<rparr>)"
  using register_timer_spec [OF assms] unfolding ensures_def by blast

definition some_env :: clock_env where
  "some_env = \<lparr>ce_dat = steered, ce_platform = Some 0xB00000000, ce_queue_now = 21\<rparr>"

theorem register_timer_witness:
  "\<exists>s'. register_timer zero_heap some_env two_timers 24 CLOCK_ID_MONOTONIC 7 False 0 3 = Some s' \<and> tq_inv steered s' \<and>
     ts_log s' = ts_log two_timers \<and>
     ts_timers s' = (ts_timers two_timers)(24 := \<lparr>t_id = CLOCK_ID_MONOTONIC, t_expiry = 28, t_interval = 0,
        t_absolute = False, t_active = True, t_queued = True, t_handler = 3\<rparr>)"
  using register_timer_correct [of some_env two_timers zero_heap 24 False CLOCK_ID_MONOTONIC 21 7 0 3] two_timers_inv
  by (simp add: some_env_def timerqueue_now_def INVALID_ADDRESS_def two_timers_def del: fun_upd_apply)

text \<open>C26: \<^verbatim>\<open>remove_timer\<close> never trips its assertions on a queue in order: it reports whether the timer was
  armed, disarms it, tells its handler exactly when the timer was still in the queue, and answers the time
  that remained.\<close>

theorem remove_timer_correct:
  assumes "tq_inv (ce_dat env) s" "inert run" "timerqueue_now env (ts_queue s) (ts_timers s p) = Some n"
  shows "\<exists>s' removed remain. remove_timer h env run want s p = Some (s', removed, remain) \<and> tq_inv (ce_dat env) s' \<and>
     removed = t_active (ts_timers s p) \<and>
     ts_timers s' = (if removed then (ts_timers s)(p := (ts_timers s p)\<lparr>t_active := False, t_queued := False\<rparr>) else ts_timers s) \<and>
     ts_log s' = ts_log s @ (if t_queued (ts_timers s p) then [(p, 0, timer_disabled)] else []) \<and>
     remain = (if removed \<and> want then Some (if t_expiry (ts_timers s p) > n then t_expiry (ts_timers s p) - n else 0) else None)"
  using remove_timer_spec [OF assms, of h want] unfolding ensures_def split_paired_Ex prod.case by blast

theorem remove_timer_witness:
  "\<exists>s' removed remain. remove_timer zero_heap some_env (\<lambda>n e ov. Some) True two_timers 8 = Some (s', removed, remain) \<and>
     tq_inv (ce_dat some_env) s' \<and> removed = t_active (ts_timers two_timers 8) \<and>
     ts_timers s' = (if removed then (ts_timers two_timers)(8 := (ts_timers two_timers 8)\<lparr>t_active := False, t_queued := False\<rparr>)
                     else ts_timers two_timers) \<and>
     ts_log s' = ts_log two_timers @ (if t_queued (ts_timers two_timers 8) then [(8, 0, timer_disabled)] else []) \<and>
     remain = (if removed \<and> True then Some (if t_expiry (ts_timers two_timers 8) > 21 then t_expiry (ts_timers two_timers 8) - 21 else 0) else None)"
  by (rule remove_timer_correct)
     (simp_all add: two_timers_inv inert_def timerqueue_now_def some_env_def)

text \<open>A step of the wall clock (\<^verbatim>\<open>clock_step_rtc\<close>) moves exactly the queued relative timers on the real-time
  clocks by the step, and whatever the new clock parameters do to the comparison of expiries, the queue of
  kernel timers is in order for them afterwards.\<close>

theorem clock_step_rtc_correct:
  assumes "tq_inv (kc_dat k) (kc_timers k)"
    "now (vdso_update (step_rtc_stores step) (kc_dat k)) platform CLOCK_ID_REALTIME = Some n"
  shows "\<exists>k'. clock_step_rtc h platform step k = Some k' \<and> tq_inv (kc_dat k') (kc_timers k') \<and>
     rtc_offset (kc_dat k') = rtc_offset (kc_dat k) + step \<and> vdso_gen (kc_dat k') = vdso_gen (kc_dat k) + 2 \<and>
     ts_timers (kc_timers k') = (\<lambda>p. let t = ts_timers (kc_timers k) p in if t_queued t then adjusted step t else t) \<and>
     kc_rtc k' = sec_from_timestamp n"
proof -
  have "tq_contents (kc_timers k)" using assms(1) by (simp add: tq_inv_contents)
  from timer_adjust_spec [OF this, of h "vdso_update (step_rtc_stores step) (kc_dat k)" step] assms(2)
  show ?thesis
    by (auto simp: clock_step_rtc_def Let_def vdso_update_def vdso_update_gen_def step_rtc_stores_def elim!: ensuresE)
qed

theorem clock_step_rtc_witness:
  "let k = \<lparr>kc_dat = steered, kc_timers = two_timers, kc_rtc = 0, kc_notified = 0\<rparr>
   in \<exists>k'. clock_step_rtc zero_heap (Some 0xB00000000) 0x100000000 k = Some k' \<and> tq_inv (kc_dat k') (kc_timers k') \<and>
     rtc_offset (kc_dat k') = rtc_offset (kc_dat k) + 0x100000000 \<and> vdso_gen (kc_dat k') = vdso_gen (kc_dat k) + 2 \<and>
     ts_timers (kc_timers k') = (\<lambda>p. let t = ts_timers (kc_timers k) p in if t_queued t then adjusted 0x100000000 t else t) \<and>
     kc_rtc k' = sec_from_timestamp 0x1101000000"
  unfolding Let_def
  by (rule clock_step_rtc_correct [unfolded Let_def])
     (simp_all add: two_timers_inv vdso_update_def vdso_update_gen_def step_rtc_stores_def now_def gen_mask_def steered_def
        now_turn_def clock_freq_adjust_def CLOCK_FP_BITS_def clock_phase_adjust_def)

text \<open>C27: A change of the frequency or of the slew leaves the kernel timers in order for the new
  parameters, changes no timer, and advances the generation by two.\<close>

theorem clock_set_freq_reorders:
  assumes "tq_inv (kc_dat k) (kc_timers k)"
  shows "(\<exists>k'. clock_set_freq h (Some here) freq k = Some k' \<and> tq_inv (kc_dat k') (kc_timers k') \<and>
            base_freq (kc_dat k') = freq \<and> last_raw (kc_dat k') = here \<and> vdso_gen (kc_dat k') = vdso_gen (kc_dat k) + 2 \<and>
            ts_timers (kc_timers k') = ts_timers (kc_timers k)) \<and>
         (\<exists>k'. clock_set_slew h freq start duration k = Some k' \<and> tq_inv (kc_dat k') (kc_timers k') \<and>
            slew_freq (kc_dat k') = freq \<and> slew_start (kc_dat k') = start \<and> slew_end (kc_dat k') = start + duration \<and>
            vdso_gen (kc_dat k') = vdso_gen (kc_dat k) + 2 \<and> ts_timers (kc_timers k') = ts_timers (kc_timers k))"
proof -
  have c: "tq_contents (kc_timers k)" using assms by (simp add: tq_inv_contents)
  have raw: "now dat (Some here) CLOCK_ID_MONOTONIC_RAW = Some here" for dat by (simp add: now_def)
  show ?thesis
    using timer_reorder_spec [OF c, of h "vdso_update (set_freq_stores here freq) (kc_dat k)"]
      timer_reorder_spec [OF c, of h "vdso_update (set_slew_stores freq start duration) (kc_dat k)"]
    by (auto simp: clock_set_freq_def clock_set_slew_def Let_def raw vdso_update_def vdso_update_gen_def set_freq_stores_def
        set_slew_stores_def fold_freq_def elim!: ensuresE)
qed

theorem clock_set_freq_reorders_witness:
  "let k = \<lparr>kc_dat = steered, kc_timers = two_timers, kc_rtc = 0, kc_notified = 0\<rparr> in
   (\<exists>k'. clock_set_freq zero_heap (Some 0xB00000000) 5 k = Some k' \<and> tq_inv (kc_dat k') (kc_timers k') \<and>
      base_freq (kc_dat k') = 5 \<and> last_raw (kc_dat k') = 0xB00000000 \<and> vdso_gen (kc_dat k') = vdso_gen (kc_dat k) + 2 \<and>
      ts_timers (kc_timers k') = ts_timers (kc_timers k)) \<and>
   (\<exists>k'. clock_set_slew zero_heap 5 6 7 k = Some k' \<and> tq_inv (kc_dat k') (kc_timers k') \<and>
      slew_freq (kc_dat k') = 5 \<and> slew_start (kc_dat k') = 6 \<and> slew_end (kc_dat k') = 6 + 7 \<and>
      vdso_gen (kc_dat k') = vdso_gen (kc_dat k) + 2 \<and> ts_timers (kc_timers k') = ts_timers (kc_timers k))"
  unfolding Let_def by (rule clock_set_freq_reorders) (simp add: two_timers_inv)


text \<open>Filling a priority queue and emptying it again.\<close>

fun pqueue_fill :: "ptr heap \<Rightarrow> sorter \<Rightarrow> vector \<Rightarrow> ptr list \<Rightarrow> vector option" where
  "pqueue_fill h srt v [] = Some v"
| "pqueue_fill h srt v (x # xs) = do { v' \<leftarrow> pqueue_insert h srt v x; pqueue_fill h srt v' xs }"

fun pqueue_drain :: "ptr heap \<Rightarrow> sorter \<Rightarrow> vector \<Rightarrow> nat \<Rightarrow> ptr list option" where
  "pqueue_drain h srt v 0 = Some []"
| "pqueue_drain h srt v (Suc n) = do {
     (v', x) \<leftarrow> pqueue_pop h srt v;
     xs \<leftarrow> pqueue_drain h srt v' n;
     Some (x # xs)
   }"

lemma pqueue_fill_spec:
  assumes "vector_wf v" "tqs.heap dat s (blist v)" "heap_ok h" "heap_grants h"
  shows "ensures (pqueue_fill h (tq_sort dat s) v xs) (\<lambda>v'. vector_wf v' \<and> tqs.heap dat s (blist v') \<and>
           mset (blist v') = mset (blist v) + mset xs)"
  using assms
proof (induction xs arbitrary: v)
  case (Cons x xs)
  obtain v1 where "pqueue_insert h (tq_sort dat s) v x = Some v1" "vector_wf v1" "tqs.heap dat s (blist v1)"
      "mset (blist v1) = add_mset x (mset (blist v))"
    using tqs.pqueue_insert_granted [OF Cons.prems] by (auto elim!: ensuresE)
  with Cons.IH [of v1] Cons.prems(3,4) show ?case by simp
qed simp

lemma pqueue_drain_spec:
  assumes "vector_wf v" "tqs.heap dat s (blist v)" "0 \<notin> set (blist v)" "n = length (blist v)"
  shows "ensures (pqueue_drain h (tq_sort dat s) v n) (\<lambda>xs. mset xs = mset (blist v) \<and> sorted (map (tkey dat s) xs))"
  using assms
proof (induction n arbitrary: v)
  case (Suc n)
  then have ne: "blist v \<noteq> []" by auto
  obtain v1 where v1: "pqueue_pop h (tq_sort dat s) v = Some (v1, hd (blist v))" "vector_wf v1" "tqs.heap dat s (blist v1)"
      "mset (blist v1) = mset (blist v) - {#hd (blist v)#}"
    using tqs.pqueue_pop_spec [OF Suc.prems(1,2) ne Suc.prems(3), of h] by (auto elim!: ensuresE)
  have sub: "set (blist v1) \<subseteq> set (blist v)" using v1(4) by (metis in_diffD set_mset_mset subsetI)
  have "size (mset (blist v1)) = n" using v1(4) Suc.prems(4) ne by (simp add: size_Diff_singleton)
  then have "n = length (blist v1)" by simp
  with Suc.IH [OF v1(2,3)] Suc.prems(3) sub
  obtain xs where xs: "pqueue_drain h (tq_sort dat s) v1 n = Some xs" "mset xs = mset (blist v1)" "sorted (map (tkey dat s) xs)"
    by (auto elim!: ensuresE)
  have "set xs \<subseteq> set (blist v)" using xs(2) sub by (metis mset_eq_setD)
  then have "\<forall>x \<in> set xs. tkey dat s (hd (blist v)) \<le> tkey dat s x"
    using tqs.heap_hd_least [OF Suc.prems(2)] by blast
  moreover have "add_mset (hd (blist v)) (mset xs) = mset (blist v)" using xs(2) v1(4) ne by simp
  ultimately show ?case using v1(1) xs(1,3) by simp
qed simp

text \<open>C24: The priority queue delivers in order: whatever is inserted into an empty queue of timers comes out,
  all of it, by increasing expiry.\<close>

theorem pqueue_delivers_in_order:
  assumes "vector_wf v" "blist v = []" "heap_ok h" "heap_grants h" "0 \<notin> set xs"
  shows "\<exists>v' ys. pqueue_fill h (timer_compare_simple ts) v xs = Some v' \<and>
     pqueue_drain h (timer_compare_simple ts) v' (length xs) = Some ys \<and>
     mset ys = mset xs \<and> sorted (map (\<lambda>p. t_expiry (ts p)) ys)"
proof -
  let ?s = "\<lparr>ts_timers = ts, ts_queue = \<lparr>tq_pq = v, tq_next_expiry = 0, tq_simple = True, tq_update = False\<rparr>, ts_log = []\<rparr>"
  have eq: "tq_sort steered ?s = timer_compare_simple ts" "tkey steered ?s = (\<lambda>p. t_expiry (ts p))"
    by (auto simp: tq_sort_def tkey_def timerqueue_expiry_def)
  have "tqs.heap steered ?s (blist v)" using assms(2) by (intro tqs.heapI) simp
  from pqueue_fill_spec [OF assms(1) this assms(3,4), of xs] assms(2)
  obtain v' where v': "pqueue_fill h (timer_compare_simple ts) v xs = Some v'" "vector_wf v'" "tqs.heap steered ?s (blist v')"
      "mset (blist v') = mset xs"
    unfolding eq(1) by (auto elim!: ensuresE)
  have "0 \<notin> set (blist v')" "length xs = length (blist v')"
    using v'(4) assms(5) by (metis mset_eq_setD, metis mset_eq_length)
  from pqueue_drain_spec [OF v'(2,3) this, of h] v'(1,4) show ?thesis
    unfolding eq by (auto elim!: ensuresE)
qed

theorem pqueue_delivers_in_order_witness:
  "\<exists>v' ys. pqueue_fill zero_heap (timer_compare_simple (ts_timers two_timers)) (init_buffer 1 False [0]) [16, 8] = Some v' \<and>
     pqueue_drain zero_heap (timer_compare_simple (ts_timers two_timers)) v' (length [16 :: ptr, 8]) = Some ys \<and>
     mset ys = mset [16, 8] \<and> sorted (map (\<lambda>p. t_expiry (ts_timers two_timers p)) ys)"
  by (rule pqueue_delivers_in_order) (simp_all add: vector_wf_def buffer_wf_def init_buffer_def blist_def)

end
