(* ===== verification/Rbtree.thy ===== *)
theory Rbtree
  imports Prelude
begin

text \<open>
  \<^verbatim>\<open>kernel/src/runtime/rbtree.c\<close> and \<^verbatim>\<open>rbtree.h\<close>: left-leaning red-black trees.

  A pointer to a tree node is \<open>Null\<close> or a \<open>Node\<close> with its colour, left child, payload (the object
  the \<^verbatim>\<open>rbnode\<close> is embedded in) and right child. The parent links of the C structure only repeat the
  shape of the tree (rotations update them along with the child links); the operations that follow
  them get the chain of ancestors as an argument. Every \<^verbatim>\<open>assert\<close> on the way is a failure of the
  model. The comparison closure \<^verbatim>\<open>key_compare\<close> is the argument \<open>cmp\<close>, with the contract
  \<open>rb_compare\<close>.
\<close>

datatype color = Black | Red

datatype hand = HLeft | HRight

datatype 'a rbnode = Null | Node color "'a rbnode" 'a "'a rbnode"

text \<open>The test for the null pointer computes whatever the elements are.\<close>

fun is_null :: "'a rbnode \<Rightarrow> bool" where
  "is_null Null = True"
| "is_null (Node _ _ _ _) = False"

lemma equal_Null_is_null [code_unfold]: "HOL.equal t Null \<longleftrightarrow> is_null t"
  by (cases t) (simp_all add: equal_eq)

record 'a rbtree =
  rb_root :: "'a rbnode"
  rb_count :: nat

type_synonym 'a compare = "'a \<Rightarrow> 'a \<Rightarrow> int"

fun other :: "hand \<Rightarrow> hand" where
  "other HLeft = HRight"
| "other HRight = HLeft"

fun child :: "'a rbnode \<Rightarrow> hand \<Rightarrow> 'a rbnode" where
  "child Null _ = Null"
| "child (Node c l a r) HLeft = l"
| "child (Node c l a r) HRight = r"

fun set_child :: "'a rbnode \<Rightarrow> hand \<Rightarrow> 'a rbnode \<Rightarrow> 'a rbnode" where
  "set_child Null _ _ = Null"
| "set_child (Node c l a r) HLeft x = Node c x a r"
| "set_child (Node c l a r) HRight x = Node c l a x"

fun set_color :: "'a rbnode \<Rightarrow> color \<Rightarrow> 'a rbnode" where
  "set_color Null _ = Null"
| "set_color (Node _ l a r) c = Node c l a r"

fun invert :: "color \<Rightarrow> color" where
  "invert Black = Red"
| "invert Red = Black"

fun is_red :: "'a rbnode \<Rightarrow> bool" where
  "is_red (Node Red _ _ _) = True"
| "is_red _ = False"

abbreviation is_black_or_null :: "'a rbnode \<Rightarrow> bool" where
  "is_black_or_null n \<equiv> \<not> is_red n"

fun is_leaf :: "'a rbnode \<Rightarrow> bool" where
  "is_leaf (Node _ Null _ Null) = True"
| "is_leaf _ = False"

fun elem :: "'a rbnode \<Rightarrow> 'a option" where
  "elem Null = None"
| "elem (Node _ _ a _) = Some a"

fun get_color :: "'a rbnode \<Rightarrow> color option" where
  "get_color Null = None"
| "get_color (Node c _ _ _) = Some c"

text \<open>\<^verbatim>\<open>rotate\<close>: the child on the other side takes the node's place and colour; the node turns red.\<close>

fun rotate_node :: "hand \<Rightarrow> 'a rbnode \<Rightarrow> 'a rbnode option" where
  "rotate_node HLeft (Node c l a (Node _ xh b r)) = Some (Node c (Node Red l a xh) b r)"
| "rotate_node HRight (Node c (Node _ l b xh) a r) = Some (Node c l b (Node Red xh a r))"
| "rotate_node _ _ = None"

fun color_flip :: "'a rbnode \<Rightarrow> 'a rbnode option" where
  "color_flip (Node c (Node cl ll la lr) a (Node cr rl ra rr)) =
     Some (Node (invert c) (Node (invert cl) ll la lr) a (Node (invert cr) rl ra rr))"
| "color_flip _ = None"

text \<open>\<^verbatim>\<open>find_limit\<close>: the leftmost, or with \<^verbatim>\<open>max\<close> the rightmost, node below a node.\<close>

fun find_limit :: "'a rbnode \<Rightarrow> bool \<Rightarrow> 'a option" where
  "find_limit Null mx = None"
| "find_limit (Node c l a r) mx =
     (if (if mx then r else l) = Null then Some a else find_limit (if mx then r else l) mx)"

definition rbtree_find_first :: "'a rbtree \<Rightarrow> 'a option" where
  "rbtree_find_first t = (if rb_root t = Null then None else find_limit (rb_root t) False)"

text \<open>
  A position in a tree: the node and its ancestors from the parent up, each with the side on which
  the position lies below it. \<open>locate\<close> finds the position of a node that is in the tree.
\<close>

type_synonym 'a position = "'a rbnode \<times> (hand \<times> 'a) list"

fun locate :: "'a compare \<Rightarrow> 'a rbnode \<Rightarrow> 'a \<Rightarrow> (hand \<times> 'a) list \<Rightarrow> 'a position option" where
  "locate cmp Null n up = None"
| "locate cmp (Node c l a r) n up =
     (if cmp n a = 0 then Some (Node c l a r, up)
      else if cmp n a < 0 then locate cmp l n ((HLeft, a) # up)
      else locate cmp r n ((HRight, a) # up))"

fun find_ancestor_of_hand :: "(hand \<times> 'a) list \<Rightarrow> hand \<Rightarrow> 'a option" where
  "find_ancestor_of_hand [] hand = None"
| "find_ancestor_of_hand ((side, p) # up) hand =
     (if side = other hand then Some p else find_ancestor_of_hand up hand)"

fun get_adjacent_inorder :: "'a position \<Rightarrow> hand \<Rightarrow> 'a option" where
  "get_adjacent_inorder (h, up) hand =
     (let hh = child h hand in
      if hh \<noteq> Null then find_limit hh (hand = HLeft) else find_ancestor_of_hand up hand)"

definition rbnode_get_next :: "'a compare \<Rightarrow> 'a rbtree \<Rightarrow> 'a \<Rightarrow> 'a option" where
  "rbnode_get_next cmp t n =
     Option.bind (locate cmp (rb_root t) n []) (\<lambda>p. get_adjacent_inorder p HRight)"

definition rbnode_get_prev :: "'a compare \<Rightarrow> 'a rbtree \<Rightarrow> 'a \<Rightarrow> 'a option" where
  "rbnode_get_prev cmp t n =
     Option.bind (locate cmp (rb_root t) n []) (\<lambda>p. get_adjacent_inorder p HLeft)"

fun lookup_loop :: "'a compare \<Rightarrow> 'a rbnode \<Rightarrow> 'a \<Rightarrow> 'a option" where
  "lookup_loop cmp Null k = None"
| "lookup_loop cmp (Node c l a r) k =
     (let d = cmp k a in
      if d = 0 then Some a else lookup_loop cmp (if d < 0 then l else r) k)"

definition rbtree_lookup :: "'a compare \<Rightarrow> 'a rbtree \<Rightarrow> 'a \<Rightarrow> 'a option" where
  "rbtree_lookup cmp t k = lookup_loop cmp (rb_root t) k"

fun max_lte_internal :: "'a compare \<Rightarrow> 'a rbnode \<Rightarrow> 'a \<Rightarrow> 'a option" where
  "max_lte_internal cmp Null k = None"
| "max_lte_internal cmp (Node c l a r) k =
     (let d = cmp k a in
      if d = 0 then Some a
      else if d > 0 then
        (if r = Null then Some a
         else case max_lte_internal cmp r k of
                None \<Rightarrow> Some a
              | Some next \<Rightarrow> if cmp next k > 0 then Some a else Some next)
      else if l = Null then None else max_lte_internal cmp l k)"

definition rbtree_lookup_max_lte :: "'a compare \<Rightarrow> 'a rbtree \<Rightarrow> 'a \<Rightarrow> 'a option" where
  "rbtree_lookup_max_lte cmp t k =
     (if rb_root t = Null then None else max_lte_internal cmp (rb_root t) k)"

definition check_move_red :: "'a rbnode \<Rightarrow> hand \<Rightarrow> 'a rbnode option" where
  "check_move_red h hand =
     (let hh = child h hand in
      if hh = Null \<or> (\<not> is_red hh \<and> is_black_or_null (child hh HLeft)) then do {
        h \<leftarrow> color_flip h;
        let ho = child h (other hand);
        if ho = Null \<or> is_black_or_null (child ho HLeft) then Some h
        else do {
          h \<leftarrow> (if hand = HLeft then do {
                    r \<leftarrow> rotate_node HRight (child h HRight);
                    Some (set_child h HRight r)
                  } else Some h);
          h \<leftarrow> rotate_node hand h;
          color_flip h
        }
      } else Some h)"

definition fix_up :: "'a rbnode \<Rightarrow> 'a rbnode option" where
  "fix_up h = do {
     h \<leftarrow> (if is_black_or_null (child h HLeft) \<and> is_red (child h HRight)
           then rotate_node HLeft h else Some h);
     h \<leftarrow> (if is_red (child h HLeft) \<and> is_red (child (child h HLeft) HLeft)
           then rotate_node HRight h else Some h);
     if is_red (child h HLeft) \<and> is_red (child h HRight) then color_flip h else Some h
   }"

lemma size_rotate: "rotate_node hand h = Some h' \<Longrightarrow> size h' = size h"
  by (cases "(hand, h)" rule: rotate_node.cases) auto

lemma size_color_flip: "color_flip h = Some h' \<Longrightarrow> size h' = size h"
  by (cases h rule: color_flip.cases) auto

lemma size_set_child: "size (set_child h hand x) + size (child h hand) = size h + size x \<or> h = Null"
  by (cases "(h, hand, x)" rule: set_child.cases) auto

lemma size_set_child_eq:
  "size r' = size (child h hand) \<Longrightarrow> child h hand \<noteq> Null \<Longrightarrow> size (set_child h hand r') = size h"
  using size_set_child [of h hand r'] by auto

lemma size_check_move_red: "check_move_red h hand = Some h' \<Longrightarrow> size h' = size h"
  by (auto simp: check_move_red_def Let_def bind_eq_Some_conv size_set_child_eq split: if_splits
      dest!: size_rotate size_color_flip)

lemma size_child: "h \<noteq> Null \<Longrightarrow> size (child h hand) < size h"
  by (cases "(h, hand)" rule: child.cases) auto

lemma size_child_moved:
  "check_move_red h hand = Some h' \<Longrightarrow> h \<noteq> Null \<Longrightarrow> size (child h' hand') < size h"
  using size_child [of h' hand'] size_check_move_red [of h hand h'] by (cases h'; cases h) auto

lemma size_child_moved_rotated:
  "check_move_red h hand = Some h' \<Longrightarrow> rotate_node hand'' (Node c l a r) = Some h \<Longrightarrow>
   size (child h' hand') < Suc (size l + size r)"
  using size_child_moved [of h hand h' hand'] size_rotate [of hand'' "Node c l a r" h]
  by (cases h) auto

text \<open>\<^verbatim>\<open>remove_min\<close> returns the tree left over and the removed node's payload.\<close>

function remove_min :: "'a rbnode \<Rightarrow> ('a rbnode \<times> 'a) option" where
  "remove_min Null = None"
| "remove_min (Node c l a r) =
     (if l = Null then Some (Null, a)
      else do {
        h \<leftarrow> check_move_red (Node c l a r) HLeft;
        (l', removed) \<leftarrow> remove_min (child h HLeft);
        h \<leftarrow> fix_up (set_child h HLeft l');
        Some (h, removed)
      })"
  by pat_completeness auto
termination
  by (relation "measure size") (auto dest: size_child_moved)

text \<open>\<^verbatim>\<open>remove_internal\<close> returns the new subtree and the flag \<^verbatim>\<open>result\<close>.\<close>

function remove_internal :: "'a compare \<Rightarrow> 'a rbnode \<Rightarrow> 'a \<Rightarrow> ('a rbnode \<times> bool) option" where
  "remove_internal cmp Null k = Some (Null, False)"
| "remove_internal cmp (Node c l a r) k =
     (if cmp k a < 0 then
        (if l = Null then Some (Node c l a r, False)
         else do {
           h \<leftarrow> check_move_red (Node c l a r) HLeft;
           (l', result) \<leftarrow> remove_internal cmp (child h HLeft) k;
           h \<leftarrow> fix_up (set_child h HLeft l');
           Some (h, result)
         })
      else if cmp k a > 0 \<and> r = Null then Some (Node c l a r, False)
      else do {
        h \<leftarrow> (if is_red l then rotate_node HRight (Node c l a r) else Some (Node c l a r));
        x \<leftarrow> elem h;
        if cmp k x = 0 \<and> is_leaf h then Some (Null, True)
        else do {
          h \<leftarrow> check_move_red h HRight;
          y \<leftarrow> elem h;
          if cmp k y \<noteq> 0 then
            (if child h HRight = Null then Some (h, False)
             else do {
               (r', result) \<leftarrow> remove_internal cmp (child h HRight) k;
               h \<leftarrow> fix_up (set_child h HRight r');
               Some (h, result)
             })
          else if child h HRight = Null then None
          else do {
            (rnew, rmin) \<leftarrow> remove_min (child h HRight);
            col \<leftarrow> get_color h;
            h \<leftarrow> fix_up (Node col (child h HLeft) rmin rnew);
            Some (h, True)
          }
        }
      })"
  by pat_completeness auto
termination
  by (relation "measure (\<lambda>(cmp, h, k). size h)")
     (auto dest: size_child_moved size_child_moved_rotated split: if_splits)

definition rbtree_remove_by_key :: "'a compare \<Rightarrow> 'a rbtree \<Rightarrow> 'a \<Rightarrow> ('a rbtree \<times> bool) option" where
  "rbtree_remove_by_key cmp t k = do {
     (root, result) \<leftarrow> remove_internal cmp (rb_root t) k;
     let root = (if root \<noteq> Null then set_color root Black else root);
     if result then
       (if rb_count t > 0 then Some (\<lparr>rb_root = root, rb_count = rb_count t - 1\<rparr>, True) else None)
     else Some (\<lparr>rb_root = root, rb_count = rb_count t\<rparr>, False)
   }"

definition rbtree_remove_node :: "'a compare \<Rightarrow> 'a rbtree \<Rightarrow> 'a \<Rightarrow> 'a rbtree option" where
  "rbtree_remove_node cmp t n = do {
     (t', ok) \<leftarrow> rbtree_remove_by_key cmp t n;
     if ok then Some t' else None
   }"

fun insert_node_internal :: "'a compare \<Rightarrow> 'a rbnode \<Rightarrow> 'a \<Rightarrow> ('a rbnode \<times> bool) option" where
  "insert_node_internal cmp Null n = None"
| "insert_node_internal cmp (Node c l a r) n = do {
     (h, result) \<leftarrow>
       (if cmp n a < 0 then
          (if l = Null then Some (Node c (Node Red Null n Null) a r, True)
           else do {
             (l', result) \<leftarrow> insert_node_internal cmp l n;
             Some (Node c l' a r, result)
           })
        else if cmp n a > 0 then
          (if r = Null then Some (Node c l a (Node Red Null n Null), True)
           else do {
             (r', result) \<leftarrow> insert_node_internal cmp r n;
             Some (Node c l a r', result)
           })
        else Some (Node c l a r, False));
     h \<leftarrow> fix_up h;
     Some (h, result)
   }"

definition rbtree_insert_node :: "'a compare \<Rightarrow> 'a rbtree \<Rightarrow> 'a \<Rightarrow> ('a rbtree \<times> bool) option" where
  "rbtree_insert_node cmp t n = do {
     (root, result) \<leftarrow>
       (if rb_root t = Null then Some (Node Black Null n Null, True)
        else insert_node_internal cmp (rb_root t) n);
     Some (\<lparr>rb_root = set_color root Black,
            rb_count = (if result then rb_count t + 1 else rb_count t)\<rparr>, result)
   }"

definition init_rbtree :: "'a rbtree" where
  "init_rbtree = \<lparr>rb_root = Null, rb_count = 0\<rparr>"

text \<open>Traversals: the handler updates a state and says whether to go on.\<close>

type_synonym ('a, 's) rbnode_handler = "'a \<Rightarrow> 's \<Rightarrow> 's \<times> bool"

fun traverse_inorder :: "'a rbnode \<Rightarrow> ('a, 's) rbnode_handler \<Rightarrow> 's \<Rightarrow> 's \<times> bool" where
  "traverse_inorder Null rh s = (s, True)"
| "traverse_inorder (Node c l a r) rh s =
     (let (s1, ok) = traverse_inorder l rh s in
      if \<not> ok then (s1, False)
      else let (s2, ok2) = rh a s1 in
           if \<not> ok2 then (s2, False) else traverse_inorder r rh s2)"

fun traverse_preorder :: "'a rbnode \<Rightarrow> ('a, 's) rbnode_handler \<Rightarrow> 's \<Rightarrow> 's \<times> bool" where
  "traverse_preorder Null rh s = (s, True)"
| "traverse_preorder (Node c l a r) rh s =
     (let (s1, ok) = rh a s in
      if \<not> ok then (s1, False)
      else let (s2, ok2) = traverse_preorder l rh s1 in
           if \<not> ok2 then (s2, False) else traverse_preorder r rh s2)"

fun traverse_postorder :: "'a rbnode \<Rightarrow> ('a, 's) rbnode_handler \<Rightarrow> 's \<Rightarrow> 's \<times> bool" where
  "traverse_postorder Null rh s = (s, True)"
| "traverse_postorder (Node c l a r) rh s =
     (let (s1, ok) = traverse_postorder l rh s in
      if \<not> ok then (s1, False)
      else let (s2, ok2) = traverse_postorder r rh s1 in
           if \<not> ok2 then (s2, False) else rh a s2)"

definition destruct_rbtree :: "'a rbtree \<Rightarrow> ('a, 's) rbnode_handler \<Rightarrow> 's \<Rightarrow> 'a rbtree \<times> 's" where
  "destruct_rbtree t destructor s =
     (t\<lparr>rb_root := Null\<rparr>, fst (traverse_postorder (rb_root t) destructor s))"

text \<open>
  \<^verbatim>\<open>validate_tree_invariants\<close>: the status is \<open>None\<close> for \<^verbatim>\<open>STATUS_OK\<close>; \<^verbatim>\<open>black_count\<close> is \<open>None\<close> until the
  first leaf sets it (the C code uses \<open>-1\<close>).
\<close>

datatype rb_error = Black_count_mismatch | Right_leaning | Both_red | Prev_mismatch | Next_mismatch
  | First_has_prev | Last_has_next

definition parent_child_check :: "'a rbnode \<Rightarrow> hand \<Rightarrow> rb_error option" where
  "parent_child_check p hand =
     (let c = child p hand in
      if c = Null then None else if is_red p \<and> is_red c then Some Both_red else None)"

fun validate_tree_invariants ::
    "'a rbnode \<Rightarrow> nat \<Rightarrow> nat option \<Rightarrow> rb_error option \<times> nat option" where
  "validate_tree_invariants Null black_links black_count = (None, black_count)"
| "validate_tree_invariants (Node c l a r) black_links black_count =
     (if l = Null \<and> r = Null then
        (case black_count of
           Some n \<Rightarrow> (if n \<noteq> black_links then Some Black_count_mismatch else None, black_count)
         | None \<Rightarrow> (None, Some black_links))
      else if is_black_or_null l \<and> r \<noteq> Null \<and> is_red r then (Some Right_leaning, black_count)
      else case parent_child_check (Node c l a r) HLeft of
        Some e \<Rightarrow> (Some e, black_count)
      | None \<Rightarrow>
          (case parent_child_check (Node c l a r) HRight of
             Some e \<Rightarrow> (Some e, black_count)
           | None \<Rightarrow>
               (let (s, bc) =
                  (if l \<noteq> Null then
                     validate_tree_invariants l (black_links + (if is_red l then 0 else 1)) black_count
                   else (None, black_count))
                in if s = None \<and> r \<noteq> Null then
                     validate_tree_invariants r (black_links + (if is_red r then 0 else 1)) bc
                   else (s, bc))))"

text \<open>\<^verbatim>\<open>test_inorder_node\<close>: the closure's bound \<^verbatim>\<open>last\<close> and \<^verbatim>\<open>result\<close> are its state.\<close>

definition test_inorder_node ::
    "'a compare \<Rightarrow> 'a rbtree \<Rightarrow> ('a, 'a option \<times> rb_error option) rbnode_handler" where
  "test_inorder_node cmp t n s =
     (let (lst, result) = s; prev = rbnode_get_prev cmp t n in
      case lst of
        Some m \<Rightarrow>
          (if prev \<noteq> Some m then ((lst, Some Prev_mismatch), False)
           else if rbnode_get_next cmp t m \<noteq> Some n then ((lst, Some Next_mismatch), False)
           else ((Some n, result), True))
      | None \<Rightarrow>
          (if prev \<noteq> None then ((lst, Some First_has_prev), False) else ((Some n, result), True)))"

definition test_inorder :: "'a compare \<Rightarrow> 'a rbtree \<Rightarrow> rb_error option" where
  "test_inorder cmp t =
     (let ((lst, result), _) = traverse_inorder (rb_root t) (test_inorder_node cmp t) (None, None) in
      if result = None then
        (case lst of
           Some m \<Rightarrow> (if rbnode_get_next cmp t m \<noteq> None then Some Last_has_next else None)
         | None \<Rightarrow> None)
      else result)"

definition rbtree_validate :: "'a compare \<Rightarrow> 'a rbtree \<Rightarrow> rb_error option" where
  "rbtree_validate cmp t =
     (case fst (validate_tree_invariants (rb_root t) 0 None) of
        Some e \<Rightarrow> Some e
      | None \<Rightarrow> test_inorder cmp t)"

subsection \<open>Structure\<close>

fun inorder :: "'a rbnode \<Rightarrow> 'a list" where
  "inorder Null = []"
| "inorder (Node c l a r) = inorder l @ a # inorder r"

fun bheight :: "'a rbnode \<Rightarrow> nat" where
  "bheight Null = 0"
| "bheight (Node c l a r) = (if c = Black then 1 else 0) + bheight l"

fun llrb :: "'a rbnode \<Rightarrow> bool" where
  "llrb Null = True"
| "llrb (Node c l a r) \<longleftrightarrow>
     \<not> is_red r \<and> (c = Red \<longrightarrow> \<not> is_red l) \<and> bheight l = bheight r \<and> llrb l \<and> llrb r"

text \<open>
  What holds of a tree whose root may have any colour, and what a removal does to it: the root's
  colour is never looked at, so \<open>del_ok\<close> is relative to it. A removal that goes to the right may
  pass through a node whose red child is on the right (\<open>lean\<close>).
\<close>

fun preorder :: "'a rbnode \<Rightarrow> 'a list" where
  "preorder Null = []"
| "preorder (Node c l a r) = a # preorder l @ preorder r"

fun postorder :: "'a rbnode \<Rightarrow> 'a list" where
  "postorder Null = []"
| "postorder (Node c l a r) = postorder l @ postorder r @ [a]"

fun fold_until :: "('a, 's) rbnode_handler \<Rightarrow> 'a list \<Rightarrow> 's \<Rightarrow> 's \<times> bool" where
  "fold_until rh [] s = (s, True)"
| "fold_until rh (x # xs) s = (let (s', ok) = rh x s in if ok then fold_until rh xs s' else (s', False))"

definition hd_opt :: "'a list \<Rightarrow> 'a option" where
  "hd_opt xs = (case xs of [] \<Rightarrow> None | x # _ \<Rightarrow> Some x)"

definition last_opt :: "'a list \<Rightarrow> 'a option" where
  "last_opt xs = (if xs = [] then None else Some (List.last xs))"

fun body :: "'a rbnode \<Rightarrow> bool" where
  "body Null = False"
| "body (Node c l a r) \<longleftrightarrow> \<not> (is_red l \<and> is_red r) \<and> bheight l = bheight r \<and> llrb l \<and> llrb r"

abbreviation lean :: "'a rbnode \<Rightarrow> bool" where
  "lean h \<equiv> is_red (child h HRight)"

abbreviation three_node :: "'a rbnode \<Rightarrow> bool" where
  "three_node h \<equiv> is_red (child h HLeft) \<or> lean h"

definition prepared :: "'a rbnode \<Rightarrow> bool" where
  "prepared h \<longleftrightarrow> body h \<and> (is_red h \<longleftrightarrow> \<not> three_node h)"

fun del_ok :: "'a rbnode \<Rightarrow> 'a rbnode \<Rightarrow> bool" where
  "del_ok Null h' = False"
| "del_ok (Node c l a r) Null \<longleftrightarrow> l = Null \<and> r = Null"
| "del_ok (Node c l a r) (Node c' l' a' r') \<longleftrightarrow>
     body (Node c' l' a' r') \<and> \<not> is_red r' \<and>
     (if is_red l \<or> is_red r then c' = c \<and> bheight l' = bheight l
      else (c' = c \<and> bheight l' = bheight l \<and> \<not> is_red l') \<or>
           (c' \<noteq> c \<and> Suc (bheight l') = bheight l))"

lemma is_red_iff: "is_red h \<longleftrightarrow> (\<exists>l a r. h = Node Red l a r)"
  by (cases h rule: is_red.cases) auto

lemma color_neq [simp]: "c \<noteq> Black \<longleftrightarrow> c = Red" "c \<noteq> Red \<longleftrightarrow> c = Black"
  by (cases c; simp)+

lemma is_red_Node [simp]: "is_red (Node c l a r) \<longleftrightarrow> c = Red"
  by (cases c) auto

lemma invert_neq [simp]: "invert c \<noteq> c" "c \<noteq> invert c" "invert (invert c) = c"
  by (cases c; simp)+

lemma llrb_body: "llrb h \<Longrightarrow> h \<noteq> Null \<Longrightarrow> body h \<and> \<not> lean h"
  by (cases h) auto

lemma del_ok_prepared:
  assumes "prepared h" "del_ok h h'"
  shows "llrb h'" "bheight h' = bheight h" "is_red h' \<Longrightarrow> is_red h"
proof -
  obtain c l a r where h: "h = Node c l a r" using assms(2) by (cases h) auto
  have "llrb h' \<and> bheight h' = bheight h \<and> (is_red h' \<longrightarrow> is_red h)"
    using assms h by (cases h'; cases c) (auto simp: prepared_def split: if_splits)
  then show "llrb h'" "bheight h' = bheight h" "is_red h' \<Longrightarrow> is_red h" by auto
qed

fun set_elem :: "'a rbnode \<Rightarrow> 'a \<Rightarrow> 'a rbnode" where
  "set_elem Null e = Null"
| "set_elem (Node c l a r) e = Node c l e r"

text \<open>The three shapes \<^verbatim>\<open>fix_up\<close> meets on the way back from a removal, and the fourth of an insertion.\<close>

lemma fix_up_same:
  "\<not> is_red r \<Longrightarrow> \<not> is_red l \<or> \<not> is_red (child l HLeft) \<Longrightarrow>
   fix_up (Node c l a r) = Some (Node c l a r)"
  by (auto simp: fix_up_def)

lemma fix_up_flip:
  "\<not> is_red ll \<Longrightarrow>
   fix_up (Node c (Node Red ll la lr) a (Node Red rl ra rr)) =
   Some (Node (invert c) (Node Black ll la lr) a (Node Black rl ra rr))"
  by (auto simp: fix_up_def)

lemma fix_up_rotate:
  "\<not> is_red l \<Longrightarrow> \<not> is_red rr \<Longrightarrow>
   fix_up (Node c l a (Node Red rl b rr)) = Some (Node c (Node Red l a rl) b rr)"
  by (auto simp: fix_up_def)

lemma fix_up_split:
  "\<not> is_red r \<Longrightarrow>
   fix_up (Node c (Node Red (Node Red l1 a1 r1) a2 r2) a r) =
   Some (Node (invert c) (Node Black l1 a1 r1) a2 (Node Black r2 a r))"
  by (auto simp: fix_up_def)

text \<open>One step of a descent: the child is prepared, and putting back any result of removing from
  it and fixing up is a removal from the whole.\<close>

definition descend :: "hand \<Rightarrow> 'a rbnode \<Rightarrow> 'a rbnode \<Rightarrow> bool" where
  "descend hand h h1 \<longleftrightarrow>
     prepared (child h1 hand) \<and>
     (\<forall>x e. llrb x \<and> bheight x = bheight (child h1 hand) \<and> (is_red x \<longrightarrow> is_red (child h1 hand)) \<longrightarrow>
        ensures (fix_up (set_elem (set_child h1 hand x) e)) (del_ok h))"

lemma descend_put_elem:
  assumes "descend hand h h1" "del_ok (child h1 hand) x"
  shows "ensures (fix_up (set_elem (set_child h1 hand x) e)) (del_ok h)"
  using assms del_ok_prepared [of "child h1 hand" x] by (auto simp: descend_def)

lemma descend_put:
  assumes "descend hand h h1" "del_ok (child h1 hand) x"
  shows "ensures (fix_up (set_child h1 hand x)) (del_ok h)"
proof -
  obtain c l a r where "h1 = Node c l a r" using assms(2) by (cases h1) auto
  then show ?thesis using descend_put_elem [OF assms, of a] by (cases hand) auto
qed

lemma descend_left_unmoved:
  assumes "body (Node c l a r)" "\<not> is_red r" "prepared l"
  shows "descend HLeft (Node c l a r) (Node c l a r)"
  unfolding descend_def
proof (intro conjI allI impI)
  show "prepared (child (Node c l a r) HLeft)" using assms by simp
  fix x :: "'a rbnode" and e :: 'a
  assume x: "llrb x \<and> bheight x = bheight (child (Node c l a r) HLeft) \<and>
    (is_red x \<longrightarrow> is_red (child (Node c l a r) HLeft))"
  then have "is_red x \<Longrightarrow> \<not> is_red (child x HLeft)" by (cases x) auto
  with x assms show "ensures (fix_up (set_elem (set_child (Node c l a r) HLeft x) e)) (del_ok (Node c l a r))"
    by (auto simp: fix_up_same)
qed

lemma llrb_red_cases:
  assumes "llrb x"
  obtains "\<not> is_red x"
    | xl xa xr where "x = Node Red xl xa xr" "\<not> is_red xl" "\<not> is_red xr" "llrb xl" "llrb xr"
        "bheight xl = bheight xr" "bheight x = bheight xl"
proof (cases "is_red x")
  case True
  then obtain xl xa xr where "x = Node Red xl xa xr" by (auto simp: is_red_iff)
  with assms that(2) show ?thesis by auto
qed (use that in auto)

lemma descend_left_flip:
  assumes wf: "llrb ll" "llrb lr" "llrb rl" "llrb rr" "\<not> is_red ll" "\<not> is_red lr" "\<not> is_red rl"
    "\<not> is_red rr" "bheight ll = bheight lr" "bheight rl = bheight rr" "bheight ll = bheight rl"
  shows "descend HLeft (Node c (Node Black ll al lr) a (Node Black rl b rr))
           (Node (invert c) (Node Red ll al lr) a (Node Red rl b rr))"
  unfolding descend_def
proof (intro conjI allI impI)
  fix x :: "'a rbnode" and e :: 'a
  assume x: "llrb x \<and> bheight x = bheight (child (Node (invert c) (Node Red ll al lr) a (Node Red rl b rr)) HLeft)
    \<and> (is_red x \<longrightarrow> is_red (child (Node (invert c) (Node Red ll al lr) a (Node Red rl b rr)) HLeft))"
  then have "llrb x" by simp
  then show "ensures (fix_up (set_elem (set_child (Node (invert c) (Node Red ll al lr) a (Node Red rl b rr)) HLeft x) e))
    (del_ok (Node c (Node Black ll al lr) a (Node Black rl b rr)))"
    using wf x by (cases rule: llrb_red_cases) (simp_all add: fix_up_rotate fix_up_flip)
qed (use wf in \<open>simp add: prepared_def\<close>)

lemma check_move_red_left:
  assumes "body h" "\<not> lean h" "child h HLeft \<noteq> Null"
  shows "ensures (check_move_red h HLeft) (\<lambda>h1. descend HLeft h h1 \<and> \<not> lean (child h1 HLeft))"
proof -
  obtain c l a r where h: "h = Node c l a r" using assms(1) by (cases h) auto
  obtain cl ll al lr where l: "l = Node cl ll al lr" using assms(3) h by (cases l) auto
  show ?thesis
  proof (cases "is_red l \<or> is_red ll")
    case True
    then have "check_move_red h HLeft = Some h" using h l by (auto simp: check_move_red_def)
    moreover have "prepared l" "\<not> lean l" using True assms h l by (auto simp: prepared_def)
    ultimately show ?thesis
      using assms h descend_left_unmoved [of c l a r] by simp
  next
    case False
    then obtain rl b rr where r: "r = Node Black rl b rr" using assms h l by (cases r) auto
    have wf: "llrb ll" "llrb lr" "llrb rl" "llrb rr" "\<not> is_red ll" "\<not> is_red lr" "\<not> is_red rr"
      "bheight ll = bheight lr" "bheight rl = bheight rr" "bheight ll = bheight rl" "cl = Black"
      using assms False h l r by auto
    show ?thesis
    proof (cases rl)
      case (Node cr rll d rlr)
      show ?thesis
      proof (cases cr)
        case Red
        then have "check_move_red h HLeft =
          Some (Node c (Node Black (Node Red ll al lr) a rll) d (Node Black rlr b rr))"
          using h l r Node wf by (simp add: check_move_red_def)
        then show ?thesis
          using h l r Node Red wf
          by (auto simp: descend_def prepared_def fix_up_same)
      next
        case Black
        with Node show ?thesis using h l r wf descend_left_flip [of ll lr rl rr c al a b]
          by (simp add: check_move_red_def)
      qed
    next
      case Null
      with h l r wf descend_left_flip [of ll lr rl rr c al a b] show ?thesis
        by (simp add: check_move_red_def)
    qed
  qed
qed

lemma descend_right_unmoved:
  assumes "body (Node c l a r)" "\<not> is_red l" "prepared r"
  shows "descend HRight (Node c l a r) (Node c l a r)"
  unfolding descend_def
proof (intro conjI allI impI)
  fix x :: "'a rbnode" and e :: 'a
  assume x: "llrb x \<and> bheight x = bheight (child (Node c l a r) HRight) \<and>
    (is_red x \<longrightarrow> is_red (child (Node c l a r) HRight))"
  then have "llrb x" by simp
  then show "ensures (fix_up (set_elem (set_child (Node c l a r) HRight x) e)) (del_ok (Node c l a r))"
    using x assms by (cases rule: llrb_red_cases) (auto simp: fix_up_same fix_up_rotate)
qed (use assms in simp)

lemma descend_right_rotated:
  assumes "body (Node c (Node Red ll al lr) a r)"
  shows "descend HRight (Node c (Node Red ll al lr) a r) (Node c ll al (Node Red lr a r))"
  unfolding descend_def
proof (intro conjI allI impI)
  fix x :: "'a rbnode" and e :: 'a
  assume x: "llrb x \<and> bheight x = bheight (child (Node c ll al (Node Red lr a r)) HRight) \<and>
    (is_red x \<longrightarrow> is_red (child (Node c ll al (Node Red lr a r)) HRight))"
  then have "llrb x" by simp
  then show "ensures (fix_up (set_elem (set_child (Node c ll al (Node Red lr a r)) HRight x) e))
      (del_ok (Node c (Node Red ll al lr) a r))"
    using x assms by (cases rule: llrb_red_cases) (auto simp: fix_up_same fix_up_rotate)
qed (use assms in \<open>auto simp: prepared_def\<close>)

lemma descend_right_flip:
  assumes wf: "llrb ll" "llrb lr" "llrb rl" "llrb rr" "\<not> is_red ll" "\<not> is_red lr" "\<not> is_red rl"
    "\<not> is_red rr" "bheight ll = bheight lr" "bheight rl = bheight rr" "bheight ll = bheight rl"
  shows "descend HRight (Node c (Node Black ll al lr) a (Node Black rl b rr))
           (Node (invert c) (Node Red ll al lr) a (Node Red rl b rr))"
  unfolding descend_def
proof (intro conjI allI impI)
  fix x :: "'a rbnode" and e :: 'a
  assume x: "llrb x \<and> bheight x = bheight (child (Node (invert c) (Node Red ll al lr) a (Node Red rl b rr)) HRight)
    \<and> (is_red x \<longrightarrow> is_red (child (Node (invert c) (Node Red ll al lr) a (Node Red rl b rr)) HRight))"
  then have "llrb x" by simp
  then show "ensures (fix_up (set_elem (set_child (Node (invert c) (Node Red ll al lr) a (Node Red rl b rr)) HRight x) e))
    (del_ok (Node c (Node Black ll al lr) a (Node Black rl b rr)))"
    using wf x by (cases rule: llrb_red_cases) (simp_all add: fix_up_same fix_up_flip)
qed (use wf in \<open>simp add: prepared_def\<close>)

text \<open>The red left grandchild moves up and the removal goes on in a node that leans to the right;
  its element is the root's.\<close>

lemma descend_right_lean:
  assumes wf: "llrb (Node Red ll al lr)" "llrb lr'" "llrb rl" "llrb rr" "\<not> is_red lr'" "\<not> is_red rl"
    "\<not> is_red rr" "bheight ll = bheight lr'" "bheight rl = bheight rr" "bheight ll = bheight rl"
  shows "descend HRight (Node c (Node Black (Node Red ll al lr) d lr') a (Node Black rl b rr))
           (Node c (Node Black ll al lr) d (Node Black lr' a (Node Red rl b rr)))"
  using wf by (auto simp: descend_def prepared_def fix_up_same)

lemma check_move_red_right:
  assumes "body h" "\<not> is_red (child h HLeft)" "child h HRight \<noteq> Null"
  shows "ensures (check_move_red h HRight) (\<lambda>h1. descend HRight h h1 \<and>
           (lean (child h1 HRight) \<longrightarrow> elem (child h1 HRight) = elem h))"
proof -
  obtain c l a r where h: "h = Node c l a r" using assms(1) by (cases h) auto
  obtain cr rl b rr where r: "r = Node cr rl b rr" using assms(3) h by (cases r) auto
  show ?thesis
  proof (cases "is_red r \<or> is_red rl")
    case True
    then have "check_move_red h HRight = Some h" using h r by (auto simp: check_move_red_def)
    moreover have "prepared r" "\<not> lean r" using True assms h r by (auto simp: prepared_def)
    ultimately show ?thesis
      using assms h descend_right_unmoved [of c l a r] by simp
  next
    case False
    then obtain ll d lr where l: "l = Node Black ll d lr" using assms h r by (cases l) auto
    have wf: "llrb ll" "llrb lr" "llrb rl" "llrb rr" "\<not> is_red lr" "\<not> is_red rl" "\<not> is_red rr"
      "bheight ll = bheight lr" "bheight rl = bheight rr" "bheight ll = bheight rl" "cr = Black"
      using assms False h l r by auto
    show ?thesis
    proof (cases "is_red ll")
      case True
      then obtain lll e llr where ll: "ll = Node Red lll e llr" by (auto simp: is_red_iff)
      then have "check_move_red h HRight =
          Some (Node c (Node Black lll e llr) d (Node Black lr a (Node Red rl b rr)))"
        using h l r wf by (simp add: check_move_red_def)
      then show ?thesis
        using h l r ll wf descend_right_lean [of lll e llr lr rl rr c d a b] by simp
    next
      case ll: False
      then show ?thesis
        using h l r wf descend_right_flip [of ll lr rl rr c d a b] by (simp add: check_move_red_def)
    qed
  qed
qed

lemma inorder_rotate_node: "rotate_node hand h = Some h' \<Longrightarrow> inorder h' = inorder h"
  by (cases h; cases hand; cases "child h (other hand)") auto

lemma inorder_color_flip: "color_flip h = Some h' \<Longrightarrow> inorder h' = inorder h"
  by (cases h; cases "child h HLeft"; cases "child h HRight") auto

lemma inorder_set_child:
  "inorder x = inorder (child h hand) \<Longrightarrow> inorder (set_child h hand x) = inorder h"
  by (cases h; cases hand) auto

lemma inorder_check_move_red: "check_move_red h hand = Some h' \<Longrightarrow> inorder h' = inorder h"
  unfolding check_move_red_def
  by (auto simp: Let_def inorder_set_child dest!: inorder_color_flip inorder_rotate_node
      split: if_splits bind_splits)

lemma inorder_fix_up: "fix_up h = Some h' \<Longrightarrow> inorder h' = inorder h"
  unfolding fix_up_def
  by (auto dest!: inorder_color_flip inorder_rotate_node split: if_splits bind_splits)

lemma remove_min_spec:
  assumes "body h" "\<not> lean h"
  shows "ensures (remove_min h) (\<lambda>(h', m). del_ok h h' \<and> inorder h = m # inorder h')"
  using assms
proof (induction h rule: remove_min.induct)
  case (2 c l a r)
  show ?case
  proof (cases "l = Null")
    case True
    moreover from True 2 have "r = Null" by (cases r) auto
    ultimately show ?thesis by simp
  next
    case False
    with 2 obtain h1 where h1: "check_move_red (Node c l a r) HLeft = Some h1"
      "descend HLeft (Node c l a r) h1" "\<not> lean (child h1 HLeft)"
      using check_move_red_left [of "Node c l a r"] by (auto elim!: ensuresE)
    then have "prepared (child h1 HLeft)" by (simp add: descend_def)
    with "2.IH" [OF False h1(1)] h1 obtain l' m where
      l': "remove_min (child h1 HLeft) = Some (l', m)" "del_ok (child h1 HLeft) l'"
        "inorder (child h1 HLeft) = m # inorder l'"
      by (auto simp: prepared_def elim!: ensuresE)
    obtain c1 l1 a1 r1 where n: "h1 = Node c1 l1 a1 r1"
      using l'(2) by (cases h1) auto
    obtain h2 where h2: "fix_up (set_child h1 HLeft l') = Some h2" "del_ok (Node c l a r) h2"
      using descend_put [OF h1(2) l'(2)] by (auto elim!: ensuresE)
    have "inorder h2 = inorder l' @ a1 # inorder r1" using inorder_fix_up [OF h2(1)] n by simp
    moreover have "inorder (Node c l a r) = inorder l1 @ a1 # inorder r1"
      using inorder_check_move_red [OF h1(1)] n by simp
    ultimately show ?thesis using False h1(1) l' h2 n by simp
  qed
qed simp

text \<open>The way back from an insertion: a red node may have got a red left child.\<close>

definition ins_ok :: "'a rbnode \<Rightarrow> 'a rbnode \<Rightarrow> bool" where
  "ins_ok h h' \<longleftrightarrow> body h' \<and> \<not> lean h' \<and> bheight h' = bheight h \<and> (if is_red h then is_red h' else llrb h')"

lemma ins_ok_left:
  assumes h: "llrb (Node c l a r)" and l': "l' = Node Red Null n Null \<and> l = Null \<or> ins_ok l l'"
  shows "ensures (fix_up (Node c l' a r)) (ins_ok (Node c l a r))"
proof -
  obtain cl ll al lr where n: "l' = Node cl ll al lr" using l' by (cases l') (auto simp: ins_ok_def)
  have wf: "\<not> is_red lr" "llrb ll" "llrb lr" "bheight ll = bheight lr" "bheight l' = bheight l"
    "\<not> is_red l \<Longrightarrow> llrb l'"
    using l' n by (auto simp: ins_ok_def)
  show ?thesis
  proof (cases "cl = Red \<and> is_red ll")
    case True
    then obtain l1 a1 r1 where "ll = Node Red l1 a1 r1" by (auto simp: is_red_iff)
    moreover have "c = Black" "\<not> is_red r" using True h wf n by auto
    ultimately show ?thesis using h wf n True by (auto simp: fix_up_split ins_ok_def)
  next
    case False
    then show ?thesis using h wf n by (cases c) (auto simp: fix_up_same ins_ok_def)
  qed
qed

lemma ins_ok_right:
  assumes h: "llrb (Node c l a r)" and r': "r' = Node Red Null n Null \<and> r = Null \<or> ins_ok r r'"
  shows "ensures (fix_up (Node c l a r')) (ins_ok (Node c l a r))"
proof -
  have wf: "llrb r'" "bheight r' = bheight r" using r' h by (auto simp: ins_ok_def)
  from wf(1) show ?thesis
  proof (cases rule: llrb_red_cases)
    case 1
    with h wf show ?thesis by (cases l; auto simp: fix_up_same ins_ok_def)
  next
    case r: (2 rl b rr)
    from h have "llrb l" by simp
    then show ?thesis
      using h wf r by (cases rule: llrb_red_cases) (auto simp: fix_up_flip fix_up_rotate ins_ok_def)
  qed
qed

lemma ins_ok_here: "llrb (Node c l a r) \<Longrightarrow> ensures (fix_up (Node c l a r)) (ins_ok (Node c l a r))"
  by (cases l) (auto simp: fix_up_same ins_ok_def)

lemma hd_opt_append: "hd_opt (xs @ ys) = (case hd_opt xs of None \<Rightarrow> hd_opt ys | Some x \<Rightarrow> Some x)"
  by (cases xs) (auto simp: hd_opt_def)

lemma last_opt_append: "last_opt (xs @ ys) = (case last_opt ys of None \<Rightarrow> last_opt xs | Some y \<Rightarrow> Some y)"
  by (auto simp: last_opt_def)

lemma hd_opt_simps [simp]: "hd_opt [] = None" "hd_opt (x # xs) = Some x"
  by (simp_all add: hd_opt_def)

lemma last_opt_simps [simp]: "last_opt [] = None" "last_opt [x] = Some x"
  by (simp_all add: last_opt_def)

lemma last_opt_Cons: "last_opt (x # xs) = (case last_opt xs of None \<Rightarrow> Some x | Some y \<Rightarrow> Some y)"
  by (auto simp: last_opt_def)

lemma last_opt_in_set: "last_opt xs = Some x \<Longrightarrow> x \<in> set xs"
  by (auto simp: last_opt_def split: if_splits)

lemma inorder_Nil_iff [simp]: "inorder h = [] \<longleftrightarrow> h = Null" "[] = inorder h \<longleftrightarrow> h = Null"
  by (cases h; simp)+

lemma find_limit_first: "find_limit h False = hd_opt (inorder h)"
  by (induction h) (auto simp: hd_opt_def neq_Nil_conv split: list.splits)

lemma rbtree_find_first_hd: "rbtree_find_first t = hd_opt (inorder (rb_root t))"
  by (simp add: rbtree_find_first_def find_limit_first)

lemma find_limit_last: "find_limit h True = last_opt (inorder h)"
  by (induction h) (auto simp: last_opt_def)

lemma fold_until_append:
  "fold_until rh (xs @ ys) s = (let (s', ok) = fold_until rh xs s in if ok then fold_until rh ys s' else (s', False))"
  by (induction xs arbitrary: s) (auto split: prod.splits)

lemma traverse_inorder_fold: "traverse_inorder h rh s = fold_until rh (inorder h) s"
  by (induction h arbitrary: s) (auto simp: fold_until_append split: prod.splits)

lemma traverse_preorder_fold: "traverse_preorder h rh s = fold_until rh (preorder h) s"
  by (induction h arbitrary: s) (auto simp: fold_until_append split: prod.splits)

lemma traverse_postorder_fold: "traverse_postorder h rh s = fold_until rh (postorder h) s"
  by (induction h arbitrary: s) (auto simp: fold_until_append split: prod.splits)

lemma mset_postorder: "mset (postorder h) = mset (inorder h)"
  by (induction h) auto

fun height :: "'a rbnode \<Rightarrow> nat" where
  "height Null = 0"
| "height (Node c l a r) = Suc (max (height l) (height r))"

lemma llrb_height: "llrb h \<Longrightarrow> height h \<le> 2 * bheight h + (if is_red h then 1 else 0)"
  by (induction h) (auto split: if_splits)

lemma llrb_size: "llrb h \<Longrightarrow> 2 ^ bheight h \<le> Suc (length (inorder h))"
  by (induction h) (auto split: if_splits)

lemma validate_llrb:
  assumes "llrb h" "h \<noteq> Null" "bc = None \<or> bc = Some n"
    "n = bl + bheight h - (if is_red h then 0 else 1)"
  shows "validate_tree_invariants h bl bc = (None, Some n)"
  using assms
proof (induction h arbitrary: bl bc)
  case (Node c l a r)
  show ?case
  proof (cases "l = Null")
    case True
    then have "r = Null" using Node.prems(1) by (cases r) auto
    with True Node.prems show ?thesis by (cases c) auto
  next
    case False
    have n: "n = bl + bheight l" using Node.prems(4) by (cases c) auto
    have "validate_tree_invariants l (bl + (if is_red l then 0 else 1)) bc = (None, Some n)"
      using Node.prems(1,3) False n by (intro Node.IH(1)) auto
    moreover have "r \<noteq> Null \<Longrightarrow> validate_tree_invariants r (bl + (if is_red r then 0 else 1)) (Some n) = (None, Some n)"
      using Node.prems(1) n by (intro Node.IH(2)) auto
    ultimately show ?thesis
      using False Node.prems(1) by (auto simp: parent_child_check_def)
  qed
qed simp

text \<open>Where the root's element goes when a red link is moved towards the child.\<close>

lemma check_move_red_elem:
  assumes "check_move_red h hand = Some h1" "elem h = Some a"
  shows "elem h1 = Some a \<or> a \<in> set (inorder (child h1 hand))"
proof -
  obtain c l r where h: "h = Node c l a r" using assms(2) by (cases h) auto
  show ?thesis
  proof (cases hand)
    case HLeft
    with assms(1) h show ?thesis
      by (cases l; cases r; cases "child r HLeft") (auto simp: check_move_red_def Let_def split: if_splits)
  next
    case HRight
    with assms(1) h show ?thesis
      by (cases l; cases r; cases "child l HLeft") (auto simp: check_move_red_def Let_def split: if_splits)
  qed
qed

definition to_right :: "'a rbnode \<Rightarrow> 'a rbnode option" where
  "to_right h = do {
     h \<leftarrow> (if is_red (child h HLeft) then rotate_node HRight h else Some h);
     check_move_red h HRight
   }"

lemma to_right_spec:
  assumes "body (Node c l a r)" "r \<noteq> Null \<or> is_red l"
  shows "ensures (to_right (Node c l a r)) (\<lambda>h1. descend HRight (Node c l a r) h1 \<and>
           (lean (child h1 HRight) \<longrightarrow> elem (child h1 HRight) = Some a) \<and>
           inorder h1 = inorder (Node c l a r) \<and>
           (elem h1 = Some a \<or> a \<in> set (inorder (child h1 HRight))))"
proof (cases "is_red l")
  case True
  then obtain ll al lr where l: "l = Node Red ll al lr" by (auto simp: is_red_iff)
  then have "to_right (Node c l a r) = Some (Node c ll al (Node Red lr a r))"
    by (simp add: to_right_def check_move_red_def)
  then show ?thesis using l assms(1) descend_right_rotated [of c ll al lr a r] by simp
next
  case False
  with assms have "ensures (check_move_red (Node c l a r) HRight) (\<lambda>h1. descend HRight (Node c l a r) h1 \<and>
           (lean (child h1 HRight) \<longrightarrow> elem (child h1 HRight) = elem (Node c l a r)))"
    by (intro check_move_red_right) auto
  with False show ?thesis
    using inorder_check_move_red [of "Node c l a r" HRight] check_move_red_elem [of "Node c l a r" HRight]
    by (auto simp: to_right_def elim!: ensuresE)
qed

subsection \<open>The order of a tree\<close>

text \<open>
  What the tree asks of its comparison closure: it decides a linear order of keys. The tree's clients
  interpret the locale on their own comparisons.
\<close>

locale rb_compare =
  fixes cmp :: "'a compare" and key :: "'a \<Rightarrow> 'k::linorder"
  assumes cmp_less: "cmp a b < 0 \<longleftrightarrow> key a < key b"
    and cmp_zero: "cmp a b = 0 \<longleftrightarrow> key a = key b"
begin

abbreviation key_less :: "'a \<Rightarrow> 'a \<Rightarrow> bool" where
  "key_less a b \<equiv> key a < key b"

definition ordered :: "'a rbnode \<Rightarrow> bool" where
  "ordered h \<longleftrightarrow> sorted_wrt key_less (inorder h)"

definition insert_in :: "'a \<Rightarrow> 'a list \<Rightarrow> 'a list" where
  "insert_in n xs =
     (if key n \<in> key ` set xs then xs
      else filter (\<lambda>x. key x < key n) xs @ n # filter (\<lambda>x. key n < key x) xs)"

definition delete_in :: "'a \<Rightarrow> 'a list \<Rightarrow> 'a list" where
  "delete_in k xs = filter (\<lambda>x. key x \<noteq> key k) xs"

definition rb_inv :: "'a rbtree \<Rightarrow> bool" where
  "rb_inv t \<longleftrightarrow> llrb (rb_root t) \<and> \<not> is_red (rb_root t) \<and> ordered (rb_root t) \<and>
     rb_count t = length (inorder (rb_root t))"

lemma cmp_greater: "0 < cmp a b \<longleftrightarrow> key b < key a"
  using cmp_less [of a b] cmp_zero [of a b] by (metis not_less_iff_gr_or_eq)

lemma ordered_Node:
  "ordered (Node c l a r) \<longleftrightarrow> ordered l \<and> ordered r \<and>
     (\<forall>x \<in> set (inorder l). key x < key a) \<and> (\<forall>x \<in> set (inorder r). key a < key x)"
  by (auto simp: ordered_def sorted_wrt_append intro: less_trans)

lemma ordered_inorder: "inorder h = inorder h' \<Longrightarrow> ordered h \<Longrightarrow> ordered h'"
  by (simp add: ordered_def)

lemma delete_in_absent: "(\<And>x. x \<in> set xs \<Longrightarrow> key x \<noteq> key k) \<Longrightarrow> delete_in k xs = xs"
  by (simp add: delete_in_def)

lemma delete_in_notin: "key k \<notin> key ` set xs \<Longrightarrow> delete_in k xs = xs"
  by (rule delete_in_absent) (metis image_eqI)

lemma delete_in_left:
  "\<forall>x \<in> set ys. key a < key x \<Longrightarrow> key k < key a \<Longrightarrow>
   delete_in k (xs @ a # ys) = delete_in k xs @ a # ys"
  by (auto simp: delete_in_def filter_id_conv)

lemma delete_in_right:
  "\<forall>x \<in> set xs. key x < key a \<Longrightarrow> key a < key k \<Longrightarrow>
   delete_in k (xs @ a # ys) = xs @ a # delete_in k ys"
  by (auto simp: delete_in_def filter_id_conv)

lemma delete_in_here:
  "\<forall>x \<in> set xs. key x < key a \<Longrightarrow> \<forall>x \<in> set ys. key a < key x \<Longrightarrow> key a = key k \<Longrightarrow>
   delete_in k (xs @ a # ys) = xs @ ys"
proof -
  assume xs: "\<forall>x \<in> set xs. key x < key a" and ys: "\<forall>x \<in> set ys. key a < key x" and a: "key a = key k"
  from xs a have "filter (\<lambda>x. key x \<noteq> key k) xs = xs" by (auto simp: filter_id_conv)
  moreover from ys a have "filter (\<lambda>x. key x \<noteq> key k) ys = ys" by (auto simp: filter_id_conv)
  ultimately show ?thesis using a by (simp add: delete_in_def)
qed

lemma del_ok_refl: "body h \<Longrightarrow> \<not> lean h \<Longrightarrow> del_ok h h"
  by (cases h) auto

text \<open>What a removal promises.\<close>

definition removed :: "'a \<Rightarrow> 'a rbnode \<Rightarrow> 'a rbnode \<Rightarrow> bool \<Rightarrow> bool" where
  "removed k h h' result \<longleftrightarrow> del_ok h h' \<and> inorder h' = delete_in k (inorder h) \<and>
     (result \<longleftrightarrow> key k \<in> key ` set (inorder h))"

lemma removed_left:
  assumes "check_move_red h HLeft = Some h1" "descend HLeft h h1" "ordered h"
    "elem h = Some a" "key k < key a" "removed k (child h1 HLeft) l' result"
  shows "ensures (fix_up (set_child h1 HLeft l')) (\<lambda>h'. removed k h h' result)"
proof -
  from assms(6) have del: "del_ok (child h1 HLeft) l'" by (simp add: removed_def)
  obtain c1 l1 a1 r1 where n: "h1 = Node c1 l1 a1 r1" using del by (cases h1) auto
  have io: "inorder h = inorder l1 @ a1 # inorder r1"
    using inorder_check_move_red [OF assms(1)] n by simp
  then have o1: "ordered (Node c1 l1 a1 r1)" using assms(3) by (simp add: ordered_def)
  with check_move_red_elem [OF assms(1,4)] n assms(5) have "key k < key a1"
    by (auto simp: ordered_Node)
  with o1 have d: "delete_in k (inorder h) = delete_in k (inorder l1) @ a1 # inorder r1"
    "key k \<in> key ` set (inorder h) \<longleftrightarrow> key k \<in> key ` set (inorder l1)"
    unfolding io by (auto simp: ordered_Node delete_in_left)
  show ?thesis
    using descend_put [OF assms(2) del]
  proof (rule ensuresE)
    fix h' assume h': "fix_up (set_child h1 HLeft l') = Some h'" "del_ok h h'"
    from inorder_fix_up [OF h'(1)] n have "inorder h' = inorder l' @ a1 # inorder r1" by simp
    with h' d assms(6) n show ?thesis by (simp add: removed_def)
  qed
qed

lemma removed_right:
  assumes "descend HRight h h1" "inorder h1 = inorder h" "ordered h" "elem h1 = Some a1"
    "key a1 < key k" "removed k (child h1 HRight) r' result"
  shows "ensures (fix_up (set_child h1 HRight r')) (\<lambda>h'. removed k h h' result)"
proof -
  from assms(6) have del: "del_ok (child h1 HRight) r'" by (simp add: removed_def)
  obtain c1 l1 r1 where n: "h1 = Node c1 l1 a1 r1" using assms(4) by (cases h1) auto
  have io: "inorder h = inorder l1 @ a1 # inorder r1" using assms(2) n by simp
  then have "ordered (Node c1 l1 a1 r1)" using assms(3) by (simp add: ordered_def)
  with assms(5) have d: "delete_in k (inorder h) = inorder l1 @ a1 # delete_in k (inorder r1)"
    "key k \<in> key ` set (inorder h) \<longleftrightarrow> key k \<in> key ` set (inorder r1)"
    unfolding io by (auto simp: ordered_Node delete_in_right)
  show ?thesis
    using descend_put [OF assms(1) del]
  proof (rule ensuresE)
    fix h' assume h': "fix_up (set_child h1 HRight r') = Some h'" "del_ok h h'"
    from inorder_fix_up [OF h'(1)] n have "inorder h' = inorder l1 @ a1 # inorder r'" by simp
    with h' d assms(6) n show ?thesis by (simp add: removed_def)
  qed
qed

lemma removed_here:
  assumes "descend HRight h (Node c1 l1 a1 r1)" "inorder h = inorder (Node c1 l1 a1 r1)" "ordered h"
    "key a1 = key k" "del_ok r1 rnew" "inorder r1 = rmin # inorder rnew"
  shows "ensures (fix_up (Node c1 l1 rmin rnew)) (\<lambda>h'. removed k h h' True)"
proof -
  have "ordered (Node c1 l1 a1 r1)" using assms(2,3) by (simp add: ordered_def)
  with assms(4) have "delete_in k (inorder h) = inorder l1 @ inorder r1" "key k \<in> key ` set (inorder h)"
    unfolding assms(2) by (auto simp: ordered_Node intro!: delete_in_here)
  then show ?thesis
    using descend_put_elem [OF assms(1), of rnew rmin] assms(5,6)
    by (auto simp: removed_def dest: inorder_fix_up elim!: ensures_mono)
qed

lemma removed_absent:
  assumes "body h" "\<not> lean h" "key k \<notin> key ` set (inorder h)"
  shows "removed k h h False"
  using assms del_ok_refl by (simp add: removed_def delete_in_notin)

lemma remove_internal_left:
  assumes IH: "\<And>h'. size h' < size h \<Longrightarrow> body h' \<Longrightarrow> ordered h' \<Longrightarrow> \<not> lean h' \<Longrightarrow>
      ensures (remove_internal cmp h' k) (\<lambda>(h'', result). removed k h' h'' result)"
    and h: "h = Node c l a r" "body h" "ordered h" "\<not> lean h" "key k < key a"
  shows "ensures (remove_internal cmp h k) (\<lambda>(h', result). removed k h h' result)"
proof (cases "l = Null")
  case True
  with h have "r = Null" by (cases r) auto
  with True h removed_absent [of h k] show ?thesis by (simp add: cmp_less)
next
  case False
  then obtain h1 where h1: "check_move_red h HLeft = Some h1" "descend HLeft h h1" "\<not> lean (child h1 HLeft)"
    using check_move_red_left [of h] h by (auto elim!: ensuresE)
  have io: "ordered h1" using inorder_check_move_red [OF h1(1)] h by (simp add: ordered_def)
  have "ensures (remove_internal cmp (child h1 HLeft) k) (\<lambda>(h'', result). removed k (child h1 HLeft) h'' result)"
    using h1 h io size_child_moved [OF h1(1), of HLeft]
    by (intro IH) (cases h1; auto simp: descend_def prepared_def ordered_Node)+
  then obtain l' result where l': "remove_internal cmp (child h1 HLeft) k = Some (l', result)"
    "removed k (child h1 HLeft) l' result" by (auto elim!: ensuresE)
  show ?thesis
    using removed_left [OF h1(1,2) h(3) _ h(5) l'(2)] h(1,5) False h1(1) l'(1)
    by (auto simp: cmp_less elim!: ensuresE)
qed

lemma remove_internal_right:
  assumes IH: "\<And>h'. size h' < size h \<Longrightarrow> body h' \<Longrightarrow> ordered h' \<Longrightarrow>
      (lean h' \<Longrightarrow> elem h' = Some a) \<Longrightarrow>
      ensures (remove_internal cmp h' k) (\<lambda>(h'', result). removed k h' h'' result)"
    and h: "h = Node c l a r" "body h" "ordered h" "\<not> key k < key a" "r \<noteq> Null \<or> is_red l \<and> key k = key a"
  shows "ensures (remove_internal cmp h k) (\<lambda>(h', result). removed k h h' result)"
proof -
  obtain h0 h1 where h0: "(if is_red l then rotate_node HRight h else Some h) = Some h0"
      "check_move_red h0 HRight = Some h1"
    and h1: "descend HRight h h1" "lean (child h1 HRight) \<longrightarrow> elem (child h1 HRight) = Some a"
      "inorder h1 = inorder h" "elem h1 = Some a \<or> a \<in> set (inorder (child h1 HRight))"
    using to_right_spec [of c l a r] h by (auto simp: to_right_def elim!: ensuresE split: bind_splits)
  then obtain c1 l1 a1 r1 where n: "h1 = Node c1 l1 a1 r1" by (cases h1) (auto simp: descend_def prepared_def)
  have o1: "ordered (Node c1 l1 a1 r1)" using h1(3) h(3) n by (simp add: ordered_def)
  have prep: "prepared r1" "r1 \<noteq> Null" using h1(1) n by (auto simp: descend_def prepared_def)
  have a1: "\<not> key k < key a1" using h1(4) n o1 h(4) by (auto simp: ordered_Node)
  have "\<not> is_leaf h0 \<and> (\<exists>x. elem h0 = Some x) \<and> size h0 = size h"
  proof (cases "is_red l")
    case True
    then obtain ll al lr where "l = Node Red ll al lr" by (auto simp: is_red_iff)
    with h0(1) h(1) show ?thesis by (cases ll; auto)
  qed (use h0 h in \<open>cases l; cases r; auto\<close>)
  then obtain x where leaf: "\<not> is_leaf h0" "elem h0 = Some x" and size: "size r1 < size h"
    using size_child_moved [OF h0(2), of HRight] n h(1) by (cases h0) auto
  have go: "remove_internal cmp h k =
      (if cmp k a1 \<noteq> 0 then
         remove_internal cmp r1 k \<bind>
           (\<lambda>(r', result). fix_up (Node c1 l1 a1 r') \<bind> (\<lambda>h. Some (h, result)))
       else remove_min r1 \<bind>
           (\<lambda>(rnew, rmin). fix_up (Node c1 l1 rmin rnew) \<bind> (\<lambda>h. Some (h, True))))"
    using h0 leaf h(1,4,5) n prep(2) by (auto simp: cmp_less cmp_greater not_less cong: if_cong)
  show ?thesis
  proof (cases "key k = key a1")
    case True
    have "\<not> lean r1" using True h(4) h1(2) n o1 by (cases r1) (auto simp: ordered_Node)
    with prep obtain rnew rmin where rm: "remove_min r1 = Some (rnew, rmin)" "del_ok r1 rnew"
        "inorder r1 = rmin # inorder rnew"
      using remove_min_spec [of r1] by (auto simp: prepared_def elim!: ensuresE)
    with removed_here [OF h1(1) [unfolded n] _ h(3) _ rm(2,3), of k] True h1(3) n show ?thesis
      unfolding go by (auto simp: cmp_zero elim!: ensuresE)
  next
    case False
    have "ensures (remove_internal cmp r1 k) (\<lambda>(h'', result). removed k r1 h'' result)"
      using size prep o1 h1(2) n by (intro IH) (auto simp: prepared_def ordered_Node)
    then obtain r' result where r': "remove_internal cmp r1 k = Some (r', result)"
      "removed k r1 r' result" by (auto elim!: ensuresE)
    with removed_right [OF h1(1,3) h(3), of a1 k r' result] False a1 n show ?thesis
      unfolding go by (auto simp: cmp_zero elim!: ensuresE)
  qed
qed

lemma remove_internal_spec:
  assumes "body h" "ordered h" "\<And>a. lean h \<Longrightarrow> elem h = Some a \<Longrightarrow> \<not> key k < key a"
  shows "ensures (remove_internal cmp h k) (\<lambda>(h', result). removed k h h' result)"
  using assms
proof (induction h rule: measure_induct_rule [where f = size])
  case (less h)
  then obtain c l a r where h: "h = Node c l a r" by (cases h) auto
  consider (left) "key k < key a" | (absent) "key a < key k" "r = Null"
    | (leaf) "key k = key a" "r = Null" "\<not> is_red l"
    | (right) "\<not> key k < key a" "r \<noteq> Null \<or> is_red l \<and> key k = key a"
    by fastforce
  then show ?case
  proof cases
    case left
    then have "\<not> lean h" using less.prems(3) [of a] h by auto
    then show ?thesis
      using h left less.prems by (intro remove_internal_left [of h k c l a r] less.IH) auto
  next
    case absent
    with h less.prems(1,2) have "key k \<notin> key ` set (inorder h)" by (auto simp: ordered_Node)
    with absent h less.prems(1) show ?thesis
      using removed_absent [of h k] by (auto simp: cmp_less cmp_greater)
  next
    case leaf
    then have "l = Null" using h less.prems(1) by (cases l) auto
    with leaf h show ?thesis by (simp add: cmp_less cmp_greater cmp_zero removed_def delete_in_def)
  next
    case right
    then show ?thesis
      using h less.prems by (intro remove_internal_right [of h a k c l r] less.IH) auto
  qed
qed

lemma rb_inv_set_color_black:
  assumes "llrb root" "ordered root" "n = length (inorder root)"
  shows "rb_inv \<lparr>rb_root = set_color root Black, rb_count = n\<rparr>"
  using assms by (cases root) (auto simp: rb_inv_def ordered_def)

lemma length_delete_in:
  assumes "sorted_wrt key_less xs" "key k \<in> key ` set xs"
  shows "Suc (length (delete_in k xs)) = length xs"
  using assms
proof (induction xs)
  case (Cons x xs)
  show ?case
  proof (cases "key x = key k")
    case True
    then have "delete_in k xs = xs" using Cons.prems(1) by (intro delete_in_absent) auto
    with True show ?thesis by (simp add: delete_in_def)
  next
    case False
    with Cons show ?thesis by (auto simp: delete_in_def)
  qed
qed simp

lemma sorted_delete_in: "sorted_wrt key_less xs \<Longrightarrow> sorted_wrt key_less (delete_in k xs)"
  by (simp add: delete_in_def sorted_wrt_filter)

lemma del_ok_black:
  assumes "del_ok h h'" "llrb h"
  shows "llrb (set_color h' Black)"
  using assms by (cases h'; cases h) (auto split: if_splits)

lemma rbtree_remove_by_key_spec:
  assumes "rb_inv t"
  shows "ensures (rbtree_remove_by_key cmp t k) (\<lambda>(t', result). rb_inv t' \<and>
           inorder (rb_root t') = delete_in k (inorder (rb_root t)) \<and>
           (result \<longleftrightarrow> key k \<in> key ` set (inorder (rb_root t))))"
proof (cases "rb_root t = Null")
  case True
  with assms show ?thesis
    by (simp add: rbtree_remove_by_key_def rb_inv_def delete_in_def ordered_def)
next
  case False
  from assms False have "ensures (remove_internal cmp (rb_root t) k)
      (\<lambda>(h', result). removed k (rb_root t) h' result)"
    using llrb_body [of "rb_root t"] by (intro remove_internal_spec) (auto simp: rb_inv_def)
  then obtain h' result where h': "remove_internal cmp (rb_root t) k = Some (h', result)"
    "removed k (rb_root t) h' result" by (auto elim!: ensuresE)
  let ?root = "set_color h' Black"
  have root: "(if h' \<noteq> Null then ?root else h') = ?root" by (cases h') auto
  have io: "inorder ?root = delete_in k (inorder (rb_root t))"
    using h'(2) by (cases h') (auto simp: removed_def)
  have "llrb ?root"
    using h'(2) assms del_ok_black [of "rb_root t" h'] by (simp add: removed_def rb_inv_def)
  moreover have "\<not> is_red ?root" by (cases h') auto
  moreover have "ordered ?root" using assms by (simp add: rb_inv_def ordered_def io sorted_delete_in)
  moreover have "result \<Longrightarrow> Suc (length (delete_in k (inorder (rb_root t)))) = rb_count t"
    "\<not> result \<Longrightarrow> delete_in k (inorder (rb_root t)) = inorder (rb_root t)"
    using assms h'(2) length_delete_in [of "inorder (rb_root t)" k]
    by (simp_all add: rb_inv_def ordered_def removed_def delete_in_notin)
  ultimately show ?thesis
    using h' assms io root
    by (auto simp: rbtree_remove_by_key_def rb_inv_def removed_def Let_def)
qed

lemma insert_in_left:
  assumes "\<forall>x \<in> set xs. key x < key a" "\<forall>x \<in> set ys. key a < key x" "key n < key a"
  shows "insert_in n (xs @ a # ys) = insert_in n xs @ a # ys"
proof -
  have "filter (\<lambda>x. key x < key n) ys = []" "filter (\<lambda>x. key n < key x) ys = ys"
    using assms(2,3) by (auto simp: filter_empty_conv filter_id_conv)
  moreover have "key n \<in> key ` set (xs @ a # ys) \<longleftrightarrow> key n \<in> key ` set xs" using assms by auto
  ultimately show ?thesis using assms(3) by (auto simp: insert_in_def)
qed

lemma insert_in_right:
  assumes "\<forall>x \<in> set xs. key x < key a" "\<forall>x \<in> set ys. key a < key x" "key a < key n"
  shows "insert_in n (xs @ a # ys) = xs @ a # insert_in n ys"
proof -
  have "filter (\<lambda>x. key x < key n) xs = xs" "filter (\<lambda>x. key n < key x) xs = []"
    using assms(1,3) by (auto simp: filter_empty_conv filter_id_conv)
  moreover have "key n \<in> key ` set (xs @ a # ys) \<longleftrightarrow> key n \<in> key ` set ys" using assms by auto
  ultimately show ?thesis using assms(3) by (auto simp: insert_in_def)
qed

lemma insert_in_here: "key a = key n \<Longrightarrow> insert_in n (xs @ a # ys) = xs @ a # ys"
  by (simp add: insert_in_def)

lemma sorted_insert_in: "sorted_wrt key_less xs \<Longrightarrow> sorted_wrt key_less (insert_in n xs)"
  by (auto simp: insert_in_def sorted_wrt_append sorted_wrt_filter intro: less_trans)

lemma length_insert_in:
  "key n \<notin> key ` set xs \<Longrightarrow> length (insert_in n xs) = Suc (length xs)"
proof (induction xs)
  case (Cons x xs)
  then have "key x < key n \<or> key n < key x" by auto
  with Cons show ?case by (auto simp: insert_in_def)
qed (simp add: insert_in_def)

text \<open>What an insertion promises.\<close>

definition inserted :: "'a \<Rightarrow> 'a rbnode \<Rightarrow> 'a rbnode \<Rightarrow> bool \<Rightarrow> bool" where
  "inserted n h h' result \<longleftrightarrow> ins_ok h h' \<and> inorder h' = insert_in n (inorder h) \<and>
     (result \<longleftrightarrow> key n \<notin> key ` set (inorder h))"

lemma inserted_up:
  assumes "ensures (fix_up h1) (ins_ok h)" "inorder h1 = insert_in n (inorder h)"
    "result \<longleftrightarrow> key n \<notin> key ` set (inorder h)"
  shows "ensures (fix_up h1) (\<lambda>h'. inserted n h h' result)"
  using assms by (auto simp: inserted_def dest: inorder_fix_up elim!: ensures_mono)

lemma insert_node_internal_spec:
  assumes "llrb h" "h \<noteq> Null" "ordered h"
  shows "ensures (insert_node_internal cmp h n) (\<lambda>(h', result). inserted n h h' result)"
  using assms
proof (induction h)
  case (Node c l a r)
  have o: "ordered l" "ordered r" "\<forall>x \<in> set (inorder l). key x < key a" "\<forall>x \<in> set (inorder r). key a < key x"
    using Node.prems(3) by (auto simp: ordered_Node)
  consider "key n < key a" | "key a < key n" | "key n = key a" by fastforce
  then show ?case
  proof cases
    case 1
    have mem: "key n \<in> key ` set (inorder (Node c l a r)) \<longleftrightarrow> key n \<in> key ` set (inorder l)" using 1 o by auto
    show ?thesis
    proof (cases "l = Null")
      case True
      with 1 o show ?thesis
        by (simp add: cmp_less) (intro inserted_up ins_ok_left;
            use Node.prems mem insert_in_left [of "[]" a "inorder r" n] in \<open>auto simp: insert_in_def\<close>)
    next
      case False
      with Node o obtain l' result where l': "insert_node_internal cmp l n = Some (l', result)" "inserted n l l' result"
        by (auto elim!: ensuresE)
      with 1 False o show ?thesis
        by (simp add: cmp_less) (intro inserted_up ins_ok_left;
            use Node.prems mem in \<open>auto simp: insert_in_left inserted_def\<close>)
    qed
  next
    case 2
    have mem: "key n \<in> key ` set (inorder (Node c l a r)) \<longleftrightarrow> key n \<in> key ` set (inorder r)" using 2 o by auto
    show ?thesis
    proof (cases "r = Null")
      case True
      with 2 o show ?thesis
        by (simp add: cmp_less cmp_greater less_not_sym [of "key a"]) (intro inserted_up ins_ok_right;
            use Node.prems mem insert_in_right [of "inorder l" a "[]" n] in \<open>auto simp: insert_in_def\<close>)
    next
      case False
      with Node o obtain r' result where r': "insert_node_internal cmp r n = Some (r', result)" "inserted n r r' result"
        by (auto elim!: ensuresE)
      with 2 False o show ?thesis
        by (simp add: cmp_less cmp_greater less_not_sym [of "key a"]) (intro inserted_up ins_ok_right;
            use Node.prems mem in \<open>auto simp: insert_in_right inserted_def\<close>)
    qed
  next
    case 3
    then show ?thesis
      by (simp add: cmp_less cmp_greater) (intro inserted_up ins_ok_here;
          use Node.prems in \<open>simp add: insert_in_here\<close>)
  qed
qed simp

lemma rbtree_insert_node_spec:
  assumes "rb_inv t"
  shows "ensures (rbtree_insert_node cmp t n) (\<lambda>(t', result). rb_inv t' \<and>
           inorder (rb_root t') = insert_in n (inorder (rb_root t)) \<and>
           (result \<longleftrightarrow> key n \<notin> key ` set (inorder (rb_root t))))"
proof (cases "rb_root t = Null")
  case True
  with assms show ?thesis
    by (auto simp: rbtree_insert_node_def rb_inv_def insert_in_def ordered_def)
next
  case False
  with assms obtain h' result where h': "insert_node_internal cmp (rb_root t) n = Some (h', result)"
    "inserted n (rb_root t) h' result"
    using insert_node_internal_spec [of "rb_root t" n] by (auto simp: rb_inv_def elim!: ensuresE)
  have io: "inorder (set_color h' Black) = insert_in n (inorder (rb_root t))"
    using h'(2) by (cases h') (auto simp: inserted_def)
  have "llrb (set_color h' Black)" "\<not> is_red (set_color h' Black)"
    using h'(2) by (cases h'; simp add: inserted_def ins_ok_def)+
  moreover have "ordered (set_color h' Black)"
    using assms by (simp add: rb_inv_def ordered_def io sorted_insert_in)
  moreover have "length (insert_in n (inorder (rb_root t))) = (if result then rb_count t + 1 else rb_count t)"
    using assms h'(2) length_insert_in by (auto simp: rb_inv_def inserted_def insert_in_def)
  ultimately show ?thesis
    using h' False io by (simp add: rbtree_insert_node_def rb_inv_def inserted_def)
qed

lemma lookup_loop_find:
  "ordered h \<Longrightarrow> lookup_loop cmp h k = List.find (\<lambda>x. key x = key k) (inorder h)"
proof (induction h)
  case (Node c l a r)
  note o = Node.prems [unfolded ordered_Node]
  have app: "List.find P (xs @ ys) = (case List.find P xs of None \<Rightarrow> List.find P ys | Some x \<Rightarrow> Some x)"
    for P and xs ys :: "'a list" by (induction xs) auto
  have none: "List.find (\<lambda>x. key x = key k) xs = None" if "\<And>x. x \<in> set xs \<Longrightarrow> key x \<noteq> key k" for xs
    using that by (auto simp: find_None_iff)
  consider "key k < key a" | "key a < key k" | "key k = key a" by fastforce
  then show ?case
  proof cases
    case 1
    then have "List.find (\<lambda>x. key x = key k) (inorder r) = None" using o by (intro none) auto
    with 1 o Node.IH show ?thesis
      by (auto simp: Let_def cmp_less cmp_zero app split: option.splits)
  next
    case 2
    then have "List.find (\<lambda>x. key x = key k) (inorder l) = None" using o by (intro none) auto
    with 2 o Node.IH show ?thesis
      by (auto simp: Let_def cmp_less cmp_zero app)
  next
    case 3
    then have "List.find (\<lambda>x. key x = key k) (inorder l) = None" using o by (intro none) auto
    with 3 o show ?thesis by (simp add: Let_def cmp_zero app)
  qed
qed simp

lemma filter_none: "(\<And>x. x \<in> set xs \<Longrightarrow> \<not> P x) \<Longrightarrow> filter P xs = []"
  by (simp add: filter_empty_conv)

lemma max_lte_internal_last:
  "ordered h \<Longrightarrow> max_lte_internal cmp h k = last_opt (filter (\<lambda>x. key x \<le> key k) (inorder h))"
proof (induction h)
  case (Node c l a r)
  note o = Node.prems [unfolded ordered_Node]
  consider "key k < key a" | "key a < key k" | "key k = key a" by fastforce
  then show ?case
  proof cases
    case 1
    then have "filter (\<lambda>x. key x \<le> key k) (inorder r) = []" using o by (intro filter_none) auto
    with 1 o Node.IH show ?thesis by (auto simp: Let_def cmp_less cmp_zero cmp_greater)
  next
    case 2
    let ?rs = "filter (\<lambda>x. key x \<le> key k) (inorder r)"
    have IH: "max_lte_internal cmp r k = last_opt ?rs" using Node.IH(2) o by blast
    have "max_lte_internal cmp (Node c l a r) k = (case last_opt ?rs of None \<Rightarrow> Some a | Some x \<Rightarrow> Some x)"
    proof (cases "last_opt ?rs")
      case None
      with 2 IH show ?thesis by (simp add: Let_def cmp_zero cmp_greater)
    next
      case (Some x)
      then have "key x \<le> key k" "r \<noteq> Null" by (auto dest: last_opt_in_set)
      with 2 Some IH show ?thesis by (auto simp: Let_def cmp_zero cmp_greater)
    qed
    also have "\<dots> = last_opt (filter (\<lambda>x. key x \<le> key k) (inorder (Node c l a r)))"
      using 2 by (simp add: less_imp_le last_opt_append last_opt_Cons split: option.split)
    finally show ?thesis .
  next
    case 3
    then have "filter (\<lambda>x. key x \<le> key k) (inorder r) = []" using o by (intro filter_none) auto
    with 3 o show ?thesis by (simp add: Let_def cmp_zero last_opt_append)
  qed
qed simp

lemma locate_next:
  assumes "ordered h" "key n \<in> key ` set (inorder h)"
  shows "ensures (locate cmp h n up) (\<lambda>p. get_adjacent_inorder p HRight =
           (case hd_opt (filter (\<lambda>x. key n < key x) (inorder h)) of
              None \<Rightarrow> find_ancestor_of_hand up HRight | Some x \<Rightarrow> Some x))"
  using assms
proof (induction h arbitrary: up)
  case (Node c l a r)
  note o = Node.prems(1) [unfolded ordered_Node]
  consider "key n < key a" "key n \<noteq> key a" "\<not> key a < key n" | "key a < key n" "key n \<noteq> key a" "\<not> key n < key a"
    | "key n = key a" by fastforce
  then show ?case
  proof cases
    case 1
    with Node.prems(2) o have "key n \<in> key ` set (inorder l)" by auto
    from Node.IH(1) [OF _ this, of "(HLeft, a) # up"] 1 o show ?thesis
      by (simp add: cmp_zero cmp_less hd_opt_append split: option.splits)
  next
    case 2
    then have "filter (\<lambda>x. key n < key x) (inorder l) = []" using o by (intro filter_none) auto
    moreover from 2 Node.prems(2) o have "key n \<in> key ` set (inorder r)" by auto
    ultimately show ?thesis
      using Node.IH(2) [of "(HRight, a) # up"] 2 o by (simp add: cmp_zero cmp_less split: option.splits)
  next
    case 3
    then have "filter (\<lambda>x. key n < key x) (inorder l) = []" using o by (intro filter_none) auto
    moreover have "filter (\<lambda>x. key n < key x) (inorder r) = inorder r" using o 3 by (simp add: filter_id_conv)
    ultimately show ?thesis using 3 by (cases r) (simp_all add: cmp_zero find_limit_first hd_opt_append split: option.splits)
  qed
qed simp

lemma locate_prev:
  assumes "ordered h" "key n \<in> key ` set (inorder h)"
  shows "ensures (locate cmp h n up) (\<lambda>p. get_adjacent_inorder p HLeft =
           (case last_opt (filter (\<lambda>x. key x < key n) (inorder h)) of
              None \<Rightarrow> find_ancestor_of_hand up HLeft | Some x \<Rightarrow> Some x))"
  using assms
proof (induction h arbitrary: up)
  case (Node c l a r)
  note o = Node.prems(1) [unfolded ordered_Node]
  consider "key n < key a" "key n \<noteq> key a" "\<not> key a < key n" | "key a < key n" "key n \<noteq> key a" "\<not> key n < key a"
    | "key n = key a" by fastforce
  then show ?case
  proof cases
    case 1
    then have "filter (\<lambda>x. key x < key n) (inorder r) = []" using o by (intro filter_none) auto
    moreover from 1 Node.prems(2) o have "key n \<in> key ` set (inorder l)" by auto
    ultimately show ?thesis
      using Node.IH(1) [of "(HLeft, a) # up"] 1 o by (simp add: cmp_zero cmp_less split: option.splits)
  next
    case 2
    with Node.prems(2) o have "key n \<in> key ` set (inorder r)" by auto
    from Node.IH(2) [OF _ this, of "(HRight, a) # up"] 2 o show ?thesis
      by (simp add: cmp_zero cmp_less less_not_sym last_opt_append last_opt_Cons split: option.splits)
  next
    case 3
    then have "filter (\<lambda>x. key x < key n) (inorder r) = []" using o by (intro filter_none) auto
    moreover have "filter (\<lambda>x. key x < key n) (inorder l) = inorder l" using o 3 by (simp add: filter_id_conv)
    ultimately show ?thesis using 3 by (cases "l = Null") (simp_all add: cmp_zero find_limit_last last_opt_def)
  qed
qed simp

lemma rbnode_get_next_spec:
  assumes "ordered (rb_root t)" "key n \<in> key ` set (inorder (rb_root t))"
  shows "rbnode_get_next cmp t n = hd_opt (filter (\<lambda>x. key n < key x) (inorder (rb_root t)))"
  using locate_next [OF assms, of "[]"]
  by (auto simp: rbnode_get_next_def elim!: ensuresE split: option.splits)

lemma rbnode_get_prev_spec:
  assumes "ordered (rb_root t)" "key n \<in> key ` set (inorder (rb_root t))"
  shows "rbnode_get_prev cmp t n = last_opt (filter (\<lambda>x. key x < key n) (inorder (rb_root t)))"
  using locate_prev [OF assms, of "[]"]
  by (auto simp: rbnode_get_prev_def elim!: ensuresE split: option.splits)

lemma test_inorder_fold:
  assumes "ordered (rb_root t)" "inorder (rb_root t) = pre @ xs"
  shows "fold_until (test_inorder_node cmp t) xs (last_opt pre, None) = ((last_opt (pre @ xs), None), True)"
  using assms(2)
proof (induction xs arbitrary: pre)
  case (Cons x xs)
  have o: "sorted_wrt key_less (pre @ x # xs)" using assms(1) Cons.prems by (simp add: ordered_def)
  then have "filter (\<lambda>y. key y < key x) (x # xs) = []" "filter (\<lambda>y. key y < key x) pre = pre"
    by (auto simp: sorted_wrt_append filter_empty_conv filter_id_conv)
  then have prev: "rbnode_get_prev cmp t x = last_opt pre"
    using rbnode_get_prev_spec [OF assms(1), of x] Cons.prems by simp
  have "rbnode_get_next cmp t y = Some x" if "last_opt pre = Some y" for y
  proof -
    from that obtain ys where ys: "pre = ys @ [y]" by (cases pre rule: rev_cases) (auto simp: last_opt_def)
    with o have "filter (\<lambda>z. key y < key z) (ys @ [y]) = []" "key y < key x"
      by (auto simp: sorted_wrt_append filter_empty_conv)
    with ys show ?thesis
      using rbnode_get_next_spec [OF assms(1), of y] Cons.prems by (simp add: hd_opt_append)
  qed
  with prev have "test_inorder_node cmp t x (last_opt pre, None) = ((Some x, None), True)"
    by (auto simp: test_inorder_node_def Let_def split: option.splits)
  with Cons.IH [of "pre @ [x]"] Cons.prems show ?case by (simp add: last_opt_append)
qed simp

lemma rbtree_validate_ok: "rb_inv t \<Longrightarrow> rbtree_validate cmp t = None"
proof -
  assume inv: "rb_inv t"
  then have o: "ordered (rb_root t)" and l: "llrb (rb_root t)" by (auto simp: rb_inv_def)
  from l have "fst (validate_tree_invariants (rb_root t) 0 None) = None"
    using validate_llrb [of "rb_root t" None] by (cases "rb_root t = Null") auto
  moreover have "rbnode_get_next cmp t m = None" if m: "last_opt (inorder (rb_root t)) = Some m" for m
  proof -
    from m obtain ys where ys: "inorder (rb_root t) = ys @ [m]"
      by (cases "inorder (rb_root t)" rule: rev_cases) (auto simp: last_opt_def)
    with o have "filter (\<lambda>z. key m < key z) (ys @ [m]) = []"
      by (auto simp: ordered_def sorted_wrt_append filter_empty_conv)
    with ys show ?thesis using rbnode_get_next_spec [OF o, of m] by simp
  qed
  ultimately show ?thesis
    using test_inorder_fold [OF o, of "[]"]
    by (auto simp: rbtree_validate_def test_inorder_def traverse_inorder_fold split: option.splits)
qed

lemma rb_inv_init: "rb_inv init_rbtree"
  by (simp add: rb_inv_def init_rbtree_def ordered_def)

end

end
