(* ===== verification/Rangemap.thy ===== *)
theory Rangemap
  imports Rbtree
begin

text \<open>
  Ranges of 64-bit integers and maps keyed by disjoint ranges: \<^verbatim>\<open>src/kernel/src/runtime/range.h\<close> and
  \<^verbatim>\<open>range.c\<close>. A range is \<^verbatim>\<open>[start, end)\<close>. A range map is a red-black tree of nodes compared by the
  start of their range; a client's struct embeds \<^verbatim>\<open>rmnode\<close> as its first member, which is record
  extension here. A node that is already in the tree and is changed through its pointer is changed
  by \<open>rbnode_write\<close>, which follows the comparison to the node.
\<close>

section \<open>Ranges\<close>

record range =
  r_start :: u64
  r_end :: u64

definition irange :: "u64 \<Rightarrow> u64 \<Rightarrow> range" where
  "irange s e = \<lparr>r_start = s, r_end = e\<rparr>"

definition irangel :: "u64 \<Rightarrow> u64 \<Rightarrow> range" where
  "irangel s l = \<lparr>r_start = s, r_end = s + l\<rparr>"

definition point_in_range :: "range \<Rightarrow> u64 \<Rightarrow> bool" where
  "point_in_range r p \<longleftrightarrow> p \<ge> r_start r \<and> p < r_end r"

definition range_rshift :: "range \<Rightarrow> nat \<Rightarrow> range" where
  "range_rshift r order = irange (drop_bit order (r_start r)) (drop_bit order (r_end r))"

definition range_rshift_pad :: "range \<Rightarrow> nat \<Rightarrow> range" where
  "range_rshift_pad r order =
     irange (drop_bit order (r_start r)) (drop_bit order (r_end r + mask order))"

definition range_lshift :: "range \<Rightarrow> nat \<Rightarrow> range" where
  "range_lshift r order = irange (push_bit order (r_start r)) (push_bit order (r_end r))"

definition range_intersection :: "range \<Rightarrow> range \<Rightarrow> range" where
  "range_intersection a b =
     (let dest = irange (max (r_start a) (r_start b)) (min (r_end a) (r_end b)) in
      if r_end dest \<le> r_start dest then irange 0 0 else dest)"

definition range_span :: "range \<Rightarrow> u64" where
  "range_span r = r_end r - r_start r"

definition range_empty :: "range \<Rightarrow> bool" where
  "range_empty a \<longleftrightarrow> range_span a = 0"

definition ranges_intersect :: "range \<Rightarrow> range \<Rightarrow> bool" where
  "ranges_intersect a b \<longleftrightarrow> \<not> range_empty (range_intersection a b)"

definition range_contains :: "range \<Rightarrow> range \<Rightarrow> bool" where
  "range_contains a b \<longleftrightarrow> r_start a \<le> r_start b \<and> r_end a \<ge> r_end b"

definition range_equal :: "range \<Rightarrow> range \<Rightarrow> bool" where
  "range_equal a b \<longleftrightarrow> r_start a = r_start b \<and> r_end a = r_end b"

definition range_valid :: "range \<Rightarrow> bool" where
  "range_valid r \<longleftrightarrow> r_start r \<le> r_end r"

definition range_add :: "range \<Rightarrow> u64 \<Rightarrow> range" where
  "range_add r delta = \<lparr>r_start = r_start r + delta, r_end = r_end r + delta\<rparr>"

definition range_difference :: "range \<Rightarrow> range \<Rightarrow> range \<times> range" where
  "range_difference a b =
     (let b = range_intersection a b in
      if range_span b \<noteq> 0
      then (irange (r_start a) (r_start b), irange (r_end b) (r_end a))
      else (irange (r_start a) (r_end a), irange 0 0))"

section \<open>Range maps\<close>

record rmnode =
  rm_r :: range

definition rmnode_compare :: "'a rmnode_scheme compare" where
  "rmnode_compare a b =
     (let sa = r_start (rm_r a); sb = r_start (rm_r b) in
      if sa = sb then 0 else if sa < sb then - 1 else 1)"

text \<open>
  The heap gives the memory of one node, or none. \<open>rm_k\<close> is no field of the struct: it holds what
  the stack slot of a lookup's key node \<^verbatim>\<open>struct rmnode k\<close> contains before its range is set, which
  the code does not initialise. Nothing is assumed about it.
\<close>

record 'n rangemap =
  rm_h :: "'n heap"
  rm_t :: "'n rbtree"
  rm_k :: 'n

definition init_rangemap :: "'n heap \<Rightarrow> 'n \<Rightarrow> 'n rangemap" where
  "init_rangemap h k = \<lparr>rm_h = h, rm_t = init_rbtree, rm_k = k\<rparr>"

definition rmnode_set_range :: "'a rmnode_scheme \<Rightarrow> range \<Rightarrow> 'a rmnode_scheme" where
  "rmnode_set_range n r = n\<lparr>rm_r := r\<rparr>"

definition rangemap_prev_node :: "'a rmnode_scheme rangemap \<Rightarrow> 'a rmnode_scheme \<Rightarrow> 'a rmnode_scheme option" where
  "rangemap_prev_node rm n = rbnode_get_prev rmnode_compare (rm_t rm) n"

definition rangemap_next_node :: "'a rmnode_scheme rangemap \<Rightarrow> 'a rmnode_scheme \<Rightarrow> 'a rmnode_scheme option" where
  "rangemap_next_node rm n = rbnode_get_next rmnode_compare (rm_t rm) n"

definition rangemap_first_node :: "'a rmnode_scheme rangemap \<Rightarrow> 'a rmnode_scheme option" where
  "rangemap_first_node rm = rbtree_find_first (rm_t rm)"

definition key_node :: "'a rmnode_scheme rangemap \<Rightarrow> range \<Rightarrow> 'a rmnode_scheme" where
  "key_node rm r = (rm_k rm)\<lparr>rm_r := r\<rparr>"

definition rangemap_lookup_max_lte :: "'a rmnode_scheme rangemap \<Rightarrow> u64 \<Rightarrow> 'a rmnode_scheme option" where
  "rangemap_lookup_max_lte rm point =
     (let k = key_node rm (irange point (point + 1)) in
      if rb_root (rm_t rm) = Null then None
      else rbtree_lookup_max_lte rmnode_compare (rm_t rm) k)"

definition rangemap_remove_node ::
    "'a rmnode_scheme rangemap \<Rightarrow> 'a rmnode_scheme \<Rightarrow> 'a rmnode_scheme rangemap option" where
  "rangemap_remove_node rm n = do {
     t \<leftarrow> rbtree_remove_node rmnode_compare (rm_t rm) n;
     Some (rm\<lparr>rm_t := t\<rparr>)
   }"

definition rangemap_remove_range ::
    "'a rmnode_scheme rangemap \<Rightarrow> 'a rmnode_scheme \<Rightarrow> 'a rmnode_scheme rangemap option" where
  "rangemap_remove_range rm n = rangemap_remove_node rm n"

definition rangemap_count :: "'n rangemap \<Rightarrow> nat" where
  "rangemap_count rm = rb_count (rm_t rm)"

text \<open>A write through the pointer to a node of the tree.\<close>

fun rbnode_write :: "'a compare \<Rightarrow> 'a rbnode \<Rightarrow> 'a \<Rightarrow> 'a \<Rightarrow> 'a rbnode" where
  "rbnode_write cmp Null n n' = Null"
| "rbnode_write cmp (Node c l a r) n n' =
     (if cmp n a = 0 then Node c l n' r
      else if cmp n a < 0 then Node c (rbnode_write cmp l n n') a r
      else Node c l a (rbnode_write cmp r n n'))"

definition rangemap_write ::
    "'a rmnode_scheme rangemap \<Rightarrow> 'a rmnode_scheme \<Rightarrow> 'a rmnode_scheme \<Rightarrow> 'a rmnode_scheme rangemap" where
  "rangemap_write rm n n' =
     rm\<lparr>rm_t := (rm_t rm)\<lparr>rb_root := rbnode_write rmnode_compare (rb_root (rm_t rm)) n n'\<rparr>\<rparr>"

text \<open>
  The loops over successors are partial functions: a loop that does not end is \<open>None\<close>, and the
  lemmas below show that they end.
\<close>

partial_function (option) advance_past ::
    "'a rmnode_scheme rangemap \<Rightarrow> u64 \<Rightarrow> 'a rmnode_scheme option \<Rightarrow> 'a rmnode_scheme option option" where
  "advance_past rm point n =
     (case n of
        None \<Rightarrow> Some None
      | Some m \<Rightarrow>
          if r_end (rm_r m) \<le> point then advance_past rm point (rangemap_next_node rm m) else Some n)"

declare advance_past.simps [code]

definition rangemap_lookup_at_or_next ::
    "'a rmnode_scheme rangemap \<Rightarrow> u64 \<Rightarrow> 'a rmnode_scheme option option" where
  "rangemap_lookup_at_or_next rm point =
     (let k = key_node rm (irange point (point + 1)) in
      if rb_root (rm_t rm) = Null then Some None
      else
        (let n = (case rbtree_lookup_max_lte rmnode_compare (rm_t rm) k of
                    None \<Rightarrow> rbtree_find_first (rm_t rm)
                  | Some n \<Rightarrow> Some n)
         in advance_past rm (r_start (rm_r k)) n))"

text \<open>\<^verbatim>\<open>rangemap_foreach_of_range\<close> from a given node; the body says whether the loop goes on.\<close>

partial_function (option) foreach_from ::
    "'a rmnode_scheme rangemap \<Rightarrow> range \<Rightarrow> ('a rmnode_scheme, 's) rbnode_handler \<Rightarrow>
     'a rmnode_scheme option \<Rightarrow> 's \<Rightarrow> ('s \<times> bool) option" where
  "foreach_from rm k f n s =
     (case n of
        None \<Rightarrow> Some (s, True)
      | Some m \<Rightarrow>
          (let nxt = rangemap_next_node rm m in
           if range_span (range_intersection k (rm_r m)) > 0 then
             (case f m s of
                (s', ok) \<Rightarrow> if ok then foreach_from rm k f nxt s' else Some (s', False))
           else Some (s, True)))"

declare foreach_from.simps [code]

definition rangemap_foreach_of_range ::
    "'a rmnode_scheme rangemap \<Rightarrow> range \<Rightarrow> ('a rmnode_scheme, 's) rbnode_handler \<Rightarrow> 's \<Rightarrow> ('s \<times> bool) option" where
  "rangemap_foreach_of_range rm k f s = do {
     n \<leftarrow> rangemap_lookup_at_or_next rm (r_start k);
     foreach_from rm k f n s
   }"

text \<open>In \<^verbatim>\<open>rangemap_insert\<close> the state of the loop is whether an overlap was found.\<close>

definition insert_check :: "range \<Rightarrow> ('a rmnode_scheme, bool) rbnode_handler" where
  "insert_check r cur s =
     (if r_start (rm_r cur) \<ge> r_end r then (s, False)
      else if range_span (range_intersection (rm_r cur) r) \<noteq> 0 then (True, False)
      else (s, True))"

definition rangemap_insert ::
    "'a rmnode_scheme rangemap \<Rightarrow> 'a rmnode_scheme \<Rightarrow> ('a rmnode_scheme rangemap \<times> bool) option" where
  "rangemap_insert rm n = do {
     (overlap, _) \<leftarrow> rangemap_foreach_of_range rm (rm_r n) (insert_check (rm_r n)) False;
     if overlap then Some (rm, False)
     else do {
       (t, ok) \<leftarrow> rbtree_insert_node rmnode_compare (rm_t rm) n;
       if ok then Some (rm\<lparr>rm_t := t\<rparr>, True) else None
     }
   }"

definition rangemap_reinsert ::
    "'a rmnode_scheme rangemap \<Rightarrow> 'a rmnode_scheme \<Rightarrow> range \<Rightarrow> ('a rmnode_scheme rangemap \<times> bool) option" where
  "rangemap_reinsert rm n k = do {
     let old = rm_r n;
     rm \<leftarrow> rangemap_remove_node rm n;
     let n = n\<lparr>rm_r := k\<rparr>;
     (rm, ok) \<leftarrow> rangemap_insert rm n;
     if \<not> ok then do {
       let n = n\<lparr>rm_r := old\<rparr>;
       (rm, ok) \<leftarrow> rangemap_insert rm n;
       if ok then Some (rm, False) else None
     } else Some (rm, True)
   }"

text \<open>One round of the loop of \<^verbatim>\<open>rangemap_insert_range\<close>; the node it removes goes back to the heap.\<close>

definition merge_node ::
    "'a rmnode_scheme rangemap \<Rightarrow> range \<Rightarrow> 'a rmnode_scheme option \<Rightarrow> 'a rmnode_scheme \<Rightarrow>
     ('a rmnode_scheme rangemap \<times> 'a rmnode_scheme option) option" where
  "merge_node rm r merged m =
     (case merged of
        None \<Rightarrow>
          (let s = (if r_start (rm_r m) > r_start r then r_start r else r_start (rm_r m));
               e = (if r_end (rm_r m) < r_end r then r_end r else r_end (rm_r m));
               m' = m\<lparr>rm_r := irange s e\<rparr>
           in Some (rangemap_write rm m m', Some m'))
      | Some mg \<Rightarrow>
          (let mg' = (if r_end (rm_r mg) < r_end (rm_r m)
                      then mg\<lparr>rm_r := irange (r_start (rm_r mg)) (r_end (rm_r m))\<rparr> else mg)
           in do {
             rm \<leftarrow> rangemap_remove_range (rangemap_write rm mg mg') m;
             Some (rm, Some mg')
           }))"

partial_function (option) insert_range_loop ::
    "'a rmnode_scheme rangemap \<Rightarrow> range \<Rightarrow> 'a rmnode_scheme option \<Rightarrow> 'a rmnode_scheme option \<Rightarrow>
     ('a rmnode_scheme rangemap \<times> 'a rmnode_scheme option) option" where
  "insert_range_loop rm r merged n =
     (case n of
        None \<Rightarrow> Some (rm, merged)
      | Some m \<Rightarrow>
          if r_start (rm_r m) \<le> r_end r then
            Option.bind (merge_node rm r merged m)
              (\<lambda>(rm', merged'). insert_range_loop rm' r merged' (rangemap_next_node rm m))
          else Some (rm, merged))"

declare insert_range_loop.simps [code]

definition rangemap_insert_range :: "rmnode rangemap \<Rightarrow> range \<Rightarrow> (rmnode rangemap \<times> bool) option" where
  "rangemap_insert_range rm r = do {
     let k = key_node rm r;
     let n = (case rbtree_lookup_max_lte rmnode_compare (rm_t rm) k of
                None \<Rightarrow> rbtree_find_first (rm_t rm)
              | Some n \<Rightarrow> Some n);
     let n = (case n of
                Some m \<Rightarrow> (if r_end (rm_r m) < r_start r then rangemap_next_node rm m else n)
              | None \<Rightarrow> None);
     (rm, merged) \<leftarrow> insert_range_loop rm r None n;
     if merged \<noteq> None then Some (rm, True)
     else (case rm_h rm 1 of
             None \<Rightarrow> Some (rm, False)
           | Some _ \<Rightarrow> do { (rm, _) \<leftarrow> rangemap_insert rm \<lparr>rm_r = r\<rparr>; Some (rm, True) })
   }"

text \<open>
  The loop of \<^verbatim>\<open>rangemap_insert_hole\<close> returns in its first round, so its state is the round's result:
  nothing yet, or what the function returns, which may be a failure.
\<close>

definition insert_hole_node ::
    "rmnode rangemap \<Rightarrow> range \<Rightarrow> (rmnode, (rmnode rangemap \<times> bool) option option) rbnode_handler" where
  "insert_hole_node rm r cur s =
     (Some
       (if r_start (rm_r cur) > r_start r \<or> r_end (rm_r cur) < r_end r then Some (rm, False)
        else if r_start (rm_r cur) < r_start r then
          (if r_end (rm_r cur) > r_end r then
             (case rm_h rm 1 of
                None \<Rightarrow> Some (rm, False)
              | Some _ \<Rightarrow> do {
                  let n = \<lparr>rm_r = irange (r_end r) (r_end (rm_r cur))\<rparr>;
                  (rm, _) \<leftarrow> rangemap_reinsert rm cur (irange (r_start (rm_r cur)) (r_start r));
                  (rm, _) \<leftarrow> rangemap_insert rm n;
                  Some (rm, True)
                })
           else do {
             (rm, _) \<leftarrow> rangemap_reinsert rm cur (irange (r_start (rm_r cur)) (r_start r));
             Some (rm, True)
           })
        else if r_end (rm_r cur) > r_end r then do {
          (rm, _) \<leftarrow> rangemap_reinsert rm cur (irange (r_end r) (r_end (rm_r cur)));
          Some (rm, True)
        }
        else do {
          rm \<leftarrow> rangemap_remove_range rm cur;
          Some (rm, True)
        }),
      False)"

definition rangemap_insert_hole :: "rmnode rangemap \<Rightarrow> range \<Rightarrow> (rmnode rangemap \<times> bool) option" where
  "rangemap_insert_hole rm r = do {
     (result, _) \<leftarrow> rangemap_foreach_of_range rm r (insert_hole_node rm r) None;
     case result of None \<Rightarrow> Some (rm, False) | Some res \<Rightarrow> res
   }"

definition lookup_node :: "range \<Rightarrow> ('a rmnode_scheme, 'a rmnode_scheme option) rbnode_handler" where
  "lookup_node k cur s =
     (if r_start (rm_r cur) \<ge> r_end k then (s, False)
      else if range_span (range_intersection (rm_r cur) k) \<noteq> 0 then (Some cur, False)
      else (s, True))"

definition rangemap_lookup :: "'a rmnode_scheme rangemap \<Rightarrow> u64 \<Rightarrow> 'a rmnode_scheme option option" where
  "rangemap_lookup rm point = do {
     let k = irange point (point + 1);
     (result, _) \<leftarrow> rangemap_foreach_of_range rm k (lookup_node k) None;
     Some result
   }"

definition intersects_node :: "range \<Rightarrow> ('a rmnode_scheme, bool) rbnode_handler" where
  "intersects_node q n s = (if \<not> range_empty (range_intersection (rm_r n) q) then (True, False) else (s, True))"

definition rangemap_range_intersects :: "'a rmnode_scheme rangemap \<Rightarrow> range \<Rightarrow> bool option" where
  "rangemap_range_intersects rm q = do {
     (result, _) \<leftarrow> rangemap_foreach_of_range rm q (intersects_node q) False;
     Some result
   }"

datatype rm_match = RM_NOMATCH | RM_ABORT | RM_MATCH

type_synonym ('n, 's) rmnode_handler = "'n \<Rightarrow> 's \<Rightarrow> 's \<times> bool"

type_synonym 's range_handler = "range \<Rightarrow> 's \<Rightarrow> 's \<times> bool"

text \<open>
  One round of \<^verbatim>\<open>rangemap_range_lookup_internal\<close>; the state is \<^verbatim>\<open>match\<close>, \<^verbatim>\<open>lastedge\<close> and the handlers'
  own state. A missing handler is a null pointer.
\<close>

definition gap_step ::
    "'s range_handler \<Rightarrow> range \<Rightarrow> range \<Rightarrow> bool \<times> 's \<Rightarrow> (bool \<times> 's) \<times> bool" where
  "gap_step gh q gap ms =
     (let i = range_intersection gap q in
      if range_span i \<noteq> 0 then (let (s', ok) = gh i (snd ms) in ((True, s'), ok)) else (ms, True))"

definition range_lookup_node ::
    "range \<Rightarrow> ('a rmnode_scheme, 's) rmnode_handler option \<Rightarrow> 's range_handler option \<Rightarrow>
     ('a rmnode_scheme, (bool \<times> 's) \<times> u64) rbnode_handler" where
  "range_lookup_node q node_handler gap_handler cur st =
     (let ((ms, lastedge), ok) =
        (case gap_handler of
           None \<Rightarrow> (st, True)
         | Some gh \<Rightarrow>
             (let (ms, ok) = gap_step gh q (irange (snd st) (r_start (rm_r cur))) (fst st) in
              if ok then ((ms, r_end (rm_r cur)), True) else ((ms, snd st), False)))
      in if \<not> ok then ((ms, lastedge), False)
         else case node_handler of
           None \<Rightarrow> ((ms, lastedge), True)
         | Some nh \<Rightarrow>
             (if \<not> range_empty (range_intersection (rm_r cur) q) then
                (let (s', ok) = nh cur (snd ms) in (((True, s'), lastedge), ok))
              else ((ms, lastedge), True)))"

definition rangemap_range_lookup_internal ::
    "'a rmnode_scheme rangemap \<Rightarrow> range \<Rightarrow> ('a rmnode_scheme, 's) rmnode_handler option \<Rightarrow>
     's range_handler option \<Rightarrow> 's \<Rightarrow> ('s \<times> rm_match) option" where
  "rangemap_range_lookup_internal rm q node_handler gap_handler s = do {
     (((match, s), lastedge), ok) \<leftarrow>
       rangemap_foreach_of_range rm q (range_lookup_node q node_handler gap_handler) ((False, s), r_start q);
     if \<not> ok then Some (s, RM_ABORT)
     else do {
       let ((match, s), ok) =
         (case gap_handler of
            None \<Rightarrow> ((match, s), True)
          | Some gh \<Rightarrow> gap_step gh q (irange lastedge (r_end q)) (match, s));
       if \<not> ok then Some (s, RM_ABORT)
       else Some (s, if match then RM_MATCH else RM_NOMATCH)
     }
   }"

definition rangemap_range_lookup ::
    "'a rmnode_scheme rangemap \<Rightarrow> range \<Rightarrow> ('a rmnode_scheme, 's) rmnode_handler \<Rightarrow> 's \<Rightarrow> ('s \<times> rm_match) option" where
  "rangemap_range_lookup rm q node_handler s = rangemap_range_lookup_internal rm q (Some node_handler) None s"

definition rangemap_range_lookup_with_gaps ::
    "'a rmnode_scheme rangemap \<Rightarrow> range \<Rightarrow> ('a rmnode_scheme, 's) rmnode_handler \<Rightarrow> 's range_handler \<Rightarrow> 's \<Rightarrow>
     ('s \<times> rm_match) option" where
  "rangemap_range_lookup_with_gaps rm q node_handler gap_handler s =
     rangemap_range_lookup_internal rm q (Some node_handler) (Some gap_handler) s"

definition rangemap_range_find_gaps ::
    "'a rmnode_scheme rangemap \<Rightarrow> range \<Rightarrow> 's range_handler \<Rightarrow> 's \<Rightarrow> ('s \<times> rm_match) option" where
  "rangemap_range_find_gaps rm q gap_handler s =
     rangemap_range_lookup_internal rm q None (Some gap_handler) s"

definition destruct_rangemap ::
    "'a rmnode_scheme rangemap \<Rightarrow> ('a rmnode_scheme, 's) rmnode_handler \<Rightarrow> 's \<Rightarrow> 'a rmnode_scheme rangemap \<times> 's" where
  "destruct_rangemap rm destructor s =
     (let (t, s') = destruct_rbtree (rm_t rm) (\<lambda>n s. (fst (destructor n s), True)) s
      in (rm\<lparr>rm_t := t\<rparr>, s'))"

section \<open>The comparison and the invariant\<close>

interpretation rmt: rb_compare rmnode_compare "\<lambda>n. r_start (rm_r n)"
  by unfold_locales (auto simp: rmnode_compare_def Let_def)

abbreviation rm_nodes :: "'n rangemap \<Rightarrow> 'n list" where
  "rm_nodes rm \<equiv> inorder (rb_root (rm_t rm))"

abbreviation n_start :: "'a rmnode_scheme \<Rightarrow> u64" where
  "n_start n \<equiv> r_start (rm_r n)"

abbreviation n_end :: "'a rmnode_scheme \<Rightarrow> u64" where
  "n_end n \<equiv> r_end (rm_r n)"

definition disjoint_sorted :: "'a rmnode_scheme list \<Rightarrow> bool" where
  "disjoint_sorted xs \<longleftrightarrow> sorted_wrt (\<lambda>a b. n_end a \<le> n_start b) xs \<and> (\<forall>n \<in> set xs. n_start n < n_end n)"

definition rm_inv :: "'a rmnode_scheme rangemap \<Rightarrow> bool" where
  "rm_inv rm \<longleftrightarrow> rmt.rb_inv (rm_t rm) \<and> disjoint_sorted (rm_nodes rm)"

definition range_points :: "range \<Rightarrow> u64 set" where
  "range_points r = {p. point_in_range r p}"

definition rm_points :: "'a rmnode_scheme rangemap \<Rightarrow> u64 set" where
  "rm_points rm = (\<Union>n \<in> set (rm_nodes rm). range_points (rm_r n))"

section \<open>Ranges: lemmas\<close>

lemma irange_simps [simp]: "r_start (irange s e) = s" "r_end (irange s e) = e"
  by (simp_all add: irange_def)

lemma range_span_0_iff: "range_span (range_intersection a b) = 0 \<longleftrightarrow>
    min (r_end a) (r_end b) \<le> max (r_start a) (r_start b)"
  by (auto simp: range_span_def range_intersection_def Let_def)

lemma range_span_pos_iff: "0 < range_span (range_intersection a b) \<longleftrightarrow>
    max (r_start a) (r_start b) < min (r_end a) (r_end b)"
  using range_span_0_iff [of a b] by (simp add: word_gt_0 not_le)

lemma ranges_intersect_iff: "ranges_intersect a b \<longleftrightarrow>
    max (r_start a) (r_start b) < min (r_end a) (r_end b)"
  by (simp add: ranges_intersect_def range_empty_def range_span_0_iff not_le)

lemma ranges_intersect_points: "ranges_intersect a b \<longleftrightarrow> range_points a \<inter> range_points b \<noteq> {}"
proof -
  have "ranges_intersect a b \<Longrightarrow> max (r_start a) (r_start b) \<in> range_points a \<inter> range_points b"
    by (auto simp: ranges_intersect_iff range_points_def point_in_range_def)
  moreover have "p \<in> range_points a \<inter> range_points b \<Longrightarrow> ranges_intersect a b" for p
    by (auto simp: ranges_intersect_iff range_points_def point_in_range_def)
  ultimately show ?thesis by blast
qed

lemma range_intersection_points: "range_points (range_intersection a b) = range_points a \<inter> range_points b"
  by (auto simp: range_points_def point_in_range_def range_intersection_def Let_def min_le_iff_disj le_max_iff_disj)

lemma range_difference_points:
  "(case range_difference a b of (d1, d2) \<Rightarrow> range_points d1 \<union> range_points d2) = range_points a - range_points b"
proof (cases "range_span (range_intersection a b) = 0")
  case True
  then have "\<not> ranges_intersect a b" by (simp add: ranges_intersect_def range_empty_def)
  then have "range_points a \<inter> range_points b = {}" by (simp add: ranges_intersect_points)
  moreover have "range_points (irange 0 0) = {}" by (simp add: range_points_def point_in_range_def)
  moreover have "range_points (irange (r_start a) (r_end a)) = range_points a"
    by (simp add: range_points_def point_in_range_def)
  ultimately show ?thesis using True by (auto simp: range_difference_def Let_def)
next
  case False
  then have "max (r_start a) (r_start b) < min (r_end a) (r_end b)" by (simp add: range_span_0_iff not_le)
  moreover from this have "range_intersection a b = irange (max (r_start a) (r_start b)) (min (r_end a) (r_end b))"
    by (simp add: range_intersection_def Let_def not_le [symmetric])
  ultimately show ?thesis using False
    by (auto simp: range_difference_def range_points_def point_in_range_def less_max_iff_disj min_le_iff_disj)
qed

section \<open>Walks over the nodes\<close>

lemma disjoint_sorted_Cons:
  "disjoint_sorted (x # xs) \<longleftrightarrow> n_start x < n_end x \<and> (\<forall>y \<in> set xs. n_end x \<le> n_start y) \<and> disjoint_sorted xs"
  by (auto simp: disjoint_sorted_def)

lemma disjoint_sorted_append:
  "disjoint_sorted (xs @ ys) \<longleftrightarrow>
     disjoint_sorted xs \<and> disjoint_sorted ys \<and> (\<forall>x \<in> set xs. \<forall>y \<in> set ys. n_end x \<le> n_start y)"
  by (auto simp: disjoint_sorted_def sorted_wrt_append)

lemma rm_inv_ordered: "rm_inv rm \<Longrightarrow> rmt.ordered (rb_root (rm_t rm))"
  by (simp add: rm_inv_def rmt.rb_inv_def)

lemma disjoint_sorted_starts:
  assumes "disjoint_sorted (pre @ n # post)"
  shows "x \<in> set pre \<Longrightarrow> n_start x < n_start n" "x \<in> set post \<Longrightarrow> n_start n < n_start x"
  using assms by (auto simp: disjoint_sorted_def sorted_wrt_append
      intro: less_le_trans [of _ "n_end x"] less_le_trans [of _ "n_end n"])

lemma disjoint_sorted_ordered:
  "disjoint_sorted xs \<Longrightarrow> sorted_wrt (\<lambda>a b. n_start a < n_start b) xs"
  by (induction xs) (auto simp: disjoint_sorted_Cons intro: less_le_trans)

lemma next_node_ordered:
  assumes "rmt.ordered (rb_root (rm_t rm))" "rm_nodes rm = pre @ n # post"
  shows "rangemap_next_node rm n = hd_opt post"
proof -
  have d: "sorted_wrt (\<lambda>a b. n_start a < n_start b) (pre @ n # post)" using assms by (simp add: rmt.ordered_def)
  then have "filter (\<lambda>x. n_start n < n_start x) (pre @ [n]) = []"
    by (auto simp: sorted_wrt_append filter_empty_conv dest: less_imp_not_less)
  moreover have "filter (\<lambda>x. n_start n < n_start x) post = post"
    using d by (simp add: sorted_wrt_append filter_id_conv)
  ultimately show ?thesis
    using rmt.rbnode_get_next_spec [OF assms(1), of n] assms(2)
    by (simp add: rangemap_next_node_def)
qed

lemma rangemap_next_node_split:
  "rm_inv rm \<Longrightarrow> rm_nodes rm = pre @ n # post \<Longrightarrow> rangemap_next_node rm n = hd_opt post"
  by (rule next_node_ordered [OF rm_inv_ordered])

lemma advance_past_drop:
  assumes "rm_inv rm" "rm_nodes rm = pre @ post"
  shows "advance_past rm p (hd_opt post) = Some (hd_opt (dropWhile (\<lambda>n. n_end n \<le> p) post))"
  using assms(2)
proof (induction post arbitrary: pre)
  case Nil
  then show ?case by (subst advance_past.simps) simp
next
  case (Cons x post)
  with rangemap_next_node_split [OF assms(1), of pre x post] Cons.IH [of "pre @ [x]"]
  show ?case by (subst advance_past.simps) simp
qed

lemma rangemap_lookup_at_or_next_spec:
  assumes "rm_inv rm"
  shows "rangemap_lookup_at_or_next rm p = Some (hd_opt (dropWhile (\<lambda>n. n_end n \<le> p) (rm_nodes rm)))"
proof (cases "rb_root (rm_t rm) = Null")
  case True
  then show ?thesis by (simp add: rangemap_lookup_at_or_next_def)
next
  case False
  let ?k = "key_node rm (irange p (p + 1))"
  have k: "n_start ?k = p" by (simp add: key_node_def)
  have mx: "rbtree_lookup_max_lte rmnode_compare (rm_t rm) ?k = last_opt (filter (\<lambda>x. n_start x \<le> p) (rm_nodes rm))"
    using rmt.max_lte_internal_last [OF rm_inv_ordered [OF assms], of ?k] False k
    by (simp add: rbtree_lookup_max_lte_def)
  show ?thesis
  proof (cases "last_opt (filter (\<lambda>x. n_start x \<le> p) (rm_nodes rm))")
    case None
    then show ?thesis
      using False mx k advance_past_drop [OF assms, of "[]" "rm_nodes rm" p]
      by (simp add: rangemap_lookup_at_or_next_def rbtree_find_first_def find_limit_first Let_def)
  next
    case (Some m)
    then have "m \<in> set (rm_nodes rm)" "n_start m \<le> p" by (auto dest: last_opt_in_set)
    then obtain pre post where split: "rm_nodes rm = pre @ m # post" by (auto simp: in_set_conv_decomp)
    have "x \<in> set pre \<Longrightarrow> n_end x \<le> p" for x
      using assms split \<open>n_start m \<le> p\<close>
      by (auto simp: rm_inv_def disjoint_sorted_append disjoint_sorted_Cons intro: order_trans [of _ "n_start m"])
    then have "dropWhile (\<lambda>n. n_end n \<le> p) (rm_nodes rm) = dropWhile (\<lambda>n. n_end n \<le> p) (m # post)"
      unfolding split by (induction pre) auto
    then show ?thesis
      using False mx k Some advance_past_drop [OF assms split, of p]
      by (simp add: rangemap_lookup_at_or_next_def Let_def)
  qed
qed

lemma foreach_from_fold:
  assumes "rm_inv rm" "rm_nodes rm = pre @ post"
  shows "foreach_from rm k f (hd_opt post) s =
           Some (fold_until f (takeWhile (\<lambda>n. ranges_intersect k (rm_r n)) post) s)"
  using assms(2)
proof (induction post arbitrary: pre s)
  case Nil
  then show ?case by (subst foreach_from.simps) simp
next
  case (Cons x post)
  have i: "0 < range_span (range_intersection k (rm_r x)) \<longleftrightarrow> ranges_intersect k (rm_r x)"
    by (simp add: range_span_pos_iff ranges_intersect_iff)
  from Cons rangemap_next_node_split [OF assms(1), of pre x post] Cons.IH [of "pre @ [x]"]
  show ?case by (subst foreach_from.simps) (auto simp: i Let_def split: prod.splits)
qed

lemma takeWhile_intersect:
  assumes "disjoint_sorted xs" "\<forall>x \<in> set xs. r_start k < n_end x"
  shows "takeWhile (\<lambda>n. ranges_intersect k (rm_r n)) xs = filter (\<lambda>n. ranges_intersect k (rm_r n)) xs"
  using assms
proof (induction xs)
  case (Cons x xs)
  have "\<not> ranges_intersect k (rm_r y)" if "\<not> ranges_intersect k (rm_r x)" "y \<in> set xs" for y
  proof -
    have "r_end k \<le> r_start k \<or> r_end k \<le> n_start x"
      using that(1) Cons.prems by (auto simp: ranges_intersect_iff disjoint_sorted_Cons not_less)
    moreover have "n_start x \<le> n_start y"
      using Cons.prems that(2) by (auto simp: disjoint_sorted_Cons intro: order_trans [of _ "n_end x"] less_imp_le)
    ultimately show ?thesis by (auto simp: ranges_intersect_iff not_less)
  qed
  with Cons show ?case by (auto simp: disjoint_sorted_Cons filter_empty_conv)
qed simp

lemma visit_filter:
  assumes "disjoint_sorted xs"
  shows "takeWhile (\<lambda>n. ranges_intersect k (rm_r n)) (dropWhile (\<lambda>n. n_end n \<le> r_start k) xs) =
         filter (\<lambda>n. ranges_intersect k (rm_r n)) xs"
  using assms
proof (induction xs)
  case (Cons x xs)
  show ?case
  proof (cases "n_end x \<le> r_start k")
    case True
    then have "\<not> ranges_intersect k (rm_r x)" by (auto simp: ranges_intersect_iff)
    with True Cons show ?thesis by (simp add: disjoint_sorted_Cons)
  next
    case False
    then have "\<forall>y \<in> set (x # xs). r_start k < n_end y"
      using Cons.prems less_trans [of "r_start k" "n_end x"] le_less_trans [of "n_end x"]
      by (fastforce simp: disjoint_sorted_def not_le)
    with False takeWhile_intersect [OF Cons.prems, of k] show ?thesis by simp
  qed
qed simp

text \<open>The loop macro runs its body on the nodes that meet the range, in order.\<close>

lemma foreach_of_range_fold:
  assumes "rm_inv rm"
  shows "rangemap_foreach_of_range rm k f s =
           Some (fold_until f (filter (\<lambda>n. ranges_intersect k (rm_r n)) (rm_nodes rm)) s)"
proof -
  let ?D = "\<lambda>n :: 'a rmnode_scheme. n_end n \<le> r_start k"
  have "rm_nodes rm = takeWhile ?D (rm_nodes rm) @ dropWhile ?D (rm_nodes rm)" by simp
  from foreach_from_fold [OF assms this, of k f s] visit_filter [of "rm_nodes rm" k] assms
  show ?thesis
    by (simp add: rangemap_foreach_of_range_def rangemap_lookup_at_or_next_spec rm_inv_def)
qed

section \<open>Lookups\<close>

lemma ranges_intersect_sym: "ranges_intersect a b \<longleftrightarrow> ranges_intersect b a"
  by (auto simp: ranges_intersect_points)

lemma range_span_intersect [simp]: "range_span (range_intersection a b) = 0 \<longleftrightarrow> \<not> ranges_intersect a b"
  by (simp add: ranges_intersect_def range_empty_def)

lemma range_empty_intersect [simp]: "range_empty (range_intersection a b) \<longleftrightarrow> \<not> ranges_intersect a b"
  by (simp add: ranges_intersect_def)

lemma fold_until_stop:
  "(\<And>x. x \<in> set xs \<Longrightarrow> f x s = (g x, False)) \<Longrightarrow>
   fold_until f xs s = (case xs of [] \<Rightarrow> (s, True) | x # _ \<Rightarrow> (g x, False))"
  by (cases xs) auto

lemma fold_until_cong:
  assumes "\<And>x s. x \<in> set xs \<Longrightarrow> f x s = g x s"
  shows "fold_until f xs s = fold_until g xs s"
  using assms by (induction xs arbitrary: s) (auto split: prod.splits)

lemma intersects_not_beyond: "ranges_intersect k r \<Longrightarrow> \<not> r_end k \<le> r_start r"
  by (auto simp: ranges_intersect_iff)

lemma ranges_intersect_point: "ranges_intersect (irange p (p + 1)) r \<longleftrightarrow> point_in_range r p"
proof (cases "p + 1 = 0")
  case True
  then have p: "p = - 1" by (simp add: eq_neg_iff_add_eq_0)
  then show ?thesis
    by (auto simp: ranges_intersect_iff point_in_range_def)
next
  case False
  then show ?thesis
    by (auto simp: ranges_intersect_iff point_in_range_def word_less_plus_1)
qed

lemma rangemap_lookup_find:
  assumes "rm_inv rm"
  shows "rangemap_lookup rm p = Some (hd_opt (filter (\<lambda>n. point_in_range (rm_r n) p) (rm_nodes rm)))"
proof -
  let ?k = "irange p (p + 1)"
  let ?xs = "filter (\<lambda>n. ranges_intersect ?k (rm_r n)) (rm_nodes rm)"
  have "fold_until (lookup_node ?k) ?xs None = (case ?xs of [] \<Rightarrow> (None, True) | x # _ \<Rightarrow> (Some x, False))"
    using intersects_not_beyond [of ?k]
    by (intro fold_until_stop) (auto simp: lookup_node_def ranges_intersect_sym [of _ ?k] simp del: irange_simps)
  then show ?thesis
    by (simp add: rangemap_lookup_def foreach_of_range_fold [OF assms] ranges_intersect_point hd_opt_def
        split: list.splits)
qed

lemma rangemap_range_intersects_iff:
  assumes "rm_inv rm"
  shows "rangemap_range_intersects rm q = Some (\<exists>n \<in> set (rm_nodes rm). ranges_intersect q (rm_r n))"
proof -
  let ?xs = "filter (\<lambda>n. ranges_intersect q (rm_r n)) (rm_nodes rm)"
  have "fold_until (intersects_node q) ?xs False = (case ?xs of [] \<Rightarrow> (False, True) | x # _ \<Rightarrow> (True, False))"
    by (intro fold_until_stop) (auto simp: intersects_node_def ranges_intersect_sym [of _ q])
  moreover have "?xs = [] \<longleftrightarrow> \<not> (\<exists>n \<in> set (rm_nodes rm). ranges_intersect q (rm_r n))"
    by (auto simp: filter_empty_conv)
  ultimately show ?thesis
    by (cases ?xs) (auto simp: rangemap_range_intersects_def foreach_of_range_fold [OF assms])
qed

section \<open>Insertion and removal\<close>

text \<open>Up to order, the invariant says that the ranges are not empty and do not meet.\<close>

definition apart :: "'a rmnode_scheme set \<Rightarrow> bool" where
  "apart N \<longleftrightarrow> (\<forall>x \<in> N. n_start x < n_end x) \<and>
     (\<forall>x \<in> N. \<forall>y \<in> N. x \<noteq> y \<longrightarrow> \<not> ranges_intersect (rm_r x) (rm_r y))"

lemma intersects_iff_nonempty:
  "r_start a < r_end a \<Longrightarrow> r_start b < r_end b \<Longrightarrow>
   ranges_intersect a b \<longleftrightarrow> r_start a < r_end b \<and> r_start b < r_end a"
  by (auto simp: ranges_intersect_iff)

lemma apart_sorted:
  assumes "sorted_wrt (\<lambda>a b. n_start a < n_start b) xs" "apart (set xs)"
  shows "disjoint_sorted xs"
  unfolding disjoint_sorted_def
proof
  show "sorted_wrt (\<lambda>a b. n_end a \<le> n_start b) xs"
    using assms(1)
  proof (rule sorted_wrt_mono_rel [rotated])
    fix x y :: "'a rmnode_scheme"
    assume xy: "x \<in> set xs" "y \<in> set xs" "n_start x < n_start y"
    then have "\<not> ranges_intersect (rm_r x) (rm_r y)" using assms(2) by (auto simp: apart_def)
    moreover have "n_start x < n_end x" "n_start y < n_end y" using assms(2) xy by (auto simp: apart_def)
    moreover have "n_start x < n_end y" using xy(3) \<open>n_start y < n_end y\<close> by (rule less_trans)
    ultimately show "n_end x \<le> n_start y" by (simp add: intersects_iff_nonempty not_less)
  qed
qed (use assms in \<open>auto simp: apart_def\<close>)

lemma disjoint_sorted_apart: "disjoint_sorted xs \<Longrightarrow> apart (set xs)"
proof (induction xs)
  case (Cons x xs)
  then have "\<not> ranges_intersect (rm_r x) (rm_r y)" "\<not> ranges_intersect (rm_r y) (rm_r x)" if "y \<in> set xs" for y
    using that by (auto simp: disjoint_sorted_Cons ranges_intersect_iff not_less)
  with Cons show ?case
    by (auto simp: disjoint_sorted_Cons apart_def)
qed (simp add: apart_def)

lemma rm_inv_iff: "rm_inv rm \<longleftrightarrow> rmt.rb_inv (rm_t rm) \<and> apart (set (rm_nodes rm))"
  using apart_sorted disjoint_sorted_apart by (auto simp: rm_inv_def rmt.rb_inv_def rmt.ordered_def)

lemma apart_same_start:
  "apart N \<Longrightarrow> x \<in> N \<Longrightarrow> y \<in> N \<Longrightarrow> n_start x = n_start y \<Longrightarrow> x = y"
  by (metis apart_def intersects_iff_nonempty)

lemma rangemap_insert_spec:
  assumes "rm_inv rm" "n_start n < n_end n"
  shows "ensures (rangemap_insert rm n) (\<lambda>(rm', ok). rm_inv rm' \<and> rm_h rm' = rm_h rm \<and> rm_k rm' = rm_k rm \<and>
           (ok \<longleftrightarrow> (\<forall>m \<in> set (rm_nodes rm). \<not> ranges_intersect (rm_r n) (rm_r m))) \<and>
           set (rm_nodes rm') = (if ok then insert n (set (rm_nodes rm)) else set (rm_nodes rm)))"
proof -
  let ?xs = "filter (\<lambda>m. ranges_intersect (rm_r n) (rm_r m)) (rm_nodes rm)"
  have f: "fold_until (insert_check (rm_r n)) ?xs False = (case ?xs of [] \<Rightarrow> (False, True) | x # _ \<Rightarrow> (True, False))"
    using intersects_not_beyond [of "rm_r n"]
    by (intro fold_until_stop) (auto simp: insert_check_def ranges_intersect_sym [of _ "rm_r n"])
  show ?thesis
  proof (cases "?xs = []")
    case False
    then obtain y ys where xs: "?xs = y # ys" by (cases ?xs) auto
    then have "y \<in> set ?xs" by simp
    then have "y \<in> set (rm_nodes rm)" "ranges_intersect (rm_r n) (rm_r y)" by simp_all
    with xs show ?thesis
      using f assms(1) by (auto simp: rangemap_insert_def foreach_of_range_fold [OF assms(1)])
  next
    case True
    then have free: "\<forall>m \<in> set (rm_nodes rm). \<not> ranges_intersect (rm_r n) (rm_r m)" by (auto simp: filter_empty_conv)
    have ap: "apart (set (rm_nodes rm))" "rmt.rb_inv (rm_t rm)" using assms(1) by (auto simp: rm_inv_iff)
    then have ap': "apart (insert n (set (rm_nodes rm)))"
      using free assms(2) ranges_intersect_sym by (auto simp: apart_def)
    have new: "n_start n \<notin> n_start ` set (rm_nodes rm)"
      using free assms(2) ap(1) by (auto simp: apart_def intersects_iff_nonempty)
    then have "set (rmt.insert_in n (rm_nodes rm)) = insert n (set (rm_nodes rm))"
      by (auto simp: rmt.insert_in_def neq_iff)
    with True f free ap' new show ?thesis
      using rmt.rbtree_insert_node_spec [OF ap(2), of n]
      by (auto simp: rangemap_insert_def foreach_of_range_fold [OF assms(1)] rm_inv_iff elim!: ensuresE)
  qed
qed

lemma rangemap_remove_node_spec:
  assumes "rm_inv rm" "n \<in> set (rm_nodes rm)"
  shows "ensures (rangemap_remove_node rm n) (\<lambda>rm'. rm_inv rm' \<and> rm_h rm' = rm_h rm \<and> rm_k rm' = rm_k rm \<and>
           set (rm_nodes rm') = set (rm_nodes rm) - {n})"
proof -
  have ap: "apart (set (rm_nodes rm))" "rmt.rb_inv (rm_t rm)" using assms(1) by (auto simp: rm_inv_iff)
  have "set (rmt.delete_in n (rm_nodes rm)) = set (rm_nodes rm) - {n}"
    using apart_same_start [OF ap(1) _ assms(2)] by (auto simp: rmt.delete_in_def)
  moreover from ap(1) have "apart (set (rm_nodes rm) - {n})" by (auto simp: apart_def)
  moreover obtain t' where "rbtree_remove_by_key rmnode_compare (rm_t rm) n = Some (t', True)" "rmt.rb_inv t'"
      "inorder (rb_root t') = rmt.delete_in n (rm_nodes rm)"
    using rmt.rbtree_remove_by_key_spec [OF ap(2), of n] assms(2) by (auto elim!: ensuresE)
  ultimately show ?thesis
    by (simp add: rangemap_remove_node_def rbtree_remove_node_def rm_inv_iff)
qed

lemma rangemap_reinsert_spec:
  assumes "rm_inv rm" "n \<in> set (rm_nodes rm)" "r_start k < r_end k"
  shows "ensures (rangemap_reinsert rm n k) (\<lambda>(rm', ok). rm_inv rm' \<and> rm_h rm' = rm_h rm \<and> rm_k rm' = rm_k rm \<and>
           (ok \<longleftrightarrow> (\<forall>m \<in> set (rm_nodes rm) - {n}. \<not> ranges_intersect k (rm_r m))) \<and>
           set (rm_nodes rm') = (if ok then insert (n\<lparr>rm_r := k\<rparr>) (set (rm_nodes rm) - {n}) else set (rm_nodes rm)))"
proof -
  obtain rm1 where rm1: "rangemap_remove_node rm n = Some rm1" "rm_inv rm1" "rm_h rm1 = rm_h rm" "rm_k rm1 = rm_k rm"
      "set (rm_nodes rm1) = set (rm_nodes rm) - {n}"
    using rangemap_remove_node_spec [OF assms(1,2)] by (auto elim!: ensuresE)
  obtain rm2 ok where rm2: "rangemap_insert rm1 (n\<lparr>rm_r := k\<rparr>) = Some (rm2, ok)" "rm_inv rm2"
      "rm_h rm2 = rm_h rm" "rm_k rm2 = rm_k rm"
      "ok \<longleftrightarrow> (\<forall>m \<in> set (rm_nodes rm) - {n}. \<not> ranges_intersect k (rm_r m))"
      "set (rm_nodes rm2) = (if ok then insert (n\<lparr>rm_r := k\<rparr>) (set (rm_nodes rm) - {n}) else set (rm_nodes rm) - {n})"
    using rangemap_insert_spec [OF rm1(2), of "n\<lparr>rm_r := k\<rparr>"] assms(3) rm1 by (auto elim!: ensuresE)
  have ap: "apart (set (rm_nodes rm))" using assms(1) by (simp add: rm_inv_iff)
  show ?thesis
  proof (cases ok)
    case True
    with rm1 rm2 show ?thesis by (simp add: rangemap_reinsert_def Let_def)
  next
    case False
    have "n_start n < n_end n" "\<forall>m \<in> set (rm_nodes rm2). \<not> ranges_intersect (rm_r n) (rm_r m)"
      using ap assms(2) rm2(6) False by (auto simp: apart_def)
    then obtain rm3 where "rangemap_insert rm2 n = Some (rm3, True)" "rm_inv rm3" "rm_h rm3 = rm_h rm2"
        "rm_k rm3 = rm_k rm2" "set (rm_nodes rm3) = insert n (set (rm_nodes rm2))"
      using rangemap_insert_spec [OF rm2(2), of n] by (auto elim!: ensuresE)
    moreover have "n\<lparr>rm_r := rm_r n\<rparr> = n" by (cases n) simp
    moreover have "insert n (set (rm_nodes rm) - {n}) = set (rm_nodes rm)" using assms(2) by blast
    ultimately show ?thesis using False rm1 rm2 by (simp add: rangemap_reinsert_def Let_def)
  qed
qed

section \<open>Merging a range\<close>

lemma write_shape:
  "is_red (rbnode_write cmp h n n') = is_red h" "bheight (rbnode_write cmp h n n') = bheight h"
  "llrb (rbnode_write cmp h n n') = llrb h"
  by (induction h) auto

context rb_compare
begin

lemma inorder_write:
  "ordered h \<Longrightarrow> inorder (rbnode_write cmp h n n') = map (\<lambda>x. if key x = key n then n' else x) (inorder h)"
proof (induction h)
  case (Node c l a r)
  note o = Node.prems [unfolded ordered_Node]
  have id: "map (\<lambda>x. if key x = key n then n' else x) xs = xs" if "\<And>x. x \<in> set xs \<Longrightarrow> key x \<noteq> key n" for xs
    using that by (simp add: map_idI)
  consider "key n < key a" | "key a < key n" | "key n = key a" by fastforce
  then show ?case
  proof cases
    case 1
    moreover from 1 have "map (\<lambda>x. if key x = key n then n' else x) (inorder r) = inorder r" using o by (intro id) auto
    ultimately show ?thesis using o Node.IH(1) by (auto simp: cmp_zero cmp_less)
  next
    case 2
    moreover from 2 have "map (\<lambda>x. if key x = key n then n' else x) (inorder l) = inorder l" using o by (intro id) auto
    ultimately show ?thesis using o Node.IH(2) by (auto simp: cmp_zero cmp_less)
  next
    case 3
    moreover from 3 have "map (\<lambda>x. if key x = key n then n' else x) (inorder l) = inorder l"
      "map (\<lambda>x. if key x = key n then n' else x) (inorder r) = inorder r"
      using o by (intro id; auto)+
    ultimately show ?thesis by (simp add: cmp_zero)
  qed
qed simp

lemma rb_inv_write:
  assumes "rb_inv t" "inorder (rb_root t) = pre @ n # post"
    "\<forall>x \<in> set pre. key x < key n'" "\<forall>x \<in> set post. key n' < key x"
  defines "t' \<equiv> t\<lparr>rb_root := rbnode_write cmp (rb_root t) n n'\<rparr>"
  shows "rb_inv t'" "inorder (rb_root t') = pre @ n' # post"
proof -
  have o: "ordered (rb_root t)" "sorted_wrt key_less (pre @ n # post)"
    using assms(1,2) by (auto simp: rb_inv_def ordered_def)
  then have "\<forall>x \<in> set pre. key x < key n" "\<forall>x \<in> set post. key n < key x" by (auto simp: sorted_wrt_append)
  then have "map (\<lambda>x. if key x = key n then n' else x) pre = pre" "map (\<lambda>x. if key x = key n then n' else x) post = post"
    by (force intro!: map_idI)+
  then show io: "inorder (rb_root t') = pre @ n' # post"
    using inorder_write [OF o(1), of n n'] assms(2) by (simp add: t'_def)
  have "sorted_wrt key_less (pre @ n' # post)" using o(2) assms(3,4) by (auto simp: sorted_wrt_append)
  then show "rb_inv t'"
    using assms(1,2) io by (simp add: rb_inv_def t'_def write_shape ordered_def)
qed

end

lemma rangemap_write_split:
  assumes "rmt.rb_inv (rm_t rm)" "rm_nodes rm = pre @ n # post"
    "\<forall>x \<in> set pre. n_start x < n_start n'" "\<forall>x \<in> set post. n_start n' < n_start x"
  shows "rmt.rb_inv (rm_t (rangemap_write rm n n'))" "rm_nodes (rangemap_write rm n n') = pre @ n' # post"
    "rm_h (rangemap_write rm n n') = rm_h rm" "rm_k (rangemap_write rm n n') = rm_k rm"
  using rmt.rb_inv_write [OF assms] by (simp_all add: rangemap_write_def)

lemma remove_node_split:
  assumes "rmt.rb_inv (rm_t rm)" "rm_nodes rm = pre @ n # post"
  shows "ensures (rangemap_remove_node rm n) (\<lambda>rm'. rmt.rb_inv (rm_t rm') \<and> rm_nodes rm' = pre @ post \<and>
           rm_h rm' = rm_h rm \<and> rm_k rm' = rm_k rm)"
proof -
  have "sorted_wrt (\<lambda>a b. n_start a < n_start b) (pre @ n # post)"
    using assms by (simp add: rmt.rb_inv_def rmt.ordered_def)
  then have "rmt.delete_in n (pre @ n # post) = pre @ post"
    by (intro rmt.delete_in_here) (auto simp: sorted_wrt_append)
  moreover obtain t' where "rbtree_remove_by_key rmnode_compare (rm_t rm) n = Some (t', True)" "rmt.rb_inv t'"
      "inorder (rb_root t') = rmt.delete_in n (rm_nodes rm)"
    using rmt.rbtree_remove_by_key_spec [OF assms(1), of n] assms(2) by (auto elim!: ensuresE)
  ultimately show ?thesis
    using assms(2) by (simp add: rangemap_remove_node_def rbtree_remove_node_def)
qed

text \<open>The largest end met while nodes are merged.\<close>

definition merged_end :: "u64 \<Rightarrow> 'a rmnode_scheme list \<Rightarrow> u64" where
  "merged_end e xs = foldl (\<lambda>e n. max e (n_end n)) e xs"

lemma merged_end_simps [simp]:
  "merged_end e [] = e" "merged_end e (x # xs) = merged_end (max e (n_end x)) xs"
  by (simp_all add: merged_end_def)

lemma less_merged_end_iff: "p < merged_end e xs \<longleftrightarrow> p < e \<or> (\<exists>x \<in> set xs. p < n_end x)"
  by (induction xs arbitrary: e) (auto simp: less_max_iff_disj)

lemma insert_range_loop_merged:
  assumes "rmt.rb_inv (rm_t rm)" "rm_nodes rm = pre @ mg # post"
  shows "ensures (insert_range_loop rm r (Some mg) (hd_opt post)) (\<lambda>(rm', merged). merged \<noteq> None \<and>
           rmt.rb_inv (rm_t rm') \<and> rm_h rm' = rm_h rm \<and> rm_k rm' = rm_k rm \<and>
           (\<exists>mg'. rm_r mg' = irange (n_start mg) (merged_end (n_end mg) (takeWhile (\<lambda>n. n_start n \<le> r_end r) post)) \<and>
              rm_nodes rm' = pre @ mg' # dropWhile (\<lambda>n. n_start n \<le> r_end r) post))"
  using assms
proof (induction post arbitrary: rm mg)
  case Nil
  have "rm_r mg = irange (n_start mg) (n_end mg)" by (cases "rm_r mg") (simp add: irange_def)
  with Nil show ?case by (subst insert_range_loop.simps) auto
next
  case (Cons x post)
  show ?case
  proof (cases "n_start x \<le> r_end r")
    case False
    have "rm_r mg = irange (n_start mg) (n_end mg)" by (cases "rm_r mg") (simp add: irange_def)
    with False Cons show ?thesis by (subst insert_range_loop.simps) auto
  next
    case True
    define mg' where "mg' = (if n_end mg < n_end x then mg\<lparr>rm_r := irange (n_start mg) (n_end x)\<rparr> else mg)"
    have mg': "n_start mg' = n_start mg" "n_end mg' = max (n_end mg) (n_end x)" by (auto simp: mg'_def max_def)
    have s: "sorted_wrt (\<lambda>a b. n_start a < n_start b) (pre @ mg # x # post)"
      using Cons.prems by (simp add: rmt.rb_inv_def rmt.ordered_def)
    have w: "rmt.rb_inv (rm_t (rangemap_write rm mg mg'))"
        "rm_nodes (rangemap_write rm mg mg') = (pre @ [mg']) @ x # post"
        "rm_h (rangemap_write rm mg mg') = rm_h rm" "rm_k (rangemap_write rm mg mg') = rm_k rm"
      using rangemap_write_split [OF Cons.prems, of mg'] s mg'(1) by (auto simp: sorted_wrt_append)
    obtain rm2 where rm2: "rangemap_remove_node (rangemap_write rm mg mg') x = Some rm2" "rmt.rb_inv (rm_t rm2)"
        "rm_nodes rm2 = pre @ mg' # post" "rm_h rm2 = rm_h rm" "rm_k rm2 = rm_k rm"
      using remove_node_split [OF w(1,2)] w(3,4) by (auto elim!: ensuresE)
    have nx: "rangemap_next_node rm x = hd_opt post"
      using next_node_ordered [of rm "pre @ [mg]" x post] Cons.prems by (simp add: rmt.rb_inv_def)
    have m: "merge_node rm r (Some mg) x = Some (rm2, Some mg')"
      using rm2(1) by (simp add: merge_node_def Let_def rangemap_remove_range_def flip: mg'_def)
    show ?thesis
      using Cons.IH [OF rm2(2,3)] True nx m rm2(4,5) mg'
      by (subst insert_range_loop.simps) simp
  qed
qed

lemma merged_range:
  assumes d: "disjoint_sorted (pre @ m # post)" and r: "r_start r < r_end r" "\<forall>x \<in> set pre. n_end x \<le> r_start r"
    and m: "r_start r \<le> n_end m" "n_start m \<le> r_end r"
    and mg: "n_start mg = min (n_start m) (r_start r)"
      "n_end mg = merged_end (max (n_end m) (r_end r)) (takeWhile (\<lambda>n. n_start n \<le> r_end r) post)"
  defines "rest \<equiv> dropWhile (\<lambda>n. n_start n \<le> r_end r) post"
  shows "disjoint_sorted (pre @ mg # rest)"
    "(\<Union>n \<in> set (pre @ mg # rest). range_points (rm_r n)) =
     (\<Union>n \<in> set (pre @ m # post). range_points (rm_r n)) \<union> range_points r"
proof -
  define T where "T = takeWhile (\<lambda>n. n_start n \<le> r_end r) post"
  have post: "post = T @ rest" by (simp add: T_def rest_def)
  have T: "\<forall>x \<in> set T. n_start x \<le> r_end r" by (auto simp: T_def dest: set_takeWhileD)
  have d': "disjoint_sorted (pre @ m # T @ rest)" using d post by simp
  have e: "p < n_end mg \<longleftrightarrow> p < n_end m \<or> p < r_end r \<or> (\<exists>x \<in> set T. p < n_end x)" for p
    by (auto simp: mg(2) less_merged_end_iff T_def less_max_iff_disj)
  have after: "\<forall>y \<in> set rest. r_end r < n_start y"
  proof (cases rest)
    case (Cons y ys)
    then have "r_end r < n_start y" using hd_dropWhile [of "\<lambda>n. n_start n \<le> r_end r" post] by (simp add: rest_def)
    moreover have "\<forall>z \<in> set ys. n_start y \<le> n_start z"
      using d' Cons by (auto simp: disjoint_sorted_append disjoint_sorted_Cons intro: order_trans [of _ "n_end y"] less_imp_le)
    ultimately show ?thesis using Cons by (auto intro: less_le_trans)
  qed simp
  have "n_end mg \<le> n_start y" if y: "y \<in> set rest" for y
    using e [of "n_start y"] after d' y
    by (auto simp: disjoint_sorted_append disjoint_sorted_Cons not_less [symmetric])
  moreover have "n_end x \<le> n_start mg" if "x \<in> set pre" for x
    using that d' r(2) by (auto simp: mg(1) disjoint_sorted_append disjoint_sorted_Cons)
  moreover have "n_start mg < n_end mg"
    using r(1) by (auto simp: e mg(1) min_less_iff_disj)
  ultimately show "disjoint_sorted (pre @ mg # rest)"
    using d' by (auto simp: disjoint_sorted_append disjoint_sorted_Cons)
  have mgp: "range_points (rm_r mg) = range_points (rm_r m) \<union> range_points r \<union> (\<Union>n \<in> set T. range_points (rm_r n))"
  proof (intro set_eqI iffI)
    fix p assume "p \<in> range_points (rm_r mg)"
    then show "p \<in> range_points (rm_r m) \<union> range_points r \<union> (\<Union>n \<in> set T. range_points (rm_r n))"
      using T m by (force simp: range_points_def point_in_range_def e mg(1) min_le_iff_disj not_less)
  next
    fix p assume "p \<in> range_points (rm_r m) \<union> range_points r \<union> (\<Union>n \<in> set T. range_points (rm_r n))"
    moreover have "n_start m \<le> n_start x" if "x \<in> set T" for x
      using that d' by (auto simp: disjoint_sorted_append disjoint_sorted_Cons intro: order_trans [of _ "n_end m"] less_imp_le)
    ultimately show "p \<in> range_points (rm_r mg)"
      by (force simp: range_points_def point_in_range_def e mg(1) min_le_iff_disj)
  qed
  show "(\<Union>n \<in> set (pre @ mg # rest). range_points (rm_r n)) =
     (\<Union>n \<in> set (pre @ m # post). range_points (rm_r n)) \<union> range_points r"
    by (auto simp: mgp post)
qed

definition insert_range_start :: "rmnode rangemap \<Rightarrow> range \<Rightarrow> rmnode option" where
  "insert_range_start rm r =
     (let n = (case rbtree_lookup_max_lte rmnode_compare (rm_t rm) (key_node rm r) of
                 None \<Rightarrow> rbtree_find_first (rm_t rm)
               | Some n \<Rightarrow> Some n)
      in case n of
           Some m \<Rightarrow> (if n_end m < r_start r then rangemap_next_node rm m else n)
         | None \<Rightarrow> None)"

lemma insert_range_start_spec:
  assumes "rm_inv rm"
  obtains pre post where "rm_nodes rm = pre @ post" "insert_range_start rm r = hd_opt post"
    "\<forall>x \<in> set pre. n_end x \<le> r_start r" "\<forall>x \<in> set post. r_start r \<le> n_end x"
proof -
  have d: "disjoint_sorted (rm_nodes rm)" using assms by (simp add: rm_inv_def)
  have rest: "\<forall>x \<in> set ys. r_start r \<le> n_end x"
    if "disjoint_sorted ys" "ys = [] \<or> r_start r \<le> n_end (hd ys)" for ys :: "rmnode list"
    using that by (cases ys) (auto simp: disjoint_sorted_def, meson less_imp_le order_trans)
  have mx: "rbtree_lookup_max_lte rmnode_compare (rm_t rm) (key_node rm r) =
      last_opt (filter (\<lambda>x. n_start x \<le> r_start r) (rm_nodes rm))"
    using rmt.max_lte_internal_last [OF rm_inv_ordered [OF assms], of "key_node rm r"]
    by (simp add: rbtree_lookup_max_lte_def key_node_def)
  show ?thesis
  proof (cases "last_opt (filter (\<lambda>x. n_start x \<le> r_start r) (rm_nodes rm))")
    case None
    then have late: "\<forall>x \<in> set (rm_nodes rm). r_start r < n_start x"
      by (auto simp: last_opt_def filter_empty_conv not_le split: if_splits)
    then have "\<forall>x \<in> set (rm_nodes rm). r_start r \<le> n_end x"
      using d less_trans less_imp_le by (fastforce simp: disjoint_sorted_def)
    moreover have "insert_range_start rm r = hd_opt (rm_nodes rm)"
      using None mx calculation rbtree_find_first_hd [of "rm_t rm"]
      by (cases "rm_nodes rm") (auto simp: insert_range_start_def Let_def)
    ultimately show ?thesis using that [of "[]" "rm_nodes rm"] by simp
  next
    case (Some m)
    then have "m \<in> set (rm_nodes rm)" and ms: "n_start m \<le> r_start r" by (auto dest: last_opt_in_set)
    then obtain pre post where split: "rm_nodes rm = pre @ m # post" by (auto simp: in_set_conv_decomp)
    have pre: "\<forall>x \<in> set pre. n_end x \<le> r_start r"
      using d split ms by (auto simp: disjoint_sorted_append disjoint_sorted_Cons intro: order_trans [of _ "n_start m"])
    have late: "\<forall>x \<in> set post. r_start r < n_start x"
    proof (rule ccontr)
      let ?f = "filter (\<lambda>x. n_start x \<le> r_start r)"
      assume "\<not> ?thesis"
      then obtain y where "last_opt (?f post) = Some y"
        by (auto simp: last_opt_def not_less filter_empty_conv)
      moreover from this have "y = m" using Some split by (simp add: last_opt_append last_opt_Cons split: if_splits)
      ultimately have "m \<in> set post" by (auto dest: last_opt_in_set)
      then show False using disjoint_sorted_starts(2) [of pre m post m] d split by auto
    qed
    show ?thesis
    proof (cases "n_end m < r_start r")
      case True
      then show ?thesis
        using that [of "pre @ [m]" post] split pre Some mx rangemap_next_node_split [OF assms split] late d rest [of post]
        by (cases post) (auto simp: insert_range_start_def disjoint_sorted_append disjoint_sorted_Cons
            intro: less_imp_le order_trans)
    next
      case False
      then have "insert_range_start rm r = hd_opt (m # post)" using mx Some by (simp add: insert_range_start_def)
      moreover have "\<forall>x \<in> set (m # post). r_start r \<le> n_end x"
        using False d split by (intro rest) (auto simp: disjoint_sorted_append)
      ultimately show ?thesis using that split pre by blast
    qed
  qed
qed

lemma rangemap_insert_range_unfold:
  "rangemap_insert_range rm r = do {
     (rm, merged) \<leftarrow> insert_range_loop rm r None (insert_range_start rm r);
     if merged \<noteq> None then Some (rm, True)
     else (case rm_h rm 1 of
             None \<Rightarrow> Some (rm, False)
           | Some _ \<Rightarrow> do { (rm, _) \<leftarrow> rangemap_insert rm \<lparr>rm_r = r\<rparr>; Some (rm, True) })
   }"
  by (simp add: rangemap_insert_range_def insert_range_start_def Let_def)

lemma insert_range_first:
  assumes "rm_inv rm" "rm_nodes rm = pre @ m # post" "r_start r < r_end r"
    "\<forall>x \<in> set pre. n_end x \<le> r_start r" "r_start r \<le> n_end m" "n_start m \<le> r_end r"
  shows "ensures (insert_range_loop rm r None (Some m)) (\<lambda>(rm', merged). merged \<noteq> None \<and> rm_inv rm' \<and>
           rm_h rm' = rm_h rm \<and> rm_points rm' = rm_points rm \<union> range_points r)"
proof -
  define m' where "m' = m\<lparr>rm_r := irange (if n_start m > r_start r then r_start r else n_start m)
      (if n_end m < r_end r then r_end r else n_end m)\<rparr>"
  have m': "n_start m' = min (n_start m) (r_start r)" "n_end m' = max (n_end m) (r_end r)"
    by (auto simp: m'_def min_def max_def)
  have d: "disjoint_sorted (pre @ m # post)" and rb: "rmt.rb_inv (rm_t rm)" using assms(1,2) by (auto simp: rm_inv_def)
  have "\<forall>x \<in> set pre. n_start x < n_start m'"
    using d assms(4) by (auto simp: m'(1) disjoint_sorted_def sorted_wrt_append intro: less_le_trans)
  moreover have "\<forall>x \<in> set post. n_start m' < n_start x"
    using disjoint_sorted_starts(2) [OF d] by (auto simp: m'(1) min_less_iff_disj)
  ultimately have w: "rmt.rb_inv (rm_t (rangemap_write rm m m'))" "rm_nodes (rangemap_write rm m m') = pre @ m' # post"
      "rm_h (rangemap_write rm m m') = rm_h rm" "rm_k (rangemap_write rm m m') = rm_k rm"
    using rangemap_write_split [OF rb assms(2)] by auto
  have "merge_node rm r None m = Some (rangemap_write rm m m', Some m')"
    by (simp add: merge_node_def Let_def flip: m'_def)
  then have loop: "insert_range_loop rm r None (Some m) =
      insert_range_loop (rangemap_write rm m m') r (Some m') (hd_opt post)"
    using assms(6) rangemap_next_node_split [OF assms(1,2)] by (subst insert_range_loop.simps) simp
  show ?thesis
    unfolding loop
  proof (rule ensures_mono [OF insert_range_loop_merged [OF w(1,2), of r]], clarify)
    fix rm' mo mg
    assume rm': "rmt.rb_inv (rm_t rm')" "rm_h rm' = rm_h (rangemap_write rm m m')"
      and mg: "rm_r mg = irange (n_start m') (merged_end (n_end m') (takeWhile (\<lambda>n. n_start n \<le> r_end r) post))"
      and nodes: "rm_nodes rm' = pre @ mg # dropWhile (\<lambda>n. n_start n \<le> r_end r) post"
    note mr = merged_range [OF d assms(3-6), of mg, unfolded mg m', simplified]
    show "Some mo \<noteq> None \<and> rm_inv rm' \<and> rm_h rm' = rm_h rm \<and> rm_points rm' = rm_points rm \<union> range_points r"
      using rm' nodes w mr assms(2) by (simp add: rm_inv_def rm_points_def)
  qed
qed

lemma rangemap_insert_range_spec:
  assumes "rm_inv rm" "r_start r < r_end r"
  shows "ensures (rangemap_insert_range rm r) (\<lambda>(rm', ok). rm_inv rm' \<and> rm_h rm' = rm_h rm \<and>
           (if ok then rm_points rm' = rm_points rm \<union> range_points r else rm' = rm \<and> rm_h rm 1 = None))"
proof -
  from insert_range_start_spec [OF assms(1), of r]
  obtain pre post where s: "rm_nodes rm = pre @ post" "insert_range_start rm r = hd_opt post"
    "\<forall>x \<in> set pre. n_end x \<le> r_start r" "\<forall>x \<in> set post. r_start r \<le> n_end x" by blast
  have d: "disjoint_sorted (pre @ post)" using assms(1) s(1) by (simp add: rm_inv_def)
  show ?thesis
  proof (cases "post = [] \<or> r_end r < n_start (hd post)")
    case True
    then have loop: "insert_range_loop rm r None (hd_opt post) = Some (rm, None)"
      by (subst insert_range_loop.simps) (cases post; simp add: not_le [symmetric])
    have "\<forall>x \<in> set post. r_end r < n_start x"
      using True d disjoint_sorted_starts(2) [of pre "hd post" "tl post"] by (cases post) (auto intro: less_trans)
    then have free: "\<forall>x \<in> set (rm_nodes rm). \<not> ranges_intersect r (rm_r x)"
      using s(1,3) by (auto simp: ranges_intersect_iff not_less)
    show ?thesis
    proof (cases "rm_h rm 1")
      case None
      with loop s(2) assms(1) show ?thesis by (simp add: rangemap_insert_range_unfold)
    next
      case (Some c)
      obtain rm' where "rangemap_insert rm \<lparr>rm_r = r\<rparr> = Some (rm', True)" "rm_inv rm'" "rm_h rm' = rm_h rm"
          "set (rm_nodes rm') = insert \<lparr>rm_r = r\<rparr> (set (rm_nodes rm))"
        using rangemap_insert_spec [OF assms(1), of "\<lparr>rm_r = r\<rparr>"] assms(2) free by (auto elim!: ensuresE)
      with Some loop s(2) show ?thesis by (auto simp: rangemap_insert_range_unfold rm_points_def)
    qed
  next
    case False
    then obtain m post' where p: "post = m # post'" by (cases post) auto
    have "ensures (insert_range_loop rm r None (Some m)) (\<lambda>(rm', merged). merged \<noteq> None \<and> rm_inv rm' \<and>
           rm_h rm' = rm_h rm \<and> rm_points rm' = rm_points rm \<union> range_points r)"
      using insert_range_first [OF assms(1) _ assms(2) s(3), of m post'] s(1,4) p False by simp
    then show ?thesis
      using s(2) p by (auto simp: rangemap_insert_range_unfold elim!: ensuresE)
  qed
qed

section \<open>Cutting a hole\<close>

lemma range_points_split:
  assumes "r_start c \<le> r_start r" "r_end r \<le> r_end c" "r_start r < r_end r"
  shows "range_points c - range_points r =
           range_points (irange (r_start c) (r_start r)) \<union> range_points (irange (r_end r) (r_end c))"
  using assms by (auto simp: range_points_def point_in_range_def not_le not_less)

lemma range_points_empty: "\<not> r_start r < r_end r \<Longrightarrow> range_points r = {}"
  by (auto simp: range_points_def point_in_range_def)

lemma points_minus:
  assumes "apart N" "c \<in> N" "range_points r \<subseteq> range_points (rm_r c)"
  shows "(\<Union>n \<in> N. range_points (rm_r n)) - range_points r =
         (\<Union>n \<in> N - {c}. range_points (rm_r n)) \<union> (range_points (rm_r c) - range_points r)"
proof -
  have "\<forall>n \<in> N - {c}. range_points (rm_r n) \<inter> range_points (rm_r c) = {}"
    using assms(1,2) by (auto simp: apart_def ranges_intersect_points)
  with assms(2,3) show ?thesis by blast
qed

definition hole_cut :: "rmnode rangemap \<Rightarrow> range \<Rightarrow> rmnode rangemap \<Rightarrow> bool" where
  "hole_cut rm r rm' \<longleftrightarrow> rm_inv rm' \<and> rm_h rm' = rm_h rm \<and> rm_points rm' = rm_points rm - range_points r"

lemma reinsert_part:
  assumes "rm_inv rm" "c \<in> set (rm_nodes rm)" "n_start c \<le> r_start k" "r_end k \<le> n_end c" "r_start k < r_end k"
  shows "ensures (rangemap_reinsert rm c k) (\<lambda>(rm', ok). ok \<and> rm_inv rm' \<and> rm_h rm' = rm_h rm \<and>
           set (rm_nodes rm') = insert (c\<lparr>rm_r := k\<rparr>) (set (rm_nodes rm) - {c}))"
proof -
  have "range_points k \<subseteq> range_points (rm_r c)" using assms(3,4) by (auto simp: range_points_def point_in_range_def)
  then have "\<forall>m \<in> set (rm_nodes rm) - {c}. \<not> ranges_intersect k (rm_r m)"
    using assms(1,2) by (fastforce simp: rm_inv_iff apart_def ranges_intersect_points)
  then show ?thesis
    using rangemap_reinsert_spec [OF assms(1,2,5)] by (auto elim!: ensures_mono)
qed

lemma insert_hole_node_spec:
  assumes "rm_inv rm" "c \<in> set (rm_nodes rm)" "r_start r < r_end r"
  shows "ensures (the (fst (insert_hole_node rm r c None))) (\<lambda>(rm', ok).
           (if ok then range_contains (rm_r c) r \<and> hole_cut rm r rm'
            else rm' = rm \<and> (range_contains (rm_r c) r \<longrightarrow> rm_h rm 1 = None)))"
proof (cases "range_contains (rm_r c) r")
  case False
  then have "n_start c > r_start r \<or> n_end c < r_end r" by (auto simp: range_contains_def not_le)
  with False show ?thesis by (auto simp: insert_hole_node_def)
next
  case True
  then have c: "n_start c \<le> r_start r" "r_end r \<le> n_end c" by (auto simp: range_contains_def)
  have ap: "apart (set (rm_nodes rm))" using assms(1) by (simp add: rm_inv_iff)
  have "range_points r \<subseteq> range_points (rm_r c)" using c by (auto simp: range_points_def point_in_range_def)
  note pm = points_minus [OF ap assms(2) this, folded rm_points_def]
    range_points_split [OF c assms(3)]
  let ?l = "irange (n_start c) (r_start r)" and ?h = "irange (r_end r) (n_end c)"
  consider (mid) "n_start c < r_start r" "r_end r < n_end c" | (low) "n_start c < r_start r" "\<not> r_end r < n_end c"
    | (high) "\<not> n_start c < r_start r" "r_end r < n_end c" | (all) "\<not> n_start c < r_start r" "\<not> r_end r < n_end c"
    by blast
  then show ?thesis
  proof cases
    case low
    have "ensures (rangemap_reinsert rm c ?l) (\<lambda>(rm', ok). ok \<and> rm_inv rm' \<and> rm_h rm' = rm_h rm \<and>
           set (rm_nodes rm') = insert (c\<lparr>rm_r := ?l\<rparr>) (set (rm_nodes rm) - {c}))"
      using low c assms by (intro reinsert_part) (auto intro: less_imp_le less_le_trans order_trans)
    moreover have "range_points ?h = {}" using low by (intro range_points_empty) simp
    ultimately show ?thesis
      using low c True pm by (auto simp: insert_hole_node_def not_less hole_cut_def rm_points_def elim!: ensuresE)
  next
    case high
    have "ensures (rangemap_reinsert rm c ?h) (\<lambda>(rm', ok). ok \<and> rm_inv rm' \<and> rm_h rm' = rm_h rm \<and>
           set (rm_nodes rm') = insert (c\<lparr>rm_r := ?h\<rparr>) (set (rm_nodes rm) - {c}))"
      using high c assms by (intro reinsert_part) (auto intro: less_imp_le le_less_trans order_trans)
    moreover have "range_points ?l = {}" using high by (intro range_points_empty) simp
    ultimately show ?thesis
      using high c True pm by (auto simp: insert_hole_node_def not_less hole_cut_def rm_points_def elim!: ensuresE)
  next
    case all
    moreover have "range_points ?l = {}" "range_points ?h = {}" using all by (intro range_points_empty; simp)+
    ultimately show ?thesis
      using c True pm rangemap_remove_node_spec [OF assms(1,2)]
      by (auto simp: insert_hole_node_def rangemap_remove_range_def not_less hole_cut_def rm_points_def elim!: ensuresE)
  next
    case mid
    show ?thesis
    proof (cases "rm_h rm 1")
      case None
      with mid c True show ?thesis by (auto simp: insert_hole_node_def not_less)
    next
      case (Some x)
      have "r_start r \<le> n_end c" using mid(2) assms(3) by (meson less_imp_le less_trans)
      then obtain rm1 where rm1: "rangemap_reinsert rm c ?l = Some (rm1, True)" "rm_inv rm1" "rm_h rm1 = rm_h rm"
          "set (rm_nodes rm1) = insert (c\<lparr>rm_r := ?l\<rparr>) (set (rm_nodes rm) - {c})"
        using reinsert_part [OF assms(1,2), of ?l] mid by (auto elim!: ensuresE)
      have "range_points ?h \<subseteq> range_points (rm_r c)" "range_points ?h \<inter> range_points ?l = {}"
        using mid assms(3) by (auto simp: range_points_def point_in_range_def)
      then have "\<forall>m \<in> set (rm_nodes rm1). \<not> ranges_intersect ?h (rm_r m)"
        using ap assms(2) by (fastforce simp: rm1(4) apart_def ranges_intersect_points)
      then obtain rm2 where rm2: "rangemap_insert rm1 \<lparr>rm_r = ?h\<rparr> = Some (rm2, True)" "rm_inv rm2" "rm_h rm2 = rm_h rm1"
          "set (rm_nodes rm2) = insert \<lparr>rm_r = ?h\<rparr> (set (rm_nodes rm1))"
        using rangemap_insert_spec [OF rm1(2), of "\<lparr>rm_r = ?h\<rparr>"] mid by (auto elim!: ensuresE)
      have "hole_cut rm r rm2"
        using rm1 rm2 pm by (auto simp: hole_cut_def rm_points_def)
      with rm1(1) rm2(1) mid Some True show ?thesis
        by (simp add: insert_hole_node_def not_less less_imp_le)
    qed
  qed
qed

lemma rangemap_insert_hole_spec:
  assumes "rm_inv rm" "r_start r < r_end r"
  shows "ensures (rangemap_insert_hole rm r) (\<lambda>(rm', ok).
           (if ok then (\<exists>n \<in> set (rm_nodes rm). range_contains (rm_r n) r) \<and> hole_cut rm r rm'
            else rm' = rm \<and> ((\<exists>n \<in> set (rm_nodes rm). range_contains (rm_r n) r) \<longrightarrow> rm_h rm 1 = None)))"
proof -
  let ?xs = "filter (\<lambda>n. ranges_intersect r (rm_r n)) (rm_nodes rm)"
  have ap: "apart (set (rm_nodes rm))" using assms(1) by (simp add: rm_inv_iff)
  have meets: "ranges_intersect r (rm_r n)" if "range_contains (rm_r n) r" for n :: rmnode
    using that assms(2) by (auto simp: range_contains_def ranges_intersect_iff intro: less_le_trans le_less_trans)
  show ?thesis
  proof (cases ?xs)
    case Nil
    then have "\<not> (\<exists>n \<in> set (rm_nodes rm). range_contains (rm_r n) r)" using meets by (auto simp: filter_empty_conv)
    with Nil show ?thesis by (simp add: rangemap_insert_hole_def foreach_of_range_fold [OF assms(1)])
  next
    case (Cons c cs)
    then have "c \<in> set ?xs" by simp
    then have c: "c \<in> set (rm_nodes rm)" "ranges_intersect r (rm_r c)" by simp_all
    have only: "n = c" if n: "n \<in> set (rm_nodes rm)" "range_contains (rm_r n) r" for n
    proof (rule ccontr)
      assume "n \<noteq> c"
      then have "range_points (rm_r n) \<inter> range_points (rm_r c) = {}"
        using ap n(1) c(1) by (auto simp: apart_def ranges_intersect_points)
      moreover have "range_points r \<subseteq> range_points (rm_r n)"
        using n(2) by (auto simp: range_contains_def range_points_def point_in_range_def)
      ultimately show False using c(2) by (auto simp: ranges_intersect_points)
    qed
    have "rangemap_insert_hole rm r = the (fst (insert_hole_node rm r c None))"
      using Cons by (simp add: rangemap_insert_hole_def foreach_of_range_fold [OF assms(1)])
        (simp add: insert_hole_node_def)
    then show ?thesis
      by (simp only:) (rule ensures_mono [OF insert_hole_node_spec [OF assms(1) c(1) assms(2)]],
        use only c(1) in \<open>auto split: if_splits\<close>)
  qed
qed

section \<open>Nodes and gaps\<close>

text \<open>The gaps of a range between the nodes that meet it, as the lookup with gaps finds them.\<close>

fun gaps :: "range \<Rightarrow> u64 \<Rightarrow> 'a rmnode_scheme list \<Rightarrow> range list" where
  "gaps q edge [] = (let i = range_intersection (irange edge (r_end q)) q in if range_span i \<noteq> 0 then [i] else [])"
| "gaps q edge (n # ns) =
     (let i = range_intersection (irange edge (n_start n)) q in
      (if range_span i \<noteq> 0 then [i] else []) @ gaps q (n_end n) ns)"

definition outcome :: "(bool \<times> 's) \<times> bool \<Rightarrow> 's \<times> rm_match" where
  "outcome = (\<lambda>((match, s), ok). (s, if \<not> ok then RM_ABORT else if match then RM_MATCH else RM_NOMATCH))"

lemma find_gaps_loop:
  "(let (((match, s), lastedge), ok) = fold_until (range_lookup_node q None (Some gh)) ns ((match, s), edge)
    in outcome (if ok then gap_step gh q (irange lastedge (r_end q)) (match, s) else ((match, s), False))) =
   (let gs = gaps q edge ns; (s', ok) = fold_until gh gs s in outcome ((match \<or> gs \<noteq> [], s'), ok))"
  by (induction ns arbitrary: match s edge)
     (auto simp: gap_step_def range_lookup_node_def Let_def outcome_def split: prod.splits)

lemma gaps_points:
  assumes "disjoint_sorted ns" "\<forall>n \<in> set ns. edge \<le> n_end n"
  shows "(\<Union>g \<in> set (gaps q edge ns). range_points g) =
         {p \<in> range_points q. edge \<le> p} - (\<Union>n \<in> set ns. range_points (rm_r n))"
  using assms
proof (induction ns arbitrary: edge)
  case Nil
  have "range_points (range_intersection (irange edge (r_end q)) q) = {p \<in> range_points q. edge \<le> p}"
    unfolding range_intersection_points by (auto simp: range_points_def point_in_range_def)
  then show ?case by (auto simp: Let_def ranges_intersect_points range_intersection_points)
next
  case (Cons n ns)
  have IH: "(\<Union>g \<in> set (gaps q (n_end n) ns). range_points g) =
      {p \<in> range_points q. n_end n \<le> p} - (\<Union>n \<in> set ns. range_points (rm_r n))"
    using Cons.prems(1) by (intro Cons.IH) (auto simp: disjoint_sorted_def intro: less_imp_le le_less_trans order_trans)
  have i: "range_points (range_intersection (irange edge (n_start n)) q) = {p \<in> range_points q. edge \<le> p \<and> p < n_start n}"
    unfolding range_intersection_points by (auto simp: range_points_def point_in_range_def)
  have first: "(\<Union>g \<in> set (let i = range_intersection (irange edge (n_start n)) q in if range_span i \<noteq> 0 then [i] else []). range_points g) =
      {p \<in> range_points q. edge \<le> p \<and> p < n_start n}"
    using i by (auto simp: Let_def ranges_intersect_points range_intersection_points)
  have late: "p \<notin> range_points (rm_r m)" if "m \<in> set ns" "p < n_start n" for m p
    using Cons.prems(1) that by (auto simp: disjoint_sorted_Cons range_points_def point_in_range_def)
  have "(\<Union>g \<in> set (gaps q edge (n # ns)). range_points g) =
      {p \<in> range_points q. edge \<le> p \<and> p < n_start n} \<union>
      ({p \<in> range_points q. n_end n \<le> p} - (\<Union>n \<in> set ns. range_points (rm_r n)))"
    using first IH by (simp add: Let_def)
  also have "\<dots> = {p \<in> range_points q. edge \<le> p} - (\<Union>n \<in> set (n # ns). range_points (rm_r n))"
  proof (intro set_eqI iffI)
    fix p assume "p \<in> {p \<in> range_points q. edge \<le> p \<and> p < n_start n} \<union>
      ({p \<in> range_points q. n_end n \<le> p} - (\<Union>n \<in> set ns. range_points (rm_r n)))"
    then show "p \<in> {p \<in> range_points q. edge \<le> p} - (\<Union>n \<in> set (n # ns). range_points (rm_r n))"
      using late Cons.prems(2) by (auto simp: range_points_def point_in_range_def)
  next
    fix p assume "p \<in> {p \<in> range_points q. edge \<le> p} - (\<Union>n \<in> set (n # ns). range_points (rm_r n))"
    then show "p \<in> {p \<in> range_points q. edge \<le> p \<and> p < n_start n} \<union>
      ({p \<in> range_points q. n_end n \<le> p} - (\<Union>n \<in> set ns. range_points (rm_r n)))"
      by (auto simp: range_points_def point_in_range_def)
  qed
  finally show ?case .
qed

abbreviation meeting :: "range \<Rightarrow> 'a rmnode_scheme rangemap \<Rightarrow> 'a rmnode_scheme list" where
  "meeting q rm \<equiv> filter (\<lambda>n. ranges_intersect q (rm_r n)) (rm_nodes rm)"

lemma range_find_gaps_fold:
  assumes "rm_inv rm"
  shows "rangemap_range_find_gaps rm q gh s =
           (let gs = gaps q (r_start q) (meeting q rm); (s', ok) = fold_until gh gs s
            in Some (outcome ((gs \<noteq> [], s'), ok)))"
  using find_gaps_loop [of q gh "meeting q rm" False s "r_start q"]
  by (auto simp: rangemap_range_find_gaps_def rangemap_range_lookup_internal_def foreach_of_range_fold [OF assms]
      Let_def outcome_def split: prod.splits if_splits)

lemma gaps_meeting_points:
  assumes "rm_inv rm"
  shows "(\<Union>g \<in> set (gaps q (r_start q) (meeting q rm)). range_points g) = range_points q - rm_points rm"
proof -
  have d: "disjoint_sorted (meeting q rm)"
    using assms by (auto simp: rm_inv_def disjoint_sorted_def sorted_wrt_filter)
  have "\<forall>n \<in> set (meeting q rm). r_start q \<le> n_end n" by (auto simp: ranges_intersect_iff)
  note gaps_points [OF d this]
  moreover have "range_points q \<inter> (\<Union>n \<in> set (meeting q rm). range_points (rm_r n)) = range_points q \<inter> rm_points rm"
    by (auto simp: rm_points_def ranges_intersect_points)
  moreover have "{p \<in> range_points q. r_start q \<le> p} = range_points q"
    by (auto simp: range_points_def point_in_range_def)
  ultimately show ?thesis by auto
qed

lemma node_lookup_loop:
  assumes "\<forall>n \<in> set ns. ranges_intersect q (rm_r n)"
  shows "fold_until (range_lookup_node q (Some nh) None) ns ((match, s), edge) =
         (let (s', ok) = fold_until nh ns s in (((match \<or> ns \<noteq> [], s'), edge), ok))"
  using assms
  by (induction ns arbitrary: match s)
     (auto simp: range_lookup_node_def Let_def ranges_intersect_sym split: prod.splits)

lemma range_lookup_fold:
  assumes "rm_inv rm"
  shows "rangemap_range_lookup rm q nh s =
           (let (s', ok) = fold_until nh (meeting q rm) s in Some (outcome ((meeting q rm \<noteq> [], s'), ok)))"
  using node_lookup_loop [of "meeting q rm" q nh False s "r_start q"]
  by (auto simp: rangemap_range_lookup_def rangemap_range_lookup_internal_def foreach_of_range_fold [OF assms]
      Let_def outcome_def split: prod.splits)

section \<open>Properties\<close>

text \<open>Sequences of insertions and removals on the tree under a range map, as a client makes them.\<close>

datatype rb_op = Insert_node rmnode | Remove_key rmnode

fun rb_run :: "rb_op list \<Rightarrow> rmnode rbtree \<Rightarrow> rmnode rbtree option" where
  "rb_run [] t = Some t"
| "rb_run (Insert_node n # ops) t = rbtree_insert_node rmnode_compare t n \<bind> (\<lambda>(t', _). rb_run ops t')"
| "rb_run (Remove_key k # ops) t = rbtree_remove_by_key rmnode_compare t k \<bind> (\<lambda>(t', _). rb_run ops t')"

fun rb_spec :: "rb_op list \<Rightarrow> (u64 \<rightharpoonup> rmnode) \<Rightarrow> (u64 \<rightharpoonup> rmnode)" where
  "rb_spec [] m = m"
| "rb_spec (Insert_node n # ops) m = rb_spec ops (if m (n_start n) = None then m(n_start n \<mapsto> n) else m)"
| "rb_spec (Remove_key k # ops) m = rb_spec ops (m(n_start k := None))"

definition rb_map :: "rmnode rbtree \<Rightarrow> (u64 \<rightharpoonup> rmnode)" where
  "rb_map t k = rbtree_lookup rmnode_compare t \<lparr>rm_r = irange k (k + 1)\<rparr>"

lemma rb_map_find:
  "rmt.rb_inv t \<Longrightarrow> rb_map t k = List.find (\<lambda>x. n_start x = k) (inorder (rb_root t))"
  by (simp add: rb_map_def rbtree_lookup_def rmt.lookup_loop_find rmt.rb_inv_def)

lemma find_sorted_iff:
  assumes "sorted_wrt (\<lambda>a b :: 'a rmnode_scheme. n_start a < n_start b) xs"
  shows "List.find (\<lambda>x. n_start x = k) xs = Some y \<longleftrightarrow> y \<in> set xs \<and> n_start y = k"
  using assms by (induction xs) auto

lemma rb_map_iff: "rmt.rb_inv t \<Longrightarrow> rb_map t k = Some y \<longleftrightarrow> y \<in> set (inorder (rb_root t)) \<and> n_start y = k"
  by (simp add: rb_map_find find_sorted_iff rmt.rb_inv_def rmt.ordered_def)

lemma map_eq_by_Some: "(\<And>k y. m k = Some y \<longleftrightarrow> m' k = Some y) \<Longrightarrow> m = m'"
  by (rule ext) (metis not_None_eq)

lemma rb_map_none: "rmt.rb_inv t \<Longrightarrow> rb_map t k = None \<longleftrightarrow> k \<notin> n_start ` set (inorder (rb_root t))"
  by (auto simp: rb_map_find find_None_iff)

lemma rb_map_insert:
  assumes "rmt.rb_inv t"
  shows "ensures (rbtree_insert_node rmnode_compare t n) (\<lambda>(t', ok). rmt.rb_inv t' \<and>
           rb_map t' = (if rb_map t (n_start n) = None then (rb_map t)(n_start n \<mapsto> n) else rb_map t) \<and>
           (ok \<longleftrightarrow> rb_map t (n_start n) = None))"
proof -
  obtain t' ok where ins: "rbtree_insert_node rmnode_compare t n = Some (t', ok)"
      "ok \<longleftrightarrow> n_start n \<notin> n_start ` set (inorder (rb_root t))"
    and t': "rmt.rb_inv t'" "inorder (rb_root t') = rmt.insert_in n (inorder (rb_root t))"
    using rmt.rbtree_insert_node_spec [OF assms, of n] by (auto elim!: ensuresE)
  show ?thesis
  proof (cases "n_start n \<in> n_start ` set (inorder (rb_root t))")
    case True
    then have "rb_map t' = rb_map t"
      using t' assms by (intro map_eq_by_Some) (simp add: rmt.insert_in_def rb_map_iff)
    with True ins t'(1) assms show ?thesis by (simp add: rb_map_none)
  next
    case False
    then have "set (inorder (rb_root t')) = insert n (set (inorder (rb_root t)))"
      using t'(2) by (auto simp: rmt.insert_in_def neq_iff)
    moreover have "y \<in> set (inorder (rb_root t)) \<Longrightarrow> n_start y \<noteq> n_start n" for y using False by (metis image_eqI)
    ultimately have "rb_map t' = (rb_map t)(n_start n \<mapsto> n)"
      using t'(1) assms by (intro map_eq_by_Some) (auto simp: rb_map_iff)
    with False ins t'(1) assms show ?thesis by (simp add: rb_map_none)
  qed
qed

lemma rb_map_remove:
  assumes "rmt.rb_inv t"
  shows "ensures (rbtree_remove_by_key rmnode_compare t k) (\<lambda>(t', ok). rmt.rb_inv t' \<and>
           rb_map t' = (rb_map t)(n_start k := None) \<and> (ok \<longleftrightarrow> rb_map t (n_start k) \<noteq> None))"
proof -
  obtain t' ok where rem: "rbtree_remove_by_key rmnode_compare t k = Some (t', ok)"
      "ok \<longleftrightarrow> n_start k \<in> n_start ` set (inorder (rb_root t))"
    and t': "rmt.rb_inv t'" "inorder (rb_root t') = rmt.delete_in k (inorder (rb_root t))"
    using rmt.rbtree_remove_by_key_spec [OF assms, of k] by (auto elim!: ensuresE)
  have "rb_map t' = (rb_map t)(n_start k := None)"
    using t' assms by (intro map_eq_by_Some) (auto simp: rb_map_iff rmt.delete_in_def)
  with rem t'(1) assms show ?thesis by (simp add: rb_map_none)
qed

lemma rb_run_spec:
  "rmt.rb_inv t \<Longrightarrow> ensures (rb_run ops t) (\<lambda>t'. rmt.rb_inv t' \<and> rb_map t' = rb_spec ops (rb_map t))"
proof (induction ops arbitrary: t)
  case (Cons op ops)
  show ?case
  proof (cases op)
    case (Insert_node n)
    obtain t' ok where "rbtree_insert_node rmnode_compare t n = Some (t', ok)" "rmt.rb_inv t'"
        "rb_map t' = (if rb_map t (n_start n) = None then (rb_map t)(n_start n \<mapsto> n) else rb_map t)"
      using rb_map_insert [OF Cons.prems, of n] by (auto elim!: ensuresE)
    with Insert_node Cons.IH [of t'] show ?thesis by simp
  next
    case (Remove_key k)
    obtain t' ok where "rbtree_remove_by_key rmnode_compare t k = Some (t', ok)" "rmt.rb_inv t'"
        "rb_map t' = (rb_map t)(n_start k := None)"
      using rb_map_remove [OF Cons.prems, of k] by (auto elim!: ensuresE)
    with Remove_key Cons.IH [of t'] show ?thesis by (simp del: fun_upd_apply)
  qed
qed simp

text \<open>C1: Any sequence of insertions and removals of range nodes on an initially empty red-black tree runs
  to the end (no assertion of \<^verbatim>\<open>rbtree.c\<close> fails), and the tree it leaves holds exactly the nodes that
  the same sequence leaves in a map keyed by range start: an insertion of a present key changes
  nothing, a removal of an absent key changes nothing.\<close>

theorem rbtree_refines_map:
  "\<exists>t. rb_run ops init_rbtree = Some t \<and> rb_map t = rb_spec ops Map.empty"
proof -
  have "rb_map init_rbtree = Map.empty" by (auto simp: rb_map_def rbtree_lookup_def init_rbtree_def)
  then show ?thesis using rb_run_spec [OF rmt.rb_inv_init, of ops] by (auto simp: ensures_def)
qed


text \<open>C23: The depth of such a tree is logarithmic: half its height is at most the binary logarithm of
  the number of its nodes plus one.\<close>

theorem rbtree_run_height:
  "\<exists>t. rb_run ops init_rbtree = Some t \<and> 2 ^ (height (rb_root t) div 2) \<le> rb_count t + 1"
proof -
  obtain t where t: "rb_run ops init_rbtree = Some t" "rmt.rb_inv t"
    using rb_run_spec [OF rmt.rb_inv_init, of ops] by (auto simp: ensures_def)
  then have l: "llrb (rb_root t)" "\<not> is_red (rb_root t)" "rb_count t = length (inorder (rb_root t))"
    by (auto simp: rmt.rb_inv_def)
  have "height (rb_root t) div 2 \<le> bheight (rb_root t)" using llrb_height [OF l(1)] l(2) by simp
  then have "2 ^ (height (rb_root t) div 2) \<le> (2::nat) ^ bheight (rb_root t)" by (rule power_increasing) simp
  also have "\<dots> \<le> rb_count t + 1" using llrb_size [OF l(1)] l(3) by simp
  finally show ?thesis using t(1) by blast
qed

text \<open>A range map with the two nodes \<open>[0, 8)\<close> and \<open>[16, 24)\<close>, for the witnesses.\<close>

definition two_ranges :: "rmnode rangemap" where
  "two_ranges =
     \<lparr>rm_h = (\<lambda>n. Some (replicate n \<lparr>rm_r = irange 0 0\<rparr>)),
      rm_t = \<lparr>rb_root = Node Black (Node Red Null \<lparr>rm_r = irange 0 8\<rparr> Null) \<lparr>rm_r = irange 16 24\<rparr> Null, rb_count = 2\<rparr>,
      rm_k = \<lparr>rm_r = irange 0 0\<rparr>\<rparr>"

lemma two_ranges_inv: "rm_inv two_ranges"
  by (simp add: two_ranges_def rm_inv_def rmt.rb_inv_def rmt.ordered_def disjoint_sorted_def)

text \<open>C19: Inserting a nonempty range node into a well-formed range map never halts; it succeeds exactly
  when the range meets no node, and then the map has that node besides the old ones; otherwise the
  map is unchanged. The invariant (sorted, nonempty, disjoint ranges in a valid tree) is kept.\<close>

theorem rangemap_insert_correct:
  assumes "rm_inv rm" "r_start (rm_r n) < r_end (rm_r n)"
  shows "\<exists>rm' ok. rangemap_insert rm n = Some (rm', ok) \<and> rm_inv rm' \<and>
           (ok \<longleftrightarrow> range_points (rm_r n) \<inter> rm_points rm = {}) \<and>
           set (rm_nodes rm') = (if ok then insert n (set (rm_nodes rm)) else set (rm_nodes rm))"
proof -
  have eq: "(\<forall>m \<in> set (rm_nodes rm). \<not> ranges_intersect (rm_r n) (rm_r m)) \<longleftrightarrow> range_points (rm_r n) \<inter> rm_points rm = {}"
    by (auto simp: rm_points_def ranges_intersect_points)
  show ?thesis
    using rangemap_insert_spec [OF assms, unfolded eq] unfolding ensures_def split_paired_Ex prod.case by blast
qed

theorem rangemap_insert_witness:
  "rm_inv two_ranges \<and>
   (\<exists>rm' ok. rangemap_insert two_ranges \<lparr>rm_r = irange 8 16\<rparr> = Some (rm', ok) \<and> rm_inv rm' \<and>
      (ok \<longleftrightarrow> range_points (irange 8 16) \<inter> rm_points two_ranges = {}) \<and>
      set (rm_nodes rm') = (if ok then insert \<lparr>rm_r = irange 8 16\<rparr> (set (rm_nodes two_ranges)) else set (rm_nodes two_ranges)))"
  using rangemap_insert_correct [of two_ranges "\<lparr>rm_r = irange 8 16\<rparr>"] two_ranges_inv by simp

text \<open>C20: \<^verbatim>\<open>rangemap_insert_range\<close> on a nonempty range merges it with every node it touches: afterwards the
  map covers exactly the points it covered before and those of the range, in nonempty disjoint
  ranges again. It can only fail when the heap has no memory for a new node, and then the map is
  unchanged.\<close>

theorem rangemap_insert_range_correct:
  assumes "rm_inv rm" "r_start r < r_end r"
  shows "\<exists>rm' ok. rangemap_insert_range rm r = Some (rm', ok) \<and> rm_inv rm' \<and>
           (if ok then rm_points rm' = rm_points rm \<union> range_points r else rm' = rm \<and> rm_h rm 1 = None)"
  using rangemap_insert_range_spec [OF assms] unfolding ensures_def split_paired_Ex prod.case by blast

theorem rangemap_insert_range_witness:
  "rm_inv two_ranges \<and>
   (\<exists>rm' ok. rangemap_insert_range two_ranges (irange 4 20) = Some (rm', ok) \<and> rm_inv rm' \<and>
      (if ok then rm_points rm' = rm_points two_ranges \<union> range_points (irange 4 20)
       else rm' = two_ranges \<and> rm_h two_ranges 1 = None))"
  using rangemap_insert_range_correct [of two_ranges "irange 4 20"] two_ranges_inv by simp

text \<open>C21: \<^verbatim>\<open>rangemap_insert_hole\<close> on a nonempty range succeeds only if one node contains the range, and then
  exactly the points of the range are gone; a split that finds no memory, and a range that no node
  contains, leave the map as it is.\<close>

theorem rangemap_insert_hole_correct:
  assumes "rm_inv rm" "r_start r < r_end r"
  shows "\<exists>rm' ok. rangemap_insert_hole rm r = Some (rm', ok) \<and>
           (if ok then (\<exists>n \<in> set (rm_nodes rm). range_contains (rm_r n) r) \<and> rm_inv rm' \<and>
              rm_points rm' = rm_points rm - range_points r
            else rm' = rm \<and> ((\<exists>n \<in> set (rm_nodes rm). range_contains (rm_r n) r) \<longrightarrow> rm_h rm 1 = None))"
proof -
  obtain rm' ok where "rangemap_insert_hole rm r = Some (rm', ok)"
      "if ok then (\<exists>n \<in> set (rm_nodes rm). range_contains (rm_r n) r) \<and> hole_cut rm r rm'
       else rm' = rm \<and> ((\<exists>n \<in> set (rm_nodes rm). range_contains (rm_r n) r) \<longrightarrow> rm_h rm 1 = None)"
    using rangemap_insert_hole_spec [OF assms] unfolding ensures_def split_paired_Ex prod.case by blast
  then show ?thesis by (cases ok) (auto simp: hole_cut_def)
qed

theorem rangemap_insert_hole_witness:
  "rm_inv two_ranges \<and>
   (\<exists>rm' ok. rangemap_insert_hole two_ranges (irange 18 20) = Some (rm', ok) \<and>
      (if ok then (\<exists>n \<in> set (rm_nodes two_ranges). range_contains (rm_r n) (irange 18 20)) \<and> rm_inv rm' \<and>
         rm_points rm' = rm_points two_ranges - range_points (irange 18 20)
       else rm' = two_ranges \<and>
         ((\<exists>n \<in> set (rm_nodes two_ranges). range_contains (rm_r n) (irange 18 20)) \<longrightarrow> rm_h two_ranges 1 = None)))"
  using rangemap_insert_hole_correct [of two_ranges "irange 18 20"] two_ranges_inv by simp

text \<open>\<^verbatim>\<open>rangemap_lookup\<close> terminates and finds the node whose range holds the point: it returns a node
  exactly when some range of the map holds the point, and then the only such node.\<close>

theorem rangemap_lookup_correct:
  assumes "rm_inv rm"
  shows "\<exists>r. rangemap_lookup rm p = Some r \<and>
           (\<forall>n. r = Some n \<longleftrightarrow> n \<in> set (rm_nodes rm) \<and> point_in_range (rm_r n) p)"
proof -
  let ?xs = "filter (\<lambda>n. point_in_range (rm_r n) p) (rm_nodes rm)"
  have one: "m = n" if "m \<in> set ?xs" "n \<in> set ?xs" for m n
    using that assms by (auto simp: rm_inv_iff apart_def ranges_intersect_points range_points_def)
  have "hd_opt ?xs = Some n \<longleftrightarrow> n \<in> set ?xs" for n
    using one [of "hd ?xs" n] by (cases ?xs) (auto simp: hd_opt_def)
  then show ?thesis by (simp add: rangemap_lookup_find [OF assms])
qed

theorem rangemap_lookup_witness:
  "rm_inv two_ranges \<and> (\<exists>r. rangemap_lookup two_ranges 17 = Some r \<and>
     (\<forall>n. r = Some n \<longleftrightarrow> n \<in> set (rm_nodes two_ranges) \<and> point_in_range (rm_r n) 17))"
  using rangemap_lookup_correct [of two_ranges 17] two_ranges_inv by simp

text \<open>C22: The gap search calls its handler on ranges that together cover exactly the points of the query
  range that no node covers, and reports a match exactly when there is such a gap (shown for a
  handler that collects the gaps).\<close>

theorem rangemap_find_gaps_correct:
  assumes "rm_inv rm"
  shows "\<exists>gs. rangemap_range_find_gaps rm q (\<lambda>g acc. (acc @ [g], True)) [] =
           Some (gs, if gs = [] then RM_NOMATCH else RM_MATCH) \<and>
         (\<Union>g \<in> set gs. range_points g) = range_points q - rm_points rm"
proof -
  have "fold_until (\<lambda>g acc. (acc @ [g], True)) gs acc = (acc @ gs, True)" for gs acc :: "range list"
    by (induction gs arbitrary: acc) auto
  then show ?thesis
    using gaps_meeting_points [OF assms, of q]
    by (simp add: range_find_gaps_fold [OF assms] outcome_def Let_def)
qed

theorem rangemap_find_gaps_witness:
  "rm_inv two_ranges \<and>
   (\<exists>gs. rangemap_range_find_gaps two_ranges (irange 4 32) (\<lambda>g acc. (acc @ [g], True)) [] =
           Some (gs, if gs = [] then RM_NOMATCH else RM_MATCH) \<and>
         (\<Union>g \<in> set gs. range_points g) = range_points (irange 4 32) - rm_points two_ranges)"
  using rangemap_find_gaps_correct [of two_ranges "irange 4 32"] two_ranges_inv by simp

end
