(* ===== verification/Bitmap.thy ===== *)
theory Bitmap
  imports Buffer
begin

text \<open>
  The bitmap allocator of \<^verbatim>\<open>src/kernel/src/runtime/bitmap.h\<close> and \<^verbatim>\<open>bitmap.c\<close>.

  The map is the buffer \<^verbatim>\<open>alloc_map\<close>, which the code reads and writes as 64-bit words; its cells here
  are those words, and an access to a word outside the buffer is a failure. Bit numbers are \<^verbatim>\<open>u64\<close>
  in the code; they are natural numbers here, with the reduction modulo \<open>2 ^ 64\<close> written out where
  the code adds.
\<close>

section \<open>Bits of a word\<close>

text \<open>\<^verbatim>\<open>msb\<close> and \<^verbatim>\<open>lsb\<close> of \<^verbatim>\<open>x86_64/def64.h\<close> and \<^verbatim>\<open>aarch64/machine.h\<close>; \<open>None\<close> is \<^verbatim>\<open>INVALID_PHYSICAL\<close>.\<close>

fun msb :: "nat \<Rightarrow> nat" where
  "msb x = (if x \<le> 1 then 0 else Suc (msb (x div 2)))"

definition lsb :: "u64 \<Rightarrow> nat option" where
  "lsb w = List.find (bit w) [0..<64]"

definition find_order :: "nat \<Rightarrow> nat" where
  "find_order x = (if x > 1 then msb (x - 1) + 1 else 0)"

definition u64_add :: "nat \<Rightarrow> nat \<Rightarrow> nat" where
  "u64_add a b = (a + b) mod 2 ^ 64"

text \<open>The macro \<^verbatim>\<open>pad\<close>, for a size that is a power of two.\<close>

definition pad :: "nat \<Rightarrow> nat \<Rightarrow> nat" where
  "pad x s = u64_add (u64_add x (2 ^ 64 - 1) div s * s) s"

definition word_op :: "u64 \<Rightarrow> u64 \<Rightarrow> bool \<Rightarrow> bool \<Rightarrow> u64 \<times> bool" where
  "word_op w msk st val =
     (if st then (if val then w OR msk else w AND NOT msk, True)
      else let masked = msk AND w in (w, (if val then masked else masked XOR msk) = msk))"

definition word_op_at :: "u64 list \<Rightarrow> nat \<Rightarrow> u64 \<Rightarrow> bool \<Rightarrow> bool \<Rightarrow> (u64 list \<times> bool) option" where
  "word_op_at ws k msk st val =
     (if k < length ws then let (w, r) = word_op (ws ! k) msk st val in Some (ws[k := w], r) else None)"

text \<open>The loop over the whole words of a range.\<close>

function words_loop :: "u64 list \<Rightarrow> nat \<Rightarrow> nat \<Rightarrow> bool \<Rightarrow> bool \<Rightarrow> (u64 list \<times> bool) option" where
  "words_loop ws w wend st val =
     (if w < wend then do {
        (ws, r) \<leftarrow> word_op_at ws w (- 1) st val;
        if r then words_loop ws (w + 1) wend st val else Some (ws, False)
      } else Some (ws, True))"
  by pat_completeness auto
termination
  by (relation "measure (\<lambda>(ws, w, wend, st, val). wend - w)") auto

declare words_loop.simps [simp del]

definition for_range_in_map :: "u64 list \<Rightarrow> nat \<Rightarrow> nat \<Rightarrow> bool \<Rightarrow> bool \<Rightarrow> (u64 list \<times> bool) option" where
  "for_range_in_map ws start nbits st val =
     (let end' = u64_add start nbits; head = start mod 64; tail = end' mod 64 in
      if nbits = 0 then Some (ws, True)
      else
        (let msk = - 1;
             single = (u64_add head nbits \<le> 64);
             msk = (if head \<noteq> 0 then msk AND NOT (mask head) else msk);
             msk = (if tail \<noteq> 0 \<and> single then msk AND mask tail else msk)
         in do {
           (ws, r) \<leftarrow> word_op_at ws (start div 64) msk st val;
           if \<not> r \<or> single then Some (ws, r)
           else do {
             let start = u64_add start (64 - head);
             let w = start div 64;
             let wend = end' div 64;
             (ws, r) \<leftarrow> words_loop ws w wend st val;
             if \<not> r then Some (ws, False)
             else if tail \<noteq> 0 then word_op_at ws wend (mask tail) st val
             else Some (ws, True)
           }
         }))"

section \<open>Bitmaps\<close>

text \<open>\<open>bm_map\<close> is the heap of the map's words; \<open>None\<close> for a bitmap wrapped around a caller's memory.\<close>

record bitmap =
  bm_maxbits :: nat
  bm_mapbits :: nat
  bm_map :: "u64 heap option"
  bm_alloc_map :: "u64 buffer"

definition ALLOC_EXTEND_BITS :: nat where
  "ALLOC_EXTEND_BITS = 2 ^ 12"

definition bm_heap :: "bitmap \<Rightarrow> u64 heap" where
  "bm_heap b = (case bm_map b of Some h \<Rightarrow> h | None \<Rightarrow> (\<lambda>_. None))"

text \<open>\<^verbatim>\<open>bitmap_base\<close> gives the words from the start of the buffer on.\<close>

abbreviation bitmap_base :: "bitmap \<Rightarrow> u64 list" where
  "bitmap_base b \<equiv> b_contents (bm_alloc_map b)"

definition set_words :: "bitmap \<Rightarrow> u64 list \<Rightarrow> bitmap" where
  "set_words b ws = b\<lparr>bm_alloc_map := (bm_alloc_map b)\<lparr>b_contents := ws\<rparr>\<rparr>"

definition bitmap_extend :: "bitmap \<Rightarrow> nat \<Rightarrow> (bitmap \<times> bool) option" where
  "bitmap_extend b i =
     (if i \<ge> bm_mapbits b then do {
        let mapbits = pad (u64_add i 1) ALLOC_EXTEND_BITS;
        (m, ok) \<leftarrow> extend_total (bm_heap b) (bm_alloc_map b) (mapbits div 64);
        if ok then Some (b\<lparr>bm_alloc_map := m, bm_mapbits := mapbits\<rparr>, True)
        else Some (b\<lparr>bm_alloc_map := m\<rparr>, False)
      } else Some (b, False))"

definition bitmap_get :: "bitmap \<Rightarrow> nat \<Rightarrow> bool option" where
  "bitmap_get b i =
     (if i \<ge> bm_mapbits b then Some False
      else if i div 64 < length (bitmap_base b)
      then Some (bitmap_base b ! (i div 64) AND push_bit (i mod 64) 1 \<noteq> 0) else None)"

definition bitmap_set :: "bitmap \<Rightarrow> nat \<Rightarrow> bool \<Rightarrow> bitmap option" where
  "bitmap_set b i val = do {
     b \<leftarrow> (if i \<ge> bm_mapbits b then do {
              (b, ok) \<leftarrow> bitmap_extend b i;
              if ok then Some b else None
            } else Some b);
     let msk = push_bit (i mod 64) 1;
     let k = i div 64;
     if k < length (bitmap_base b) then
       Some (set_words b ((bitmap_base b)[k := (if val then bitmap_base b ! k OR msk else bitmap_base b ! k AND NOT msk)]))
     else None
   }"

definition bitmap_range_check_and_set :: "bitmap \<Rightarrow> nat \<Rightarrow> nat \<Rightarrow> bool \<Rightarrow> bool \<Rightarrow> (bitmap \<times> bool) option" where
  "bitmap_range_check_and_set b start nbits validate st =
     (if start \<ge> bm_maxbits b \<or> u64_add start nbits > bm_maxbits b then Some (b, False)
      else do {
        (b, _) \<leftarrow> bitmap_extend b (u64_add (u64_add start nbits) (2 ^ 64 - 1));
        (ws, ok) \<leftarrow> (if validate then for_range_in_map (bitmap_base b) start nbits False (\<not> st)
                     else Some (bitmap_base b, True));
        if \<not> ok then Some (b, False)
        else do {
          (ws, ok) \<leftarrow> for_range_in_map ws start nbits True st;
          Some (set_words b ws, ok)
        }
      })"

function range_get_first_loop :: "u64 list \<Rightarrow> nat \<Rightarrow> nat \<Rightarrow> nat \<Rightarrow> nat option option" where
  "range_get_first_loop ws word_offset bit_offset nbits =
     (if nbits > 0 \<and> bit_offset < 64 then
        (if word_offset < length ws then
           (let w = ws ! word_offset;
                w = (if bit_offset > 0 then w AND NOT (mask bit_offset) else w);
                w = (if nbits < 64 - bit_offset then w AND mask (bit_offset + nbits) else w)
            in case lsb w of
                 Some i \<Rightarrow> Some (Some (word_offset * 64 + i))
               | None \<Rightarrow> range_get_first_loop ws (word_offset + 1) 0
                   (if nbits \<ge> 64 - bit_offset then nbits - (64 - bit_offset) else 0))
         else None)
      else Some None)"
  by pat_completeness auto
termination
  by (relation "measure (\<lambda>(ws, wo, bo, nbits). nbits)") auto

declare range_get_first_loop.simps [simp del]

definition bitmap_range_get_first :: "bitmap \<Rightarrow> nat \<Rightarrow> nat \<Rightarrow> nat option option" where
  "bitmap_range_get_first b start nbits =
     range_get_first_loop (bitmap_base b) (start div 64) (start mod 64) nbits"

text \<open>The search of \<^verbatim>\<open>bitmap_alloc_internal\<close> for runs of at least a word; \<open>None\<close> inside is \<^verbatim>\<open>INVALID_PHYSICAL\<close>.\<close>

partial_function (option) alloc_multi ::
    "bitmap \<Rightarrow> nat \<Rightarrow> nat \<Rightarrow> nat \<Rightarrow> nat \<Rightarrow> (bitmap \<times> nat option) option" where
  "alloc_multi b nbits stride endbit i =
     (if i \<le> endbit then
        Option.bind (bitmap_extend b (u64_add i nbits)) (\<lambda>(b, _).
        Option.bind (for_range_in_map (bitmap_base b) i nbits False False) (\<lambda>(ws, free).
        if free then
          Option.bind (for_range_in_map ws i nbits True True) (\<lambda>(ws, _).
          Some (set_words b ws, Some i))
        else alloc_multi b nbits stride endbit (u64_add i stride)))
      else Some (b, None))"

declare alloc_multi.simps [code]

text \<open>
  The search inside one word, which starts at bit number \<open>i\<close>: the loop finds a free run, passes the
  end of the range, or runs out of the word.
\<close>

datatype word_result = Found nat | Beyond | Exhausted

function alloc_in_word :: "u64 \<Rightarrow> nat \<Rightarrow> nat \<Rightarrow> nat \<Rightarrow> u64 \<Rightarrow> nat \<Rightarrow> word_result" where
  "alloc_in_word bw stride endbit i msk word_offset =
     (if u64_add i word_offset > endbit then Beyond
      else if bw AND msk = 0 then Found word_offset
      else if word_offset + stride < 64 \<and> stride > 0
      then alloc_in_word bw stride endbit i (push_bit stride msk) (word_offset + stride)
      else Exhausted)"
  by pat_completeness auto
termination
  by (relation "measure (\<lambda>(bw, stride, endbit, i, msk, word_offset). 64 - word_offset)") auto

declare alloc_in_word.simps [simp del]

partial_function (option) alloc_words ::
    "bitmap \<Rightarrow> nat \<Rightarrow> nat \<Rightarrow> nat \<Rightarrow> nat \<Rightarrow> (bitmap \<times> nat option) option" where
  "alloc_words b nbits stride endbit i =
     (if i \<le> endbit then
        Option.bind (bitmap_extend b (u64_add (i - i mod 64) 64)) (\<lambda>(b, _).
        if i div 64 < length (bitmap_base b) then
          (if bitmap_base b ! (i div 64) = - 1 then alloc_words b nbits stride endbit (u64_add (i - i mod 64) 64)
           else
             (case alloc_in_word (bitmap_base b ! (i div 64)) stride endbit (i - i mod 64)
                     (push_bit (i mod 64) (mask nbits)) (i mod 64) of
                Beyond \<Rightarrow> Some (b, None)
              | Found word_offset \<Rightarrow>
                  Option.bind (for_range_in_map (bitmap_base b) (u64_add (i - i mod 64) word_offset) nbits True True)
                    (\<lambda>(ws, ok). if ok then Some (set_words b ws, Some (u64_add (i - i mod 64) word_offset)) else None)
              | Exhausted \<Rightarrow> alloc_words b nbits stride endbit (u64_add (i - i mod 64) 64)))
        else None)
      else Some (b, None))"

declare alloc_words.simps [code]

definition bitmap_alloc_internal :: "bitmap \<Rightarrow> nat \<Rightarrow> nat \<Rightarrow> nat \<Rightarrow> (bitmap \<times> nat option) option" where
  "bitmap_alloc_internal b nbits startbit endbit =
     (let stride = 2 ^ find_order nbits;
          endbit = min endbit (bm_maxbits b)
      in if u64_add startbit nbits > endbit then Some (b, None)
         else if stride \<ge> 64 then alloc_multi b nbits stride (endbit - nbits) startbit
         else alloc_words b nbits stride (endbit - nbits) startbit)"

definition bitmap_alloc :: "bitmap \<Rightarrow> nat \<Rightarrow> (bitmap \<times> nat option) option" where
  "bitmap_alloc b nbits = bitmap_alloc_internal b nbits 0 (bm_maxbits b)"

definition bitmap_alloc_within_range :: "bitmap \<Rightarrow> nat \<Rightarrow> nat \<Rightarrow> nat \<Rightarrow> (bitmap \<times> nat option) option" where
  "bitmap_alloc_within_range b nbits start end' = bitmap_alloc_internal b nbits start end'"

definition bitmap_dealloc :: "bitmap \<Rightarrow> nat \<Rightarrow> nat \<Rightarrow> (bitmap \<times> bool) option" where
  "bitmap_dealloc b i sz =
     (if u64_add i sz > bm_maxbits b then Some (b, False)
      else do {
        (ws, ok) \<leftarrow> for_range_in_map (bitmap_base b) i sz False True;
        if \<not> ok then Some (b, False)
        else do {
          (ws, _) \<leftarrow> for_range_in_map ws i sz True False;
          Some (set_words b ws, True)
        }
      })"

text \<open>
  \<^verbatim>\<open>allocate_bitmap_internal\<close>: the lengths of a new bitmap. Whether the \<^verbatim>\<open>meta\<close> heap has the memory of
  the struct is the argument \<open>meta\<close>; the outer \<open>None\<close> is the failed assertion.
\<close>

definition bitmap_infinity :: nat where
  "bitmap_infinity = 2 ^ 64 - 1"

definition allocate_bitmap_internal :: "bool \<Rightarrow> nat \<Rightarrow> (nat \<times> nat) option option" where
  "allocate_bitmap_internal meta len =
     (if len > 0 then
        (if \<not> meta then Some None
         else let maxbits = (if len = bitmap_infinity then 2 ^ 64 - 64 else len)
              in Some (Some (maxbits, min ALLOC_EXTEND_BITS (pad maxbits 64))))
      else None)"

definition allocate_bitmap :: "bool \<Rightarrow> u64 heap \<Rightarrow> nat \<Rightarrow> bitmap option option" where
  "allocate_bitmap meta map_heap len = do {
     r \<leftarrow> allocate_bitmap_internal meta len;
     case r of
       None \<Rightarrow> Some None
     | Some (maxbits, mapbits) \<Rightarrow>
         (let mapwords = mapbits div 64 in
          case allocate_buffer map_heap mapwords of
            None \<Rightarrow> Some None
          | Some m \<Rightarrow> do {
              c \<leftarrow> memcpy_to (b_contents m) (b_start m) (replicate mapwords 0);
              m \<leftarrow> buffer_produce (m\<lparr>b_contents := c\<rparr>) mapwords;
              Some (Some \<lparr>bm_maxbits = maxbits, bm_mapbits = mapbits, bm_map = Some map_heap, bm_alloc_map = m\<rparr>)
            })
   }"

definition bitmap_clone :: "bool \<Rightarrow> bitmap \<Rightarrow> bitmap option option" where
  "bitmap_clone meta b =
     (case bm_map b of
        None \<Rightarrow> Some None
      | Some map_heap \<Rightarrow> do {
          r \<leftarrow> allocate_bitmap_internal meta (bm_maxbits b);
          (maxbits, _) \<leftarrow> r;
          let mapbits = bm_mapbits b;
          let mapwords = mapbits div 64;
          case allocate_buffer map_heap mapwords of
            None \<Rightarrow> Some None
          | Some m \<Rightarrow> do {
              src \<leftarrow> mem_slice (bitmap_base b) (b_start (bm_alloc_map b)) mapwords;
              c \<leftarrow> memcpy_to (b_contents m) (b_start m) src;
              m \<leftarrow> buffer_produce (m\<lparr>b_contents := c\<rparr>) mapwords;
              Some (Some \<lparr>bm_maxbits = maxbits, bm_mapbits = mapbits, bm_map = Some map_heap, bm_alloc_map = m\<rparr>)
            }
        })"

definition bitmap_copy :: "bitmap \<Rightarrow> bitmap \<Rightarrow> bitmap option" where
  "bitmap_copy dest src =
     (if bm_maxbits dest = bm_maxbits src \<and> bm_mapbits src > 0 then do {
        (dest, _) \<leftarrow> bitmap_extend dest (bm_mapbits src - 1);
        ws \<leftarrow> mem_slice (bitmap_base src) (b_start (bm_alloc_map src)) (bm_mapbits src div 64);
        c \<leftarrow> memcpy_to (bitmap_base dest) (b_start (bm_alloc_map dest)) ws;
        c \<leftarrow> (if bm_mapbits dest > bm_mapbits src then
                memcpy_to c (b_start (bm_alloc_map dest) + bm_mapbits src div 64)
                  (replicate ((bm_mapbits dest - bm_mapbits src) div 64) 0)
              else Some c);
        Some (set_words dest c)
      } else None)"

section \<open>Orders\<close>

lemma msb_bounds: "0 < x \<Longrightarrow> 2 ^ msb x \<le> x \<and> x < 2 ^ Suc (msb x)"
proof (induction x rule: msb.induct)
  case (1 x)
  show ?case
  proof (cases "x \<le> 1")
    case True
    with 1 show ?thesis by simp
  next
    case False
    with 1 have "2 ^ msb (x div 2) \<le> x div 2 \<and> x div 2 < 2 ^ Suc (msb (x div 2))" by simp
    moreover have "msb x = Suc (msb (x div 2))" using False by simp
    moreover have "p \<le> x div 2 \<and> x div 2 < 2 * p \<Longrightarrow> 2 * p \<le> x \<and> x < 4 * p" for p by presburger
    ultimately show ?thesis by (simp del: msb.simps)
  qed
qed

declare msb.simps [simp del]

lemma find_order_bounds:
  assumes "0 < x"
  shows "x \<le> 2 ^ find_order x" "2 ^ find_order x < 2 * x"
proof -
  have "1 < x \<Longrightarrow> x \<le> 2 ^ find_order x \<and> 2 ^ find_order x < 2 * x"
    using msb_bounds [of "x - 1"] by (simp add: find_order_def) linarith
  then show "x \<le> 2 ^ find_order x" "2 ^ find_order x < 2 * x"
    using assms by (cases "x = 1"; auto simp: find_order_def)+
qed

section \<open>Ranges of bits\<close>

definition bit_at :: "u64 list \<Rightarrow> nat \<Rightarrow> bool" where
  "bit_at ws i \<longleftrightarrow> bit (ws ! (i div 64)) (i mod 64)"

lemma bit_word_op_set:
  "n < 64 \<Longrightarrow> bit (fst (word_op w msk True val)) n \<longleftrightarrow> (if bit msk n then val else bit w n)"
  by (auto simp: word_op_def bit_simps)

lemma word_op_set_ok [simp]: "snd (word_op w msk True val)"
  by (simp add: word_op_def)

lemma word_op_check:
  "word_op w msk False val = (w, \<forall>n<64. bit msk n \<longrightarrow> bit w n = val)"
proof -
  have "(msk AND w = msk) \<longleftrightarrow> (\<forall>n<64. bit msk n \<longrightarrow> bit w n)"
    by (auto simp: bit_eq_iff bit_simps)
  moreover have "((msk AND w) XOR msk = msk) \<longleftrightarrow> (\<forall>n<64. bit msk n \<longrightarrow> \<not> bit w n)"
    by (auto simp: bit_eq_iff bit_simps)
  ultimately show ?thesis by (simp add: word_op_def Let_def)
qed

text \<open>An operation on the words from \<open>a\<close> on, through masks: the bits it covers and what it does.\<close>

definition covers :: "u64 list \<Rightarrow> bool \<Rightarrow> bool \<Rightarrow> nat set \<Rightarrow> (u64 list \<times> bool) option \<Rightarrow> bool" where
  "covers ws st val B m \<longleftrightarrow>
     ensures m (\<lambda>(ws', r). length ws' = length ws \<and>
       (if st then r \<and> (\<forall>i < 64 * length ws. bit_at ws' i = (if i \<in> B then val else bit_at ws i))
        else ws' = ws \<and> (r \<longleftrightarrow> (\<forall>i \<in> B. bit_at ws i = val))))"

lemma covers_word_op_at:
  assumes "k < length ws"
  shows "covers ws st val {i. i div 64 = k \<and> bit msk (i mod 64)} (word_op_at ws k msk st val)"
proof (cases st)
  case True
  have "bit_at (ws[k := fst (word_op (ws ! k) msk True val)]) i =
      (if i div 64 = k \<and> bit msk (i mod 64) then val else bit_at ws i)" for i
    using assms by (auto simp: bit_at_def bit_word_op_set nth_list_update)
  with True assms show ?thesis
    by (auto simp: covers_def word_op_at_def split: prod.splits dest: arg_cong [of _ _ snd])
next
  case False
  have "(\<forall>n<64. bit msk n \<longrightarrow> bit (ws ! k) n = val) \<longleftrightarrow>
      (\<forall>i \<in> {i. i div 64 = k \<and> bit msk (i mod 64)}. bit_at ws i = val)"
  proof
    assume r: "\<forall>i \<in> {i. i div 64 = k \<and> bit msk (i mod 64)}. bit_at ws i = val"
    show "\<forall>n<64. bit msk n \<longrightarrow> bit (ws ! k) n = val"
    proof (intro allI impI)
      fix n :: nat assume "n < 64" "bit msk n"
      with r [THEN bspec, of "64 * k + n"] show "bit (ws ! k) n = val" by (simp add: bit_at_def)
    qed
  qed (auto simp: bit_at_def)
  with False assms show ?thesis
    by (simp add: covers_def word_op_at_def word_op_check)
qed

lemma covers_then:
  assumes "covers ws st val B m" "\<And>ws'. length ws' = length ws \<Longrightarrow> covers ws' st val C (f ws')"
  shows "covers ws st val (B \<union> C) (m \<bind> (\<lambda>(ws', r). if r then f ws' else Some (ws', False)))"
proof -
  from assms(1) obtain ws1 r where m: "m = Some (ws1, r)" "length ws1 = length ws"
    and b: "if st then r \<and> (\<forall>i < 64 * length ws. bit_at ws1 i = (if i \<in> B then val else bit_at ws i))
            else ws1 = ws \<and> (r \<longleftrightarrow> (\<forall>i \<in> B. bit_at ws i = val))"
    by (auto simp: covers_def elim!: ensuresE)
  show ?thesis
  proof (cases r)
    case True
    from assms(2) [OF m(2)] obtain ws2 r2 where f: "f ws1 = Some (ws2, r2)" "length ws2 = length ws1"
      and c: "if st then r2 \<and> (\<forall>i < 64 * length ws1. bit_at ws2 i = (if i \<in> C then val else bit_at ws1 i))
              else ws2 = ws1 \<and> (r2 \<longleftrightarrow> (\<forall>i \<in> C. bit_at ws1 i = val))"
      by (auto simp: covers_def elim!: ensuresE)
    with True m b show ?thesis by (auto simp: covers_def)
  next
    case False
    with m b show ?thesis by (auto simp: covers_def split: if_splits)
  qed
qed

lemma covers_nothing: "covers ws st val {} (Some (ws, True))"
  by (auto simp: covers_def)

lemma covers_words_loop:
  assumes "wend \<le> length ws"
  shows "covers ws st val {i. w \<le> i div 64 \<and> i div 64 < wend} (words_loop ws w wend st val)"
  using assms
proof (induction "wend - w" arbitrary: ws w)
  case 0
  then have e: "{i. w \<le> i div 64 \<and> i div 64 < wend} = {}" by auto
  from 0 covers_nothing [of ws st val] show ?case unfolding e by (subst words_loop.simps) simp
next
  case (Suc n)
  have "covers ws st val {i. i div 64 = w \<and> bit (- 1 :: u64) (i mod 64)} (word_op_at ws w (- 1) st val)"
    using Suc by (intro covers_word_op_at) auto
  moreover have "covers ws' st val {i. w + 1 \<le> i div 64 \<and> i div 64 < wend} (words_loop ws' (w + 1) wend st val)"
    if "length ws' = length ws" for ws'
    using Suc that by (intro Suc.hyps(1)) auto
  ultimately have "covers ws st val
      ({i. i div 64 = w \<and> bit (- 1 :: u64) (i mod 64)} \<union> {i. w + 1 \<le> i div 64 \<and> i div 64 < wend})
      (word_op_at ws w (- 1) st val \<bind> (\<lambda>(ws', r). if r then words_loop ws' (w + 1) wend st val else Some (ws', False)))"
    by (rule covers_then)
  moreover have "{i. i div 64 = w \<and> bit (- 1 :: u64) (i mod 64)} \<union> {i. w + 1 \<le> i div 64 \<and> i div 64 < wend} =
      {i. w \<le> i div 64 \<and> i div 64 < wend}"
    using Suc.hyps(2) by (auto simp: le_eq_less_or_eq)
  moreover have "w < wend" using Suc.hyps(2) by simp
  ultimately show ?case by (subst words_loop.simps) simp
qed

lemma bit_head_mask: "n < 64 \<Longrightarrow>
    bit (if h \<noteq> 0 then - 1 AND NOT (mask h) else (- 1 :: u64)) n \<longleftrightarrow> h \<le> n"
  by (auto simp: bit_simps)

lemma le_by_word: "h < 64 \<Longrightarrow> m < 64 \<Longrightarrow> 64 * a + h \<le> 64 * q + m \<longleftrightarrow> a < q \<or> a = q \<and> h \<le> m" for a h m q :: nat
  by (cases a q rule: linorder_cases) auto

lemma bit_le_iff: "a \<le> i \<longleftrightarrow> a div 64 < i div 64 \<or> a div 64 = i div 64 \<and> a mod 64 \<le> i mod 64" for a i :: nat
  using le_by_word [of "a mod 64" "i mod 64" "a div 64" "i div 64"] by simp

lemma bit_less_iff: "i < a \<longleftrightarrow> i div 64 < a div 64 \<or> i div 64 = a div 64 \<and> i mod 64 < a mod 64" for a i :: nat
  using bit_le_iff [of a i] by (auto simp: not_le [symmetric])

lemma div_add_64: "(s + n) div 64 = s div 64 + (s mod 64 + n) div 64" for s n :: nat
proof -
  have "(s + n) div 64 = ((s mod 64 + n) + 64 * (s div 64)) div 64" by simp
  then show ?thesis by (simp only: div_mult_self2)
qed

lemma single_word_bits:
  assumes "0 < nbits" "start mod 64 + nbits \<le> 64"
  defines "tail \<equiv> (start + nbits) mod 64"
  defines "msk \<equiv> (if start mod 64 \<noteq> 0 then - 1 AND NOT (mask (start mod 64)) else - 1 :: u64)"
  shows "{i. i div 64 = start div 64 \<and> bit (if tail \<noteq> 0 then msk AND mask tail else msk) (i mod 64)} =
         {start..<start + nbits}"
proof -
  have m: "bit msk n \<longleftrightarrow> start mod 64 \<le> n" if "n < 64" for n
    unfolding msk_def using that by (rule bit_head_mask)
  have t: "bit (if tail \<noteq> 0 then msk AND mask tail else msk) n \<longleftrightarrow> start mod 64 \<le> n \<and> (tail \<noteq> 0 \<longrightarrow> n < tail)" if "n < 64" for n
    using that m by (auto simp: bit_simps)
  have e: "tail = 0 \<and> (start + nbits) div 64 = start div 64 + 1 \<or> tail \<noteq> 0 \<and> (start + nbits) div 64 = start div 64"
  proof -
    have "tail = (start mod 64 + nbits) mod 64" by (simp add: tail_def mod_add_left_eq)
    moreover have "x mod 64 = 0 \<and> x div 64 = 1 \<or> x mod 64 \<noteq> 0 \<and> x div 64 = 0" if "0 < x" "x \<le> 64" for x :: nat
      using that by (cases "x = 64") auto
    from this [of "start mod 64 + nbits"] have "(start mod 64 + nbits) mod 64 = 0 \<and> (start mod 64 + nbits) div 64 = 1 \<or>
        (start mod 64 + nbits) mod 64 \<noteq> 0 \<and> (start mod 64 + nbits) div 64 = 0"
      using assms(1,2) by blast
    ultimately show ?thesis unfolding div_add_64 [of start nbits] by (metis add.right_neutral)
  qed
  have "i div 64 = start div 64 \<and> start mod 64 \<le> i mod 64 \<and> (tail \<noteq> 0 \<longrightarrow> i mod 64 < tail) \<longleftrightarrow>
      start \<le> i \<and> i < start + nbits" for i
    unfolding bit_le_iff [of start i] bit_less_iff [of i "start + nbits"] tail_def [symmetric]
    using e by auto
  then show ?thesis using t by auto
qed

lemma many_word_bits:
  fixes start nbits :: nat
  assumes "64 < start mod 64 + nbits"
  shows "{i. i div 64 = start div 64 \<and> start mod 64 \<le> i mod 64} \<union>
         ({i. start div 64 + 1 \<le> i div 64 \<and> i div 64 < (start + nbits) div 64} \<union>
          {i. i div 64 = (start + nbits) div 64 \<and> i mod 64 < (start + nbits) mod 64}) = {start..<start + nbits}"
proof -
  have "64 \<le> x \<Longrightarrow> 0 < x div 64" for x :: nat by (simp add: div_greater_zero_iff)
  from this [OF less_imp_le, OF assms] have lt: "start div 64 < (start + nbits) div 64"
    unfolding div_add_64 [of start nbits] by (rule less_add_same_cancel1 [THEN iffD2])
  have lex: "(q = a \<and> h \<le> m) \<or> (a + 1 \<le> q \<and> q < b) \<or> (q = b \<and> m < t) \<longleftrightarrow>
      (a < q \<or> a = q \<and> h \<le> m) \<and> (q < b \<or> q = b \<and> m < t)" if "a < b" for a b h m q t :: nat
    using that by auto
  show ?thesis
    using lex [OF lt] by (simp only: set_eq_iff Un_iff mem_Collect_eq atLeastLessThan_iff bit_le_iff [of start]
        bit_less_iff [of _ "start + nbits"]) blast
qed

lemma for_range_in_map_covers:
  assumes "start + nbits \<le> 64 * length ws" "start + nbits < 2 ^ 64"
  shows "covers ws st val {start..<start + nbits} (for_range_in_map ws start nbits st val)"
proof (cases "nbits = 0")
  case True
  then show ?thesis using covers_nothing by (simp add: for_range_in_map_def)
next
  case False
  define msk where "msk = (if start mod 64 \<noteq> 0 then - 1 AND NOT (mask (start mod 64)) else - 1 :: u64)"
  define tail where "tail = (start + nbits) mod 64"
  have in_map: "start div 64 < length ws" using assms(1) False by (simp add: div_less_iff_less_mult mult.commute)
  have small: "start mod 64 + nbits < 2 ^ 64" using assms(2) mod_less_eq_dividend [of start 64] by linarith
  show ?thesis
  proof (cases "start mod 64 + nbits \<le> 64")
    case True
    have "for_range_in_map ws start nbits st val =
        word_op_at ws (start div 64) (if tail \<noteq> 0 then msk AND mask tail else msk) st val \<bind> (\<lambda>(ws, r). Some (ws, r))"
      using False True assms(2) small
      by (simp add: for_range_in_map_def Let_def u64_add_def msk_def tail_def cong: if_cong)
    moreover have "m \<bind> (\<lambda>(ws, r). Some (ws, r)) = m" for m :: "(u64 list \<times> bool) option" by (cases m) auto
    ultimately show ?thesis
      using covers_word_op_at [OF in_map, of st val "if tail \<noteq> 0 then msk AND mask tail else msk"]
        single_word_bits [of nbits start] True False
      by (simp only: msk_def tail_def)
  next
    case multi: False
    have "start mod 64 + (64 - start mod 64) = 64" by simp
    then have "(start + (64 - start mod 64)) div 64 = start div 64 + 1" unfolding div_add_64 [of start] by simp
    moreover have "start + (64 - start mod 64) < 2 ^ 64" using multi assms(2) by linarith
    ultimately have eq: "for_range_in_map ws start nbits st val =
        word_op_at ws (start div 64) msk st val \<bind> (\<lambda>(ws, r). if r then
          words_loop ws (start div 64 + 1) ((start + nbits) div 64) st val \<bind> (\<lambda>(ws, r). if r then
            (if tail \<noteq> 0 then word_op_at ws ((start + nbits) div 64) (mask tail) st val else Some (ws, True))
          else Some (ws, False)) else Some (ws, False))"
      using False multi assms(2) small
      by (simp add: for_range_in_map_def Let_def u64_add_def msk_def tail_def cong: if_cong)
        (auto intro!: bind_option_cong)
    have tail_op: "covers ws' st val {i. i div 64 = (start + nbits) div 64 \<and> i mod 64 < tail}
        (if tail \<noteq> 0 then word_op_at ws' ((start + nbits) div 64) (mask tail) st val else Some (ws', True))"
      if "length ws' = length ws" for ws'
    proof (cases "tail = 0")
      case True
      then show ?thesis using covers_nothing by simp
    next
      case False
      then have "start + nbits < 64 * length ws" using assms(1) by (auto simp: tail_def le_less)
      then have "(start + nbits) div 64 < length ws'"
        unfolding that by (simp add: div_less_iff_less_mult mult.commute)
      from covers_word_op_at [OF this, of st val "mask tail"] False show ?thesis
        by (simp add: bit_simps conj_commute cong: conj_cong)
    qed
    have "(start + nbits) div 64 \<le> length ws'" if "length ws' = length ws" for ws' :: "u64 list"
      using assms(1) div_le_mono [of "start + nbits" "64 * length ws" 64] that by simp
    then have rest: "covers ws' st val
        ({i. start div 64 + 1 \<le> i div 64 \<and> i div 64 < (start + nbits) div 64} \<union>
         {i. i div 64 = (start + nbits) div 64 \<and> i mod 64 < tail})
        (words_loop ws' (start div 64 + 1) ((start + nbits) div 64) st val \<bind> (\<lambda>(ws, r). if r then
            (if tail \<noteq> 0 then word_op_at ws ((start + nbits) div 64) (mask tail) st val else Some (ws, True))
          else Some (ws, False)))" if "length ws' = length ws" for ws'
      using that tail_op by (intro covers_then covers_words_loop) simp_all
    have "{i. i div 64 = start div 64 \<and> bit msk (i mod 64)} = {i. i div 64 = start div 64 \<and> start mod 64 \<le> i mod 64}"
      using bit_head_mask by (auto simp: msk_def)
    with covers_then [OF covers_word_op_at [OF in_map, of st val msk] rest] many_word_bits [of start nbits] multi
    show ?thesis unfolding eq by (simp only: tail_def)
  qed
qed

section \<open>The invariant and the set of allocated bits\<close>

definition bitmap_wf :: "bitmap \<Rightarrow> bool" where
  "bitmap_wf b \<longleftrightarrow>
     buffer_wf (bm_alloc_map b) \<and> b_start (bm_alloc_map b) = 0 \<and> \<not> b_wrapped (bm_alloc_map b) \<and>
     bm_mapbits b = 64 * b_end (bm_alloc_map b) \<and> bm_map b \<noteq> None \<and> heap_ok (bm_heap b)"

definition bm_bits :: "bitmap \<Rightarrow> nat set" where
  "bm_bits b = {i. i < bm_mapbits b \<and> bit_at (bitmap_base b) i}"

text \<open>What every operation keeps.\<close>

definition bm_same :: "bitmap \<Rightarrow> bitmap \<Rightarrow> bool" where
  "bm_same b b' \<longleftrightarrow> bitmap_wf b' \<and> bm_maxbits b' = bm_maxbits b \<and> bm_map b' = bm_map b"

lemma bm_same_trans: "bm_same a b \<Longrightarrow> bm_same b c \<Longrightarrow> bm_same a c"
  by (simp add: bm_same_def)

lemma bm_same_heap: "bm_same a b \<Longrightarrow> bm_heap b = bm_heap a"
  by (simp add: bm_same_def bm_heap_def)

lemma pad_extend:
  assumes "i + 4096 < 2 ^ 64"
  shows "pad (u64_add i 1) ALLOC_EXTEND_BITS = i div 4096 * 4096 + 4096"
proof -
  have "(i + 1 + (2 ^ 64 - 1)) mod 2 ^ 64 = i" using assms by simp
  moreover have "i div 4096 * 4096 + 4096 < 2 ^ 64" using assms div_times_less_eq_dividend [of i 4096] by linarith
  ultimately show ?thesis using assms by (simp add: pad_def u64_add_def ALLOC_EXTEND_BITS_def)
qed

lemma blist_start_0: "b_start b = 0 \<Longrightarrow> blist b = take (b_end b) (b_contents b)"
  by (simp add: blist_def)

lemma bit_at_take: "i < 64 * n \<Longrightarrow> bit_at (take n ws) i = bit_at ws i"
  by (simp add: bit_at_def div_less_iff_less_mult mult.commute)

lemma bm_bits_blist: "bitmap_wf b \<Longrightarrow> bm_bits b = {i. i < bm_mapbits b \<and> bit_at (blist (bm_alloc_map b)) i}"
  by (auto simp: bm_bits_def bitmap_wf_def blist_start_0 bit_at_take)

lemma bit_at_append_zero:
  "bit_at (xs @ replicate n 0) i \<longleftrightarrow> i < 64 * length xs \<and> bit_at xs i" if "i < 64 * (length xs + n)"
  using that by (auto simp: bit_at_def nth_append div_less_iff_less_mult mult.commute)

lemma bitmap_extend_spec:
  assumes "bitmap_wf b" "i + 4096 < 2 ^ 64"
  shows "ensures (bitmap_extend b i) (\<lambda>(b', _). bm_same b b' \<and> bm_bits b' = bm_bits b \<and>
           bm_mapbits b \<le> bm_mapbits b' \<and> (heap_grants (bm_heap b) \<longrightarrow> i < bm_mapbits b'))"
proof (cases "i \<ge> bm_mapbits b")
  case False
  with assms show ?thesis by (simp add: bitmap_extend_def bm_same_def)
next
  case True
  define k where "k = (i div 4096 + 1) * 64"
  have pad: "pad (u64_add i 1) ALLOC_EXTEND_BITS = 64 * k" using pad_extend [OF assms(2)] by (simp add: k_def)
  have "i < (i div 4096 + 1) * 4096" using dividend_less_div_times [of 4096 i] by simp
  then have "i < 64 * k" by (simp add: k_def)
  let ?m = "bm_alloc_map b"
  have wf: "buffer_wf ?m" "heap_ok (bm_heap b)" "\<not> b_wrapped ?m" "b_start ?m = 0" "bm_mapbits b = 64 * b_end ?m"
    using assms(1) by (auto simp: bitmap_wf_def)
  then obtain m ok where m: "extend_total (bm_heap b) ?m k = Some (m, ok)" "buffer_wf m" "b_start m = 0" "\<not> b_wrapped m"
      "blist m = blist ?m @ (if ok then replicate (k - b_end ?m) 0 else [])" "heap_grants (bm_heap b) \<longrightarrow> ok"
    using extend_total_spec [OF wf(1-4), of k] by (auto elim!: ensuresE)
  have len: "length (blist ?m) = b_end ?m" "length (blist m) = b_end m"
    using length_blist [OF wf(1)] length_blist [OF m(2)] wf(4) m(3) by (simp_all add: buffer_length_def)
  have lt: "b_end ?m < k" using True \<open>i < 64 * k\<close> wf(5) by simp
  show ?thesis
  proof (cases ok)
    case ok: True
    then have "b_end m = k" using m(5) len lt by auto
    moreover define b' where "b' = b\<lparr>bm_alloc_map := m, bm_mapbits := 64 * k\<rparr>"
    ultimately have wf': "bitmap_wf b'" using assms(1) m by (simp add: bitmap_wf_def bm_heap_def)
    have "bm_bits b' = bm_bits b"
      unfolding bm_bits_blist [OF wf'] bm_bits_blist [OF assms(1)]
      using ok m(5) len lt wf(5) by (auto simp: b'_def bit_at_append_zero)
    then show ?thesis
      using True ok m(1) pad wf' \<open>i < 64 * k\<close> lt wf(5) by (simp add: bitmap_extend_def bm_same_def b'_def)
  next
    case fail: False
    then have "b_end m = b_end ?m" using m(5) len by auto
    moreover define b' where "b' = b\<lparr>bm_alloc_map := m\<rparr>"
    ultimately have wf': "bitmap_wf b'" using assms(1) m by (simp add: bitmap_wf_def bm_heap_def)
    have "bm_bits b' = bm_bits b"
      unfolding bm_bits_blist [OF wf'] bm_bits_blist [OF assms(1)] using fail m(5) by (simp add: b'_def)
    then show ?thesis
      using True fail m(1,6) pad wf' by (simp add: bitmap_extend_def bm_same_def b'_def)
  qed
qed

lemma bitmap_wf_length: "bitmap_wf b \<Longrightarrow> bm_mapbits b \<le> 64 * length (bitmap_base b)"
  by (auto simp: bitmap_wf_def buffer_wf_def)

lemma range_set:
  assumes "bitmap_wf b" "start + n \<le> bm_mapbits b" "start + n < 2 ^ 64"
  shows "ensures (for_range_in_map (bitmap_base b) start n True val) (\<lambda>(ws, ok). ok \<and> bm_same b (set_words b ws) \<and>
           bm_mapbits (set_words b ws) = bm_mapbits b \<and>
           bm_bits (set_words b ws) = (if val then bm_bits b \<union> {start..<start + n} else bm_bits b - {start..<start + n}))"
proof -
  have l: "start + n \<le> 64 * length (bitmap_base b)" using assms(2) bitmap_wf_length [OF assms(1)] by simp
  obtain ws where ws: "for_range_in_map (bitmap_base b) start n True val = Some (ws, True)"
      "length ws = length (bitmap_base b)"
      "\<forall>i < 64 * length (bitmap_base b). bit_at ws i = (if i \<in> {start..<start + n} then val else bit_at (bitmap_base b) i)"
    using for_range_in_map_covers [OF l assms(3), of True val] by (auto simp: covers_def elim!: ensuresE)
  have bits: "bit_at ws i = (if i \<in> {start..<start + n} then val else bit_at (bitmap_base b) i)" if "i < bm_mapbits b" for i
    using ws(3) that bitmap_wf_length [OF assms(1)] by auto
  have "bm_bits (set_words b ws) = (if val then bm_bits b \<union> {start..<start + n} else bm_bits b - {start..<start + n})"
  proof (rule set_eqI)
    fix i
    show "i \<in> bm_bits (set_words b ws) \<longleftrightarrow>
        i \<in> (if val then bm_bits b \<union> {start..<start + n} else bm_bits b - {start..<start + n})"
      using bits [of i] assms(2)
      by (cases "i < bm_mapbits b"; cases "start \<le> i \<and> i < start + n") (auto simp: bm_bits_def set_words_def)
  qed
  then show ?thesis
    using ws(1,2) assms(1) by (simp add: bm_same_def bitmap_wf_def buffer_wf_def set_words_def bm_heap_def)
qed

lemma range_check:
  assumes "bitmap_wf b" "start + n \<le> bm_mapbits b" "start + n < 2 ^ 64"
  shows "for_range_in_map (bitmap_base b) start n False val =
           Some (bitmap_base b, \<forall>i \<in> {start..<start + n}. (i \<in> bm_bits b) = val)"
proof -
  have l: "start + n \<le> 64 * length (bitmap_base b)" using assms(2) bitmap_wf_length [OF assms(1)] by simp
  show ?thesis
    using for_range_in_map_covers [OF l assms(3), of False val] assms(2)
    by (auto simp: covers_def bm_bits_def elim!: ensuresE)
qed

section \<open>Allocation\<close>

text \<open>Where a run may start: the positions of the search, in order.\<close>

definition fits :: "bitmap \<Rightarrow> nat \<Rightarrow> nat \<Rightarrow> bool" where
  "fits b n j \<longleftrightarrow> {j..<j + n} \<inter> bm_bits b = {}"

definition alloc_post :: "bitmap \<Rightarrow> nat \<Rightarrow> nat \<Rightarrow> nat \<Rightarrow> nat \<Rightarrow> bitmap \<Rightarrow> nat option \<Rightarrow> bool" where
  "alloc_post b n stride endbit i b' r \<longleftrightarrow> bm_same b b' \<and>
     (case r of
        Some j \<Rightarrow> (\<exists>m. j = i + m * stride) \<and> j \<le> endbit \<and> fits b n j \<and> bm_bits b' = bm_bits b \<union> {j..<j + n}
      | None \<Rightarrow> bm_bits b' = bm_bits b \<and> (\<forall>m. i + m * stride \<le> endbit \<longrightarrow> \<not> fits b n (i + m * stride)))"

lemma bits_not_fits: "{j..<j + n} \<inter> bm_bits b = {} \<longleftrightarrow> (\<forall>i \<in> {j..<j + n}. (i \<in> bm_bits b) = False)"
  by auto

lemma alloc_post_next:
  assumes "\<not> fits b n i" "alloc_post b1 n stride endbit (i + stride) b' r"
    "bm_same b b1" "bm_bits b1 = bm_bits b"
  shows "alloc_post b n stride endbit i b' r"
proof -
  have f: "fits b1 n = fits b n" using assms(4) by (auto simp: fits_def)
  show ?thesis
  proof (cases r)
    case (Some j)
    with assms(2) obtain m where "j = i + stride + m * stride" by (auto simp: alloc_post_def)
    then have "\<exists>m. j = i + m * stride" by (intro exI [of _ "Suc m"]) simp
    with Some assms f show ?thesis by (auto simp: alloc_post_def intro: bm_same_trans)
  next
    case None
    have "\<not> fits b n (i + m * stride)" if "i + m * stride \<le> endbit" for m
    proof (cases m)
      case 0
      with assms(1) show ?thesis by simp
    next
      case (Suc k)
      with that None assms(2) f show ?thesis by (auto simp: alloc_post_def add.assoc)
    qed
    with None assms show ?thesis by (auto simp: alloc_post_def intro: bm_same_trans)
  qed
qed

lemma alloc_multi_spec:
  assumes "bitmap_wf b" "heap_grants (bm_heap b)" "0 < n" "0 < stride" "endbit + n + stride + 4096 < 2 ^ 64"
  shows "ensures (alloc_multi b n stride endbit i) (\<lambda>(b', r). alloc_post b n stride endbit i b' r)"
  using assms(1,2)
proof (induction "endbit + 1 - i" arbitrary: b i rule: less_induct)
  case less
  show ?case
  proof (cases "i \<le> endbit")
    case False
    with less.prems show ?thesis
      by (subst alloc_multi.simps) (auto simp: alloc_post_def bm_same_def)
  next
    case True
    then have "i + n + 4096 < 2 ^ 64" and small: "i + n < 2 ^ 64" "i + stride < 2 ^ 64" using assms(5) by linarith+
    then obtain b1 x where b1: "bitmap_extend b (i + n) = Some (b1, x)" "bm_same b b1" "bm_bits b1 = bm_bits b"
        "i + n < bm_mapbits b1"
      using bitmap_extend_spec [OF less.prems(1), of "i + n"] less.prems(2) by (auto elim!: ensuresE)
    have wf1: "bitmap_wf b1" "heap_grants (bm_heap b1)"
      using b1(2) less.prems(2) by (auto simp: bm_same_def bm_same_heap [OF b1(2)])
    have fit: "(\<forall>k \<in> {i..<i + n}. (k \<in> bm_bits b1) = False) \<longleftrightarrow> fits b n i"
      unfolding bits_not_fits [symmetric] fits_def b1(3) ..
    note chk = range_check [OF wf1(1), of i n False, unfolded fit]
    show ?thesis
    proof (cases "fits b n i")
      case fi: True
      obtain ws where "for_range_in_map (bitmap_base b1) i n True True = Some (ws, True)"
          "bm_same b1 (set_words b1 ws)" "bm_bits (set_words b1 ws) = bm_bits b1 \<union> {i..<i + n}"
        using range_set [OF wf1(1), of i n True] b1(4) small by (auto elim!: ensuresE)
      moreover have "\<exists>m. i = i + m * stride" by (rule exI [of _ 0]) simp
      ultimately show ?thesis
        using True b1 small chk fi
        by (subst alloc_multi.simps) (auto simp: u64_add_def alloc_post_def intro: bm_same_trans)
    next
      case nf: False
      have "ensures (alloc_multi b1 n stride endbit (i + stride)) (\<lambda>(b', r). alloc_post b1 n stride endbit (i + stride) b' r)"
        using True assms(4) wf1 by (intro less.hyps) auto
      then show ?thesis
        using True b1 small chk nf alloc_post_next [OF nf _ b1(2,3)]
        by (subst alloc_multi.simps) (auto simp: u64_add_def elim!: ensures_mono)
    qed
  qed
qed

lemma alloc_post_skip:
  assumes "\<And>m. m < q \<Longrightarrow> \<not> fits b n (i + m * stride)" "alloc_post b1 n stride endbit (i + q * stride) b' r"
    "bm_same b b1" "bm_bits b1 = bm_bits b"
  shows "alloc_post b n stride endbit i b' r"
proof -
  have f: "fits b1 n = fits b n" using assms(4) by (auto simp: fits_def)
  show ?thesis
  proof (cases r)
    case (Some j)
    with assms(2) obtain m where "j = i + q * stride + m * stride" by (auto simp: alloc_post_def)
    then have "\<exists>m. j = i + m * stride" by (intro exI [of _ "q + m"]) (simp add: add_mult_distrib)
    with Some assms f show ?thesis by (auto simp: alloc_post_def intro: bm_same_trans)
  next
    case None
    have "\<not> fits b n (i + m * stride)" if "i + m * stride \<le> endbit" for m
    proof (cases "m < q")
      case False
      then have "i + m * stride = i + q * stride + (m - q) * stride" by (simp add: diff_mult_distrib)
      with that None assms(2) f show ?thesis by (auto simp: alloc_post_def add.assoc)
    qed (rule assms(1))
    with None assms show ?thesis by (auto simp: alloc_post_def intro: bm_same_trans)
  qed
qed

definition word_free :: "u64 \<Rightarrow> nat \<Rightarrow> nat \<Rightarrow> bool" where
  "word_free bw n off \<longleftrightarrow> (\<forall>j \<in> {off..<off + n}. \<not> bit bw j)"

lemma word_mask_free:
  fixes bw :: u64
  assumes "off + n \<le> 64"
  shows "bw AND push_bit off (mask n) = 0 \<longleftrightarrow> word_free bw n off"
proof -
  have "bit (bw AND push_bit off (mask n)) j \<longleftrightarrow> bit bw j \<and> j \<in> {off..<off + n}" if "j < 64" for j
    using that by (auto simp: bit_simps)
  then have "bw AND push_bit off (mask n) = 0 \<longleftrightarrow> (\<forall>j<64. \<not> (bit bw j \<and> j \<in> {off..<off + n}))"
    by (auto simp: bit_eq_iff)
  moreover have "j \<in> {off..<off + n} \<Longrightarrow> j < 64" for j using assms by simp
  ultimately show ?thesis unfolding word_free_def by blast
qed

lemma offset_room: "stride dvd 64 \<Longrightarrow> stride dvd off \<Longrightarrow> off < 64 \<Longrightarrow> off + stride \<le> 64" for off :: nat
proof -
  assume "stride dvd 64" "stride dvd off" "off < 64"
  then obtain a b where ab: "64 = stride * a" "off = stride * b" by (auto simp: dvd_def)
  with \<open>off < 64\<close> have "Suc b \<le> a" by (simp add: Suc_le_eq)
  then have "stride * Suc b \<le> stride * a" by (rule mult_le_mono2)
  with ab show ?thesis by simp
qed

lemma alloc_in_word_spec:
  assumes "stride dvd 64" "stride dvd off" "off < 64" "n \<le> stride" "p + 64 < 2 ^ 64"
  shows "case alloc_in_word bw stride endbit p (push_bit off (mask n)) off of
           Found o' \<Rightarrow> (\<exists>m. o' = off + m * stride \<and> (\<forall>k<m. \<not> word_free bw n (off + k * stride))) \<and>
             o' < 64 \<and> p + o' \<le> endbit \<and> word_free bw n o'
         | Beyond \<Rightarrow> (\<forall>m. p + (off + m * stride) \<le> endbit \<longrightarrow> off + m * stride < 64 \<and> \<not> word_free bw n (off + m * stride))
         | Exhausted \<Rightarrow> (\<forall>m. off + m * stride < 64 \<longrightarrow> \<not> word_free bw n (off + m * stride))"
  using assms(2,3)
proof (induction "64 - off" arbitrary: off rule: less_induct)
  case less
  have pos: "0 < stride" using assms(1) by (cases "stride = 0") auto
  have room: "off + stride \<le> 64" using offset_room [OF assms(1) less.prems] .
  have add: "u64_add p off = p + off" using less.prems(2) assms(5) by (simp add: u64_add_def)
  have free: "bw AND push_bit off (mask n) = 0 \<longleftrightarrow> word_free bw n off"
    using room assms(4) by (intro word_mask_free) simp
  consider (beyond) "p + off > endbit" | (found) "p + off \<le> endbit" "word_free bw n off"
    | (step) "p + off \<le> endbit" "\<not> word_free bw n off" "off + stride < 64"
    | (out) "p + off \<le> endbit" "\<not> word_free bw n off" "off + stride = 64"
    using room by linarith
  then show ?case
  proof cases
    case beyond
    then show ?thesis by (subst alloc_in_word.simps) (simp add: add)
  next
    case found
    then show ?thesis using less.prems(2)
      by (subst alloc_in_word.simps) (auto simp: add free intro!: exI [of _ 0])
  next
    case out
    have "\<not> word_free bw n (off + m * stride)" if "off + m * stride < 64" for m
      using that out by (cases m) auto
    with out pos show ?thesis by (subst alloc_in_word.simps) (auto simp: add free)
  next
    case step
    have eq: "alloc_in_word bw stride endbit p (push_bit off (mask n)) off =
        alloc_in_word bw stride endbit p (push_bit (off + stride) (mask n)) (off + stride)"
      using step pos by (subst alloc_in_word.simps) (simp add: add free add.commute [of stride off])
    have shift: "off + stride + m * stride = off + Suc m * stride" for m by simp
    have all: "(\<And>m. P (off + stride + m * stride)) \<Longrightarrow> P off \<Longrightarrow> P (off + m * stride)" for P m
      using shift by (cases m) (simp_all add: add.assoc)
    have IH: "case alloc_in_word bw stride endbit p (push_bit (off + stride) (mask n)) (off + stride) of
           Found o' \<Rightarrow> (\<exists>m. o' = off + stride + m * stride \<and> (\<forall>k<m. \<not> word_free bw n (off + stride + k * stride))) \<and>
             o' < 64 \<and> p + o' \<le> endbit \<and> word_free bw n o'
         | Beyond \<Rightarrow> (\<forall>m. p + (off + stride + m * stride) \<le> endbit \<longrightarrow>
             off + stride + m * stride < 64 \<and> \<not> word_free bw n (off + stride + m * stride))
         | Exhausted \<Rightarrow> (\<forall>m. off + stride + m * stride < 64 \<longrightarrow> \<not> word_free bw n (off + stride + m * stride))"
      using step pos less.prems by (intro less.hyps) auto
    show ?thesis
    proof (cases "alloc_in_word bw stride endbit p (push_bit (off + stride) (mask n)) (off + stride)")
      case (Found o')
      with IH obtain m where m: "o' = off + stride + m * stride" "\<forall>k<m. \<not> word_free bw n (off + stride + k * stride)"
        "o' < 64" "p + o' \<le> endbit" "word_free bw n o'" by auto
      have "\<not> word_free bw n (off + k * stride)" if "k < Suc m" for k
        using that m(2) step(2) by (cases k) (auto simp: add.assoc)
      then have "\<exists>m. o' = off + m * stride \<and> (\<forall>k<m. \<not> word_free bw n (off + k * stride))"
        using m(1) by (intro exI [of _ "Suc m"]) simp
      then show ?thesis using Found m unfolding eq by simp
    next
      case Beyond
      then show ?thesis
        using IH step all [of "\<lambda>x. p + x \<le> endbit \<longrightarrow> x < 64 \<and> \<not> word_free bw n x"] unfolding eq by auto
    next
      case Exhausted
      then show ?thesis
        using IH step all [of "\<lambda>x. x < 64 \<longrightarrow> \<not> word_free bw n x"] unfolding eq by auto
    qed
  qed
qed

lemma fits_in_word:
  assumes "p mod 64 = 0" "off + n \<le> 64" "p + 64 \<le> bm_mapbits b"
  shows "fits b n (p + off) \<longleftrightarrow> word_free (bitmap_base b ! (p div 64)) n off"
proof -
  have bit: "p + j \<in> bm_bits b \<longleftrightarrow> bit (bitmap_base b ! (p div 64)) j" if "j < 64" for j
    using that assms(1,3) by (auto simp: bm_bits_def bit_at_def div_add_64 [of p] mod_add_left_eq [of p 64, symmetric])
  have "fits b n (p + off) \<longleftrightarrow> (\<forall>j \<in> {off..<off + n}. p + j \<notin> bm_bits b)"
  proof -
    have e: "{p + off..<p + off + n} = (+) p ` {off..<off + n}" by (simp add: image_add_atLeastLessThan ac_simps)
    show ?thesis unfolding fits_def e by blast
  qed
  with bit assms(2) show ?thesis by (auto simp: word_free_def)
qed

lemma alloc_words_spec:
  assumes "bitmap_wf b" "heap_grants (bm_heap b)" "0 < n" "n \<le> stride" "stride dvd 64" "stride dvd i"
    "endbit + 8192 < 2 ^ 64"
  shows "ensures (alloc_words b n stride endbit i) (\<lambda>(b', r). alloc_post b n stride endbit i b' r)"
  using assms(1,2,6)
proof (induction "endbit + 1 - i" arbitrary: b i rule: less_induct)
  case less
  show ?case
  proof (cases "i \<le> endbit")
    case False
    with less.prems show ?thesis
      by (subst alloc_words.simps) (auto simp: alloc_post_def bm_same_def)
  next
    case True
    define p off where "p = i - i mod 64" and "off = i mod 64"
    have pd: "p = 64 * (i div 64)" by (simp add: p_def minus_mod_eq_mult_div)
    have po: "i = p + off" "p mod 64 = 0" "off < 64" "p div 64 = i div 64"
      by (simp_all add: pd off_def)
    have small: "p + 64 + 4096 < 2 ^ 64" using True po assms(7) by linarith
    have offd: "stride dvd off" unfolding off_def using assms(5) less.prems(3) by (simp add: dvd_mod)
    obtain b1 x where b1: "bitmap_extend b (p + 64) = Some (b1, x)" "bm_same b b1" "bm_bits b1 = bm_bits b"
        "p + 64 < bm_mapbits b1"
      using bitmap_extend_spec [OF less.prems(1), of "p + 64"] small less.prems(2) by (auto elim!: ensuresE)
    have wf1: "bitmap_wf b1" "heap_grants (bm_heap b1)"
      using b1(2) less.prems(2) by (auto simp: bm_same_def bm_same_heap [OF b1(2)])
    let ?bw = "bitmap_base b1 ! (i div 64)"
    have in_map: "i div 64 < length (bitmap_base b1)"
      using b1(4) bitmap_wf_length [OF wf1(1)] pd by linarith
    have fw: "fits b n (p + o') \<longleftrightarrow> word_free ?bw n o'" if "stride dvd o'" "o' < 64" for o'
    proof -
      have "o' + n \<le> 64" using offset_room [OF assms(5) that] assms(4) by simp
      with fits_in_word [OF po(2), of o' n b1] b1(3,4) po(4) show ?thesis by (simp add: fits_def)
    qed
    have st: "stride dvd off + m * stride" for m using offd by simp
    obtain q where q: "64 = off + q * stride"
    proof -
      from assms(5) offd obtain a c where ac: "64 = stride * a" "off = stride * c" by (auto simp: dvd_def)
      then have "stride * (a - c) = stride * a - stride * c" by (simp add: diff_mult_distrib2)
      with ac po(3) have "64 = off + (a - c) * stride" by (simp add: mult.commute)
      then show thesis by (rule that)
    qed
    have next_word: "ensures (alloc_words b1 n stride endbit (p + 64)) (\<lambda>(b', r). alloc_post b n stride endbit i b' r)"
      if none: "\<And>m. off + m * stride < 64 \<Longrightarrow> \<not> word_free ?bw n (off + m * stride)"
    proof -
      have "stride dvd p + 64" using assms(5) less.prems(3) offd po(1) by (metis dvd_add dvd_add_left_iff)
      then have IH: "ensures (alloc_words b1 n stride endbit (p + 64)) (\<lambda>(b', r). alloc_post b1 n stride endbit (p + 64) b' r)"
        using True po wf1 by (intro less.hyps) auto
      have "\<not> fits b n (i + m * stride)" if "m < q" for m
      proof -
        have "m * stride < q * stride" using that assms(3,4) by simp
        then have "off + m * stride < 64" using q by linarith
        with none fw [OF st [of m]] show ?thesis by (simp add: po(1) add.assoc)
      qed
      moreover have "i + q * stride = p + 64" using q po(1) by simp
      ultimately show ?thesis
        using ensures_mono [OF IH] alloc_post_skip [of q b n i stride b1 endbit] b1(2,3) by fastforce
    qed
    have step: "alloc_words b n stride endbit i =
        (if ?bw = - 1 then alloc_words b1 n stride endbit (p + 64)
         else case alloc_in_word ?bw stride endbit p (push_bit off (mask n)) off of
             Beyond \<Rightarrow> Some (b1, None)
           | Found o' \<Rightarrow> Option.bind (for_range_in_map (bitmap_base b1) (u64_add p o') n True True)
               (\<lambda>(ws, ok). if ok then Some (set_words b1 ws, Some (u64_add p o')) else None)
           | Exhausted \<Rightarrow> alloc_words b1 n stride endbit (p + 64))"
    proof -
      have "u64_add p 64 = p + 64" using small by (simp add: u64_add_def)
      then show ?thesis
        using True b1(1) in_map unfolding alloc_words.simps [of b n stride endbit i, folded p_def, folded off_def]
        by (simp split: word_result.split)
    qed
    show ?thesis
    proof (cases "?bw = - 1")
      case full: True
      have "\<not> word_free ?bw n (off + m * stride)" if "off + m * stride < 64" for m
        using full assms(3) that unfolding word_free_def by (intro notI) (drule bspec [of _ _ "off + m * stride"]; simp)
      from next_word [OF this] full show ?thesis unfolding step by simp
    next
      case False
      note spec = alloc_in_word_spec [OF assms(5) offd po(3) assms(4), of p ?bw endbit]
      show ?thesis
      proof (cases "alloc_in_word ?bw stride endbit p (push_bit off (mask n)) off")
        case Beyond
        have "\<not> fits b n (i + m * stride)" if "i + m * stride \<le> endbit" for m
          using spec small Beyond that fw [OF st [of m]] po(1) by (simp add: add.assoc)
        then show ?thesis
          using False Beyond b1(2,3) unfolding step by (simp add: alloc_post_def)
      next
        case Exhausted
        from next_word spec small False Exhausted show ?thesis unfolding step by simp
      next
        case (Found o')
        with spec small obtain m where o': "o' = off + m * stride" "o' < 64" "p + o' \<le> endbit" "word_free ?bw n o'" by auto
        have "o' + n \<le> 64" using offset_room [OF assms(5) _ o'(2)] st [of m] o'(1) assms(4) by simp
        then obtain ws where ws: "for_range_in_map (bitmap_base b1) (p + o') n True True = Some (ws, True)"
            "bm_same b1 (set_words b1 ws)" "bm_bits (set_words b1 ws) = bm_bits b1 \<union> {p + o'..<p + o' + n}"
          using range_set [OF wf1(1), of "p + o'" n True] b1(4) small by (auto elim!: ensuresE)
        moreover have "u64_add p o' = p + o'" using o'(2) small by (simp add: u64_add_def)
        moreover have "fits b n (p + o')" using fw o' st [of m] by simp
        moreover have "\<exists>m. p + o' = i + m * stride" using o'(1) po(1) by auto
        ultimately show ?thesis
          using False Found b1(2,3) o'(3) unfolding step by (auto simp: alloc_post_def intro: bm_same_trans)
      qed
    qed
  qed
qed

lemma stride_dvd_64: "2 ^ k < (64::nat) \<Longrightarrow> 2 ^ k dvd (64::nat)"
proof -
  assume "2 ^ k < (64::nat)"
  then have "2 ^ k < (2::nat) ^ 6" by simp
  then have "k < 6" by (simp only: power_strict_increasing_iff)
  then have "2 ^ k dvd (2::nat) ^ 6" by (intro le_imp_power_dvd) simp
  then show ?thesis by simp
qed

text \<open>
  The contract of the allocator. The search may start anywhere when runs are a word or longer; for
  shorter runs it has to start at a multiple of the run's order.
\<close>

lemma bitmap_alloc_internal_spec:
  assumes "bitmap_wf b" "heap_grants (bm_heap b)" "0 < n" "start + n < 2 ^ 64"
    "min end' (bm_maxbits b) + 2 * n + 8192 < 2 ^ 64"
    "(64::nat) \<le> 2 ^ find_order n \<or> 2 ^ find_order n dvd start"
  shows "ensures (bitmap_alloc_internal b n start end') (\<lambda>(b', r). bm_same b b' \<and>
     (case r of
        Some j \<Rightarrow> (\<exists>m. j = start + m * 2 ^ find_order n) \<and> j + n \<le> min end' (bm_maxbits b) \<and>
          fits b n j \<and> bm_bits b' = bm_bits b \<union> {j..<j + n}
      | None \<Rightarrow> bm_bits b' = bm_bits b \<and>
          (\<forall>m. start + m * 2 ^ find_order n + n \<le> min end' (bm_maxbits b) \<longrightarrow> \<not> fits b n (start + m * 2 ^ find_order n))))"
proof -
  let ?e = "min end' (bm_maxbits b)" and ?s = "2 ^ find_order n :: nat"
  have s: "n \<le> ?s" "?s < 2 * n" using find_order_bounds [OF assms(3)] by auto
  have add: "u64_add start n = start + n" using assms(4) by (simp add: u64_add_def)
  show ?thesis
  proof (cases "start + n > ?e")
    case True
    have "\<not> start + m * ?s + n \<le> ?e" for m using True by (metis add.commute add_leD1 add.assoc not_less)
    with True add assms(1) show ?thesis by (auto simp: bitmap_alloc_internal_def bm_same_def Let_def)
  next
    case False
    have "ensures (if ?s \<ge> 64 then alloc_multi b n ?s (?e - n) start else alloc_words b n ?s (?e - n) start)
        (\<lambda>(b', r). alloc_post b n ?s (?e - n) start b' r)"
    proof (cases "?s \<ge> 64")
      case True
      have "?e - n + n + ?s + 4096 < 2 ^ 64" using False assms(5) s by linarith
      with alloc_multi_spec [OF assms(1-3), of ?s "?e - n" start] True show ?thesis by simp
    next
      case small: False
      then have "?s dvd 64" using stride_dvd_64 [of "find_order n"] by simp
      moreover have "?e - n + 8192 < 2 ^ 64" using assms(5) by linarith
      ultimately show ?thesis
        using alloc_words_spec [OF assms(1-3) s(1), of start "?e - n"] assms(6) small by simp
    qed
    moreover have "bitmap_alloc_internal b n start end' =
        (if ?s \<ge> 64 then alloc_multi b n ?s (?e - n) start else alloc_words b n ?s (?e - n) start)"
      using False add by (simp add: bitmap_alloc_internal_def Let_def)
    moreover have "j \<le> ?e - n \<longleftrightarrow> j + n \<le> ?e" for j using False by linarith
    ultimately show ?thesis by (simp add: alloc_post_def cong: option.case_cong)
  qed
qed

lemma bitmap_dealloc_spec:
  assumes "bitmap_wf b" "i + n < 2 ^ 64" "i + n \<le> bm_mapbits b"
  shows "ensures (bitmap_dealloc b i n) (\<lambda>(b', ok). bm_same b b' \<and>
           (ok \<longleftrightarrow> i + n \<le> bm_maxbits b \<and> {i..<i + n} \<subseteq> bm_bits b) \<and>
           bm_bits b' = (if ok then bm_bits b - {i..<i + n} else bm_bits b))"
proof -
  have add: "u64_add i n = i + n" using assms(2) by (simp add: u64_add_def)
  have sub: "(\<forall>k \<in> {i..<i + n}. (k \<in> bm_bits b) = True) \<longleftrightarrow> {i..<i + n} \<subseteq> bm_bits b" by auto
  note chk = range_check [OF assms(1,3,2), of True, unfolded sub]
  show ?thesis
    using assms(1) add chk range_set [OF assms(1,3,2), of False]
    by (auto simp: bitmap_dealloc_def bm_same_def elim!: ensuresE)
qed

section \<open>Single bits, reservation and creation\<close>

lemma bitmap_get_spec: "bitmap_wf b \<Longrightarrow> bitmap_get b i = Some (i \<in> bm_bits b)"
proof -
  assume wf: "bitmap_wf b"
  have "(w AND push_bit n 1 \<noteq> 0) \<longleftrightarrow> bit w n" if "n < 64" for n and w :: u64
    using that bit_eq_iff [of "w AND push_bit n 1" 0] by (auto simp: bit_simps)
  moreover have "i div 64 < length (bitmap_base b)" if "i < bm_mapbits b"
    using that bitmap_wf_length [OF wf] by (simp add: div_less_iff_less_mult mult.commute)
  ultimately show ?thesis by (auto simp: bitmap_get_def bm_bits_def bit_at_def)
qed

lemma bitmap_range_check_and_set_spec:
  assumes "bitmap_wf b" "heap_grants (bm_heap b)" "0 < n" "start + n + 4096 < 2 ^ 64"
  shows "ensures (bitmap_range_check_and_set b start n validate st) (\<lambda>(b', ok). bm_same b b' \<and>
           (ok \<longleftrightarrow> start + n \<le> bm_maxbits b \<and>
              (validate \<longrightarrow> (if st then {start..<start + n} \<inter> bm_bits b = {} else {start..<start + n} \<subseteq> bm_bits b))) \<and>
           bm_bits b' = (if \<not> ok then bm_bits b
                         else if st then bm_bits b \<union> {start..<start + n} else bm_bits b - {start..<start + n}))"
proof (cases "start + n \<le> bm_maxbits b")
  case False
  with assms show ?thesis by (auto simp: bitmap_range_check_and_set_def u64_add_def bm_same_def)
next
  case True
  have add: "u64_add start n = start + n" "u64_add (start + n) (2 ^ 64 - 1) = start + n - 1"
    using assms(3,4) by (auto simp: u64_add_def mod_if)
  obtain b1 x where b1: "bitmap_extend b (start + n - 1) = Some (b1, x)" "bm_same b b1" "bm_bits b1 = bm_bits b"
      "start + n - 1 < bm_mapbits b1"
    using bitmap_extend_spec [OF assms(1), of "start + n - 1"] assms(2-4) by (auto elim!: ensuresE)
  have in_map: "bitmap_wf b1" "start + n \<le> bm_mapbits b1" "start + n < 2 ^ 64"
    using b1(2,4) assms(3,4) by (auto simp: bm_same_def)
  let ?R = "{start..<start + n}"
  define Q where "Q \<longleftrightarrow> (if st then ?R \<inter> bm_bits b = {} else ?R \<subseteq> bm_bits b)"
  have sub: "(\<forall>k \<in> ?R. (k \<in> bm_bits b1) = (\<not> st)) \<longleftrightarrow> Q"
    unfolding b1(3) Q_def by auto
  obtain ws where ws: "for_range_in_map (bitmap_base b1) start n True st = Some (ws, True)" "bm_same b1 (set_words b1 ws)"
      "bm_bits (set_words b1 ws) = (if st then bm_bits b \<union> ?R else bm_bits b - ?R)"
    using range_set [OF in_map, of st] unfolding b1(3) by (auto elim!: ensuresE)
  have "bitmap_range_check_and_set b start n validate st =
      Some (if validate \<and> \<not> Q then (b1, False) else (set_words b1 ws, True))"
    using True assms(3) add b1(1) range_check [OF in_map, of "\<not> st", unfolded sub] ws(1)
    by (simp add: bitmap_range_check_and_set_def)
  then show ?thesis
    using True b1(2,3) ws(2,3) unfolding Q_def [symmetric] by (auto intro: bm_same_trans)
qed

lemma allocate_bitmap_spec:
  assumes "heap_ok h" "heap_grants h" "0 < len" "len < 2 ^ 64 - 64"
  shows "\<exists>b. allocate_bitmap True h len = Some (Some b) \<and> bitmap_wf b \<and> bm_bits b = {} \<and> bm_maxbits b = len \<and>
           bm_heap b = h"
proof -
  define k where "k = min 64 ((len - 1) div 64 + 1)"
  have "(len + (2 ^ 64 - 1)) mod 2 ^ 64 = len - 1" using assms(3,4) by (simp add: mod_if)
  moreover have "(len - 1) div 64 * 64 + 64 < 2 ^ 64"
    using assms(4) div_times_less_eq_dividend [of "len - 1" 64] by linarith
  ultimately have "pad len 64 = ((len - 1) div 64 + 1) * 64" using assms(3,4) by (simp add: pad_def u64_add_def)
  then have m: "min ALLOC_EXTEND_BITS (pad len 64) = 64 * k" by (simp add: ALLOC_EXTEND_BITS_def k_def min_def)
  have "0 < k" by (simp add: k_def)
  moreover obtain c where "h k = Some c" "length c = k" using assms(1,2) unfolding heap_ok_def heap_grants_def by fastforce
  ultimately show ?thesis
    using assms m
    by (auto simp: allocate_bitmap_def allocate_bitmap_internal_def bitmap_infinity_def allocate_buffer_def init_buffer_def
        memcpy_to_def buffer_produce_def bitmap_wf_def buffer_wf_def bm_heap_def bm_bits_def bit_at_def
        div_less_iff_less_mult mult.commute)
qed

text \<open>What \<^verbatim>\<open>bitmap_alloc\<close> answers: the first fitting run, or nothing if none fits.\<close>

definition alloc_result :: "bitmap \<Rightarrow> nat \<Rightarrow> bitmap \<Rightarrow> nat option \<Rightarrow> bool" where
  "alloc_result b n b' r \<longleftrightarrow>
     (case r of
        Some j \<Rightarrow> (\<exists>m. j = m * 2 ^ find_order n) \<and> j + n \<le> bm_maxbits b \<and> fits b n j \<and> bm_bits b' = bm_bits b \<union> {j..<j + n}
      | None \<Rightarrow> bm_bits b' = bm_bits b \<and> (\<forall>m. m * 2 ^ find_order n + n \<le> bm_maxbits b \<longrightarrow> \<not> fits b n (m * 2 ^ find_order n)))"

lemma bitmap_alloc_spec:
  assumes "bitmap_wf b" "heap_grants (bm_heap b)" "0 < n" "bm_maxbits b + 2 * n + 8192 < 2 ^ 64"
  shows "ensures (bitmap_alloc b n) (\<lambda>(b', r). bm_same b b' \<and> alloc_result b n b' r)"
proof -
  have "bm_maxbits b + 2 * n + 8192 = min (bm_maxbits b) (bm_maxbits b) + 2 * n + 8192" by simp
  then have "min (bm_maxbits b) (bm_maxbits b) + 2 * n + 8192 < 2 ^ 64" "0 + n < 2 ^ 64" using assms(4) by linarith+
  from bitmap_alloc_internal_spec [OF assms(1-3) this(2,1)] show ?thesis
    by (simp add: alloc_result_def bitmap_alloc_def cong: option.case_cong)
qed

section \<open>Properties\<close>

text \<open>A bitmap of 128 bits with some bits taken: 0 to 59 and 64.\<close>

definition taken_map :: bitmap where
  "taken_map =
     \<lparr>bm_maxbits = 128, bm_mapbits = 128, bm_map = Some (\<lambda>n. Some (replicate n 0)),
      bm_alloc_map = \<lparr>b_start = 0, b_end = 2, b_length = 2, b_wrapped = False, b_contents = [0xFFFFFFFFFFFFFFF, 1]\<rparr>\<rparr>"

lemma taken_map_wf: "bitmap_wf taken_map" "heap_grants (bm_heap taken_map)" "bm_maxbits taken_map = 128"
  by (simp_all add: bitmap_wf_def taken_map_def buffer_wf_def heap_ok_def heap_grants_def bm_heap_def)

lemma find_order_4: "find_order 4 = 2"
  by (simp add: find_order_def msb.simps)





text \<open>C36: For runs shorter than a word the allocator's search must start at a multiple of the run's
  order. Started elsewhere, as \<^verbatim>\<open>bitmap_alloc_within_range\<close> allows, it compares a run that crosses into
  the next word only with the part inside the first word, and can hand out bits that are taken: here
  it returns the run 62 to 65 although bit 64 is allocated.\<close>

theorem bitmap_alloc_within_range_overlap:
  "bitmap_wf taken_map \<and> 64 \<in> bm_bits taken_map \<and>
   (\<exists>b'. bitmap_alloc_within_range taken_map 4 2 128 = Some (b', Some 62))"
proof -
  have "\<exists>b'. bitmap_alloc_within_range taken_map 4 2 128 = Some (b', Some 62)"
    by (simp add: bitmap_alloc_within_range_def bitmap_alloc_internal_def taken_map_def find_order_4 u64_add_def Let_def
        alloc_words.simps bitmap_extend_def alloc_in_word.simps mask_numeral for_range_in_map_def word_op_at_def
        word_op_def words_loop.simps set_words_def)
  moreover have "64 \<in> bm_bits taken_map" by (simp add: bm_bits_def bit_at_def taken_map_def)
  ultimately show ?thesis using taken_map_wf by simp
qed

text \<open>Reserving or releasing an arbitrary run of bits with \<^verbatim>\<open>bitmap_range_check_and_set\<close>: it succeeds
  exactly when the run lies below \<^verbatim>\<open>maxbits\<close> and, if asked to validate, all its bits have the opposite
  value; only then the bits change, and only those of the run.\<close>

theorem bitmap_range_check_and_set_correct:
  assumes "bitmap_wf b" "heap_grants (bm_heap b)" "0 < n" "start + n + 4096 < 2 ^ 64"
  shows "\<exists>b' ok. bitmap_range_check_and_set b start n validate st = Some (b', ok) \<and> bitmap_wf b' \<and>
           (ok \<longleftrightarrow> start + n \<le> bm_maxbits b \<and>
              (validate \<longrightarrow> (if st then {start..<start + n} \<inter> bm_bits b = {} else {start..<start + n} \<subseteq> bm_bits b))) \<and>
           bm_bits b' = (if \<not> ok then bm_bits b
                         else if st then bm_bits b \<union> {start..<start + n} else bm_bits b - {start..<start + n})"
  using bitmap_range_check_and_set_spec [OF assms, of validate st]
  unfolding ensures_def split_paired_Ex prod.case bm_same_def by blast

theorem bitmap_range_check_and_set_witness:
  "bitmap_wf taken_map \<and> heap_grants (bm_heap taken_map) \<and>
   (\<exists>b' ok. bitmap_range_check_and_set taken_map 62 2 True True = Some (b', ok) \<and> bitmap_wf b' \<and>
      (ok \<longleftrightarrow> 62 + 2 \<le> bm_maxbits taken_map \<and>
         (True \<longrightarrow> (if True then {62..<62 + 2} \<inter> bm_bits taken_map = {} else {62..<62 + 2} \<subseteq> bm_bits taken_map))) \<and>
      bm_bits b' = (if \<not> ok then bm_bits taken_map
                    else if True then bm_bits taken_map \<union> {62..<62 + 2} else bm_bits taken_map - {62..<62 + 2}))"
  using bitmap_range_check_and_set_correct [of taken_map 2 62 True True] taken_map_wf by simp

end
