(* ===== verification/Id_Heap.thy ===== *)
theory Id_Heap
  imports Rangemap Bitmap
begin

text \<open>
  \<^verbatim>\<open>kernel/src/runtime/heap/id.c\<close> and \<^verbatim>\<open>id.h\<close>: heaps that hand out ranges of numbers (addresses, page frames,
  identifiers) from a range map whose nodes carry a bitmap each.

  An \<^verbatim>\<open>id_range\<close> extends a node of the range map, so the ranges are a range map of such records and
  a store through a pointer to a node is \<open>rangemap_write\<close>. Addresses and page numbers are 64-bit words;
  bit numbers handed to the bitmap are the values of such words. The other heaps a heap of ids uses are parameters:
  \<open>ih_meta\<close> says whether the \<^verbatim>\<open>meta\<close> heap has memory for a structure, \<open>ih_map\<close> is the heap of the
  bitmaps, and \<open>palloc\<close> is what the parent heap answers. \<open>rnd\<close> is the random number of a
  randomized search. The variants that take a lock call the same functions under it and are not repeated.
\<close>

section \<open>Data\<close>

definition NEXT_BIT_COUNT :: nat where
  "NEXT_BIT_COUNT = 10"

record id_range = rmnode +
  ir_b :: bitmap
  ir_bitmap_start :: u64
  ir_next_bit :: "u64 list"

record id_heap =
  ih_pagesize :: u64
  ih_page_order :: nat
  ih_allocated :: u64
  ih_total :: u64
  ih_randomize :: bool
  ih_meta :: bool
  ih_map :: "u64 heap"
  ih_parent :: "u64 option"
  ih_ranges :: "id_range rangemap"

definition infinity :: u64 where
  "infinity = - 1"

definition page_mask :: "id_heap \<Rightarrow> u64" where
  "page_mask i = ih_pagesize i - 1"

definition pad_u64 :: "u64 \<Rightarrow> u64 \<Rightarrow> u64" where
  "pad_u64 x s = of_nat (pad (unat x) (unat s))"

definition get_next_bit :: "id_range \<Rightarrow> nat \<Rightarrow> u64" where
  "get_next_bit r order = ir_next_bit r ! min order (NEXT_BIT_COUNT - 1)"

definition set_next_bit :: "id_range \<Rightarrow> nat \<Rightarrow> u64 \<Rightarrow> id_range" where
  "set_next_bit r order b = (if order < NEXT_BIT_COUNT then r\<lparr>ir_next_bit := (ir_next_bit r)[order := b]\<rparr> else r)"

text \<open>\<^verbatim>\<open>pages_from_bytes\<close> returns an \<^verbatim>\<open>int\<close>, which its callers widen again.\<close>

definition pages_from_bytes :: "id_heap \<Rightarrow> u64 \<Rightarrow> u64" where
  "pages_from_bytes i alloc_size =
     scast (ucast (drop_bit (ih_page_order i) (pad_u64 alloc_size (ih_pagesize i))) :: 32 word)"

definition write_range :: "id_heap \<Rightarrow> id_range \<Rightarrow> id_range \<Rightarrow> id_heap" where
  "write_range i r r' = i\<lparr>ih_ranges := rangemap_write (ih_ranges i) r r'\<rparr>"

section \<open>Adding ranges\<close>

text \<open>
  \<^verbatim>\<open>id_add_range\<close>. The new node goes into the range map before its bitmap exists; its other fields then hold
  whatever the memory held (\<open>rm_k\<close>). When the bitmap cannot be allocated the node is freed but stays in
  the map. Without memory for the node the code stores through the invalid address.
\<close>

definition id_add_range :: "id_heap \<Rightarrow> u64 \<Rightarrow> u64 \<Rightarrow> (id_heap \<times> id_range option) option" where
  "id_add_range i base len =
     (let len = (if len = infinity
                    then (len - base) AND NOT (push_bit (ih_page_order i + 6) 1 - 1) else len);
          page_start = drop_bit (ih_page_order i) base;
          pages = drop_bit (ih_page_order i) len
      in if len < ih_pagesize i \<or> base AND page_mask i \<noteq> 0 \<or> len AND page_mask i \<noteq> 0 then None
         else if \<not> ih_meta i then None
         else do {
           let n0 = key_node (ih_ranges i) (irangel page_start pages);
           (ranges, ok) \<leftarrow> rangemap_insert (ih_ranges i) n0;
           if \<not> ok then Some (i, None)
           else do {
             let i = i\<lparr>ih_ranges := ranges\<rparr>;
             let page_start_mask = page_start AND mask 6;
             bo \<leftarrow> allocate_bitmap (ih_meta i) (ih_map i) (unat (pages + page_start_mask));
             case bo of
               None \<Rightarrow> Some (i, None)
             | Some b \<Rightarrow> do {
                 b \<leftarrow> (if page_start_mask \<noteq> 0
                       then map_option fst (bitmap_range_check_and_set b 0 (unat page_start_mask) False True)
                       else Some b);
                 let n = n0\<lparr>ir_b := b, ir_bitmap_start := page_start AND NOT (mask 6),
                            ir_next_bit := replicate NEXT_BIT_COUNT 0\<rparr>;
                 let i = write_range i n0 n;
                 Some (i\<lparr>ih_total := ih_total i + len\<rparr>, Some n)
               }
           }
         })"

definition add_range :: "id_heap \<Rightarrow> u64 \<Rightarrow> u64 \<Rightarrow> (id_heap \<times> bool) option" where
  "add_range i base len = map_option (\<lambda>(i, r). (i, r \<noteq> None)) (id_add_range i base len)"

definition id_get_backed_page :: "(u64 \<Rightarrow> u64) \<Rightarrow> id_heap \<Rightarrow> u64 \<Rightarrow> (id_heap \<times> id_range option) option" where
  "id_get_backed_page palloc i cnt = do {
     psize \<leftarrow> ih_parent i;
     let parent_pages = (cnt - 1) div psize + 1;
     let len = parent_pages * psize;
     let base = palloc len;
     if base = INVALID_PHYSICAL then Some (i, None) else id_add_range i base len
   }"

section \<open>Allocation\<close>

definition WHOLE_RANGE :: range where
  "WHOLE_RANGE = irange 0 infinity"

text \<open>The part of a range that a search for \<open>pages\<close> pages covers, relative to the bitmap; nothing if it is too
  small.\<close>

definition search_range :: "id_range \<Rightarrow> u64 \<Rightarrow> range \<Rightarrow> range option" where
  "search_range r pages subrange =
     (let pages_rounded = push_bit (find_order (unat pages)) 1;
          ri = range_intersection (rm_r r) subrange
      in if range_empty ri then None
         else let ri = irange (pad_u64 (r_start ri) pages_rounded - ir_bitmap_start r) (r_end ri - ir_bitmap_start r)
              in if \<not> range_valid ri \<or> range_span ri < pages then None else Some ri)"

text \<open>Where the search starts: at a random place, or where the last allocation of that order ended.\<close>

definition search_start :: "u64 \<Rightarrow> id_heap \<Rightarrow> id_range \<Rightarrow> u64 \<Rightarrow> range \<Rightarrow> u64" where
  "search_start rnd i r pages ri =
     (let order = find_order (unat pages);
          pages_rounded = push_bit order 1;
          span = range_span ri AND NOT (pages_rounded - 1);
          margin = (if span > pages_rounded then span - pages_rounded else 0)
      in if ih_randomize i \<and> margin > 0 then r_start ri + rnd mod margin
         else let next_bit = get_next_bit r order
              in if point_in_range ri next_bit then min next_bit (r_start ri + margin) else r_start ri)"

definition id_alloc_from_range :: "u64 \<Rightarrow> id_heap \<Rightarrow> id_range \<Rightarrow> u64 \<Rightarrow> range \<Rightarrow> (id_heap \<times> u64) option" where
  "id_alloc_from_range rnd i r pages subrange =
     (case search_range r pages subrange of
        None \<Rightarrow> Some (i, INVALID_PHYSICAL)
      | Some ri \<Rightarrow> do {
          let order = find_order (unat pages);
          let start_bit = search_start rnd i r pages ri;
          (b, found) \<leftarrow> bitmap_alloc_within_range (ir_b r) (unat pages) (unat start_bit) (unat (r_end ri));
          (b, found) \<leftarrow>
            (if found = None \<and> start_bit > r_start ri
             then bitmap_alloc_within_range b (unat pages) (unat (r_start ri)) (unat start_bit)
             else Some (b, found));
          case found of
            None \<Rightarrow> Some (write_range i r (r\<lparr>ir_b := b\<rparr>), INVALID_PHYSICAL)
          | Some k \<Rightarrow>
              (let r' = set_next_bit (r\<lparr>ir_b := b\<rparr>) order (of_nat k + push_bit order 1);
                   i' = write_range i r r'
               in Some (i'\<lparr>ih_allocated := ih_allocated i + push_bit (ih_page_order i) pages\<rparr>,
                        push_bit (ih_page_order i) (ir_bitmap_start r + of_nat k)))
        })"

text \<open>The loop over the ranges, which \<^verbatim>\<open>id_alloc\<close> and \<^verbatim>\<open>alloc_subrange\<close> share.\<close>

partial_function (option) alloc_from_ranges ::
    "u64 \<Rightarrow> u64 \<Rightarrow> range \<Rightarrow> id_heap \<Rightarrow> id_range option \<Rightarrow> (id_heap \<times> u64) option" where
  "alloc_from_ranges rnd pages subrange i r =
     (case r of
        None \<Rightarrow> Some (i, INVALID_PHYSICAL)
      | Some r \<Rightarrow>
          id_alloc_from_range rnd i r pages subrange \<bind> (\<lambda>p.
            if snd p \<noteq> INVALID_PHYSICAL then Some p
            else alloc_from_ranges rnd pages subrange (fst p) (rangemap_next_node (ih_ranges (fst p)) r)))"

declare alloc_from_ranges.simps [code]

definition id_alloc :: "u64 \<Rightarrow> (u64 \<Rightarrow> u64) \<Rightarrow> id_heap \<Rightarrow> u64 \<Rightarrow> (id_heap \<times> u64) option" where
  "id_alloc rnd palloc i cnt =
     (if cnt = 0 then Some (i, INVALID_PHYSICAL)
      else do {
        let pages = pages_from_bytes i cnt;
        (i, a) \<leftarrow> alloc_from_ranges rnd pages WHOLE_RANGE i (rangemap_first_node (ih_ranges i));
        if a \<noteq> INVALID_PHYSICAL then Some (i, a)
        else if ih_parent i = None then Some (i, INVALID_PHYSICAL)
        else do {
          (i, ro) \<leftarrow> id_get_backed_page palloc i cnt;
          case ro of
            None \<Rightarrow> Some (i, INVALID_PHYSICAL)
          | Some r \<Rightarrow> id_alloc_from_range rnd i r pages WHOLE_RANGE
        }
      })"

definition alloc_subrange :: "u64 \<Rightarrow> id_heap \<Rightarrow> u64 \<Rightarrow> u64 \<Rightarrow> u64 \<Rightarrow> (id_heap \<times> u64) option" where
  "alloc_subrange rnd i cnt start end' =
     (let subrange = irange (drop_bit (ih_page_order i) (pad_u64 start (ih_pagesize i)))
                            (if end' = infinity then infinity else drop_bit (ih_page_order i) end')
      in if cnt = 0 \<or> \<not> range_valid subrange \<or> range_span subrange = 0 \<or> r_start subrange = infinity
         then Some (i, INVALID_PHYSICAL)
         else let pages = pages_from_bytes i cnt
              in if range_span subrange < pages then Some (i, INVALID_PHYSICAL)
                 else alloc_from_ranges rnd pages subrange i (rangemap_first_node (ih_ranges i)))"

text \<open>\<^verbatim>\<open>set_next\<close> visits every range of the map.\<close>

definition set_next_range :: "nat \<Rightarrow> u64 \<Rightarrow> id_range \<Rightarrow> id_range" where
  "set_next_range order next r =
     (if point_in_range (rm_r r) next then set_next_bit r order (next - ir_bitmap_start r)
      else if r_start (rm_r r) > next then set_next_bit r order 0 else r)"

definition set_next :: "id_heap \<Rightarrow> u64 \<Rightarrow> u64 \<Rightarrow> id_heap" where
  "set_next i cnt next =
     (let order = find_order (unat (pages_from_bytes i cnt))
      in fold (\<lambda>r i. write_range i r (set_next_range order next r)) (rm_nodes (ih_ranges i)) i)"

definition id_heap_alloc_gte :: "u64 \<Rightarrow> id_heap \<Rightarrow> u64 \<Rightarrow> u64 \<Rightarrow> (id_heap \<times> u64) option" where
  "id_heap_alloc_gte rnd i cnt mn = alloc_subrange rnd (set_next i cnt mn) cnt mn infinity"

definition set_randomize :: "id_heap \<Rightarrow> bool \<Rightarrow> id_heap" where
  "set_randomize i randomize = i\<lparr>ih_randomize := randomize\<rparr>"

section \<open>Deallocation and reservation\<close>

text \<open>The offset of a page in its range is computed as an \<^verbatim>\<open>int\<close>.\<close>

definition bit_offset :: "u64 \<Rightarrow> id_range \<Rightarrow> u64" where
  "bit_offset page r = scast (ucast (page - ir_bitmap_start r) :: 32 word)"

text \<open>The handlers of the traversals work on the heap, or on \<open>None\<close> once something failed.\<close>

definition dealloc_from_range :: "range \<Rightarrow> (id_range, id_heap option) rmnode_handler" where
  "dealloc_from_range q r s =
     (case do {
        i \<leftarrow> s;
        let ri = range_intersection q (rm_r r);
        let k = bit_offset (r_start ri) r;
        let pages = range_span ri;
        let order = find_order (unat pages);
        (b, ok) \<leftarrow> bitmap_dealloc (ir_b r) (unat k) (unat pages);
        if \<not> ok then Some (i, False)
        else do {
          let r1 = r\<lparr>ir_b := b\<rparr>;
          let r2 = (if pages = push_bit order 1 \<and> r_start ri AND (pages - 1) = 0 \<and> k < get_next_bit r order
                    then set_next_bit r1 order k else r1);
          let deallocated = push_bit (ih_page_order i) pages;
          if ih_allocated i < deallocated then None
          else Some ((write_range i r r2)\<lparr>ih_allocated := ih_allocated i - deallocated\<rparr>, True)
        }
      } of None \<Rightarrow> (None, False) | Some (i, ok) \<Rightarrow> (Some i, ok))"

definition dealloc_gap :: "'s range_handler" where
  "dealloc_gap r s = (s, False)"

definition id_dealloc :: "id_heap \<Rightarrow> u64 \<Rightarrow> u64 \<Rightarrow> id_heap option" where
  "id_dealloc i a cnt =
     (if cnt = 0 then Some i
      else if a AND page_mask i \<noteq> 0 \<or> cnt AND page_mask i \<noteq> 0 then Some i
      else do {
        let q = range_rshift (irangel a cnt) (ih_page_order i);
        (s, _) \<leftarrow> rangemap_range_lookup_with_gaps (ih_ranges i) q (dealloc_from_range q) dealloc_gap (Some i);
        s
      })"

definition set_intersection :: "range \<Rightarrow> bool \<Rightarrow> bool \<Rightarrow> (id_range, id_heap option) rmnode_handler" where
  "set_intersection q validate allocate r s =
     (case do {
        i \<leftarrow> s;
        let ri = range_intersection q (rm_r r);
        let k = bit_offset (r_start ri) r;
        (b, ok) \<leftarrow> bitmap_range_check_and_set (ir_b r) (unat k) (unat (range_span ri)) validate allocate;
        Some (write_range i r (r\<lparr>ir_b := b\<rparr>), ok)
      } of None \<Rightarrow> (None, False) | Some (i, ok) \<Rightarrow> (Some i, ok))"

definition set_gap :: "'s range_handler" where
  "set_gap r s = (s, False)"

definition set_area :: "id_heap \<Rightarrow> u64 \<Rightarrow> u64 \<Rightarrow> bool \<Rightarrow> bool \<Rightarrow> (id_heap \<times> bool) option" where
  "set_area i base len validate allocate = do {
     let base = base AND NOT (page_mask i);
     let len = pad_u64 len (ih_pagesize i);
     let q = range_rshift (irangel base len) (ih_page_order i);
     (s, result) \<leftarrow> rangemap_range_lookup_with_gaps (ih_ranges i) q (set_intersection q validate allocate) set_gap (Some i);
     i \<leftarrow> s;
     if validate \<and> result = RM_MATCH
     then if allocate then Some (i\<lparr>ih_allocated := ih_allocated i + len\<rparr>, True)
          else if ih_allocated i < len then None
          else Some (i\<lparr>ih_allocated := ih_allocated i - len\<rparr>, True)
     else Some (i, result = RM_MATCH)
   }"

section \<open>Whole heaps\<close>

text \<open>\<^verbatim>\<open>id_heap_range_foreach\<close> calls its handler on every range, in address units, and ignores its answers.\<close>

definition node_foreach_handler :: "(range \<Rightarrow> 's \<Rightarrow> 's \<times> bool) \<Rightarrow> nat \<Rightarrow> (id_range, 's) rmnode_handler" where
  "node_foreach_handler rh order n s = (fst (rh (range_lshift (rm_r n) order) s), True)"

definition id_heap_range_foreach :: "id_heap \<Rightarrow> (range \<Rightarrow> 's \<Rightarrow> 's \<times> bool) \<Rightarrow> 's \<Rightarrow> ('s \<times> bool) option" where
  "id_heap_range_foreach i rh s =
     map_option (\<lambda>(s, r). (s, r = RM_MATCH))
       (rangemap_range_lookup (ih_ranges i) (irange 0 infinity) (node_foreach_handler rh (ih_page_order i)) s)"

definition prealloc_foreach_handler :: "range \<Rightarrow> id_heap option \<Rightarrow> id_heap option \<times> bool" where
  "prealloc_foreach_handler r s =
     (case s \<bind> (\<lambda>i. set_area i (r_start r) (range_span r) False False) of
        None \<Rightarrow> (None, False) | Some (i, ok) \<Rightarrow> (Some i, ok))"

definition id_heap_prealloc :: "id_heap \<Rightarrow> (id_heap \<times> bool) option" where
  "id_heap_prealloc i = do {
     (s, ok) \<leftarrow> id_heap_range_foreach i prealloc_foreach_handler (Some i);
     i \<leftarrow> s;
     Some (i, ok)
   }"

text \<open>\<^verbatim>\<open>allocate_id_heap\<close>: the outer option is the assertion on the page size, the inner one a heap without
  memory. \<open>nodes\<close> is the heap of the range map and \<open>junk\<close> what uninitialised nodes hold.\<close>

definition allocate_id_heap :: "bool \<Rightarrow> u64 heap \<Rightarrow> id_range heap \<Rightarrow> id_range \<Rightarrow> u64 \<Rightarrow> id_heap option option" where
  "allocate_id_heap meta map_heap nodes junk pagesize =
     (if pagesize AND (pagesize - 1) \<noteq> 0 then None
      else if \<not> meta then Some None
      else Some (Some \<lparr>ih_pagesize = pagesize, ih_page_order = msb (unat pagesize), ih_allocated = 0, ih_total = 0,
                       ih_randomize = False, ih_meta = meta, ih_map = map_heap, ih_parent = None,
                       ih_ranges = init_rangemap nodes junk\<rparr>))"

definition create_id_heap ::
    "bool \<Rightarrow> u64 heap \<Rightarrow> id_range heap \<Rightarrow> id_range \<Rightarrow> u64 \<Rightarrow> u64 \<Rightarrow> u64 \<Rightarrow> id_heap option option" where
  "create_id_heap meta map_heap nodes junk base len pagesize = do {
     io \<leftarrow> allocate_id_heap meta map_heap nodes junk pagesize;
     case io of
       None \<Rightarrow> Some None
     | Some i \<Rightarrow> do {
         (i, r) \<leftarrow> id_add_range i base len;
         Some (if r = None then None else Some i)
       }
   }"

definition create_id_heap_backed ::
    "bool \<Rightarrow> u64 heap \<Rightarrow> id_range heap \<Rightarrow> id_range \<Rightarrow> u64 \<Rightarrow> (u64 \<Rightarrow> u64) \<Rightarrow> u64 \<Rightarrow> id_heap option option" where
  "create_id_heap_backed meta map_heap nodes junk psize palloc pagesize = do {
     io \<leftarrow> allocate_id_heap meta map_heap nodes junk pagesize;
     case io of
       None \<Rightarrow> Some None
     | Some i \<Rightarrow> do {
         (i, r) \<leftarrow> id_get_backed_page palloc (i\<lparr>ih_parent := Some psize\<rparr>) 1;
         Some (if r = None then None else Some i)
       }
   }"

text \<open>\<^verbatim>\<open>clone_id_heap\<close> copies the bitmap, the next bits and the range of every node, but not its
  \<^verbatim>\<open>bitmap_start\<close>, which keeps what the memory of the new node held.\<close>

definition clone_id_range :: "id_range \<Rightarrow> id_range \<Rightarrow> bitmap \<Rightarrow> id_range" where
  "clone_id_range junk r b = junk\<lparr>ir_b := b, ir_next_bit := ir_next_bit r, rm_r := rm_r r\<rparr>"

fun clone_ranges :: "bool \<Rightarrow> id_range list \<Rightarrow> id_range rangemap \<Rightarrow> id_range rangemap option option" where
  "clone_ranges meta [] rm = Some (Some rm)"
| "clone_ranges meta (r # rs) rm =
     (if \<not> meta then Some None
      else do {
        bo \<leftarrow> bitmap_clone meta (ir_b r);
        case bo of
          None \<Rightarrow> Some None
        | Some b \<Rightarrow> do {
            (rm, ok) \<leftarrow> rangemap_insert rm (clone_id_range (rm_k rm) r b);
            if ok then clone_ranges meta rs rm else None
          }
      })"

definition clone_id_heap :: "id_heap \<Rightarrow> id_heap option option" where
  "clone_id_heap source =
     (if \<not> ih_meta source then Some None
      else do {
        ro \<leftarrow> clone_ranges (ih_meta source) (rm_nodes (ih_ranges source))
                (init_rangemap (rm_h (ih_ranges source)) (rm_k (ih_ranges source)));
        Some (map_option (\<lambda>rm. source\<lparr>ih_ranges := rm\<rparr>) ro)
      })"

section \<open>The bitmap of a range\<close>

text \<open>A search from \<open>s\<close> to the end and, failing that, from \<open>s0\<close> to \<open>s\<close>: together they visit every aligned
  place from \<open>s0\<close> on.\<close>

definition wrap_search :: "bitmap \<Rightarrow> nat \<Rightarrow> nat \<Rightarrow> nat \<Rightarrow> nat \<Rightarrow> (bitmap \<times> nat option) option" where
  "wrap_search b n s0 s e = do {
     (b1, f) \<leftarrow> bitmap_alloc_within_range b n s e;
     if f = None \<and> s > s0 then bitmap_alloc_within_range b1 n s0 s else Some (b1, f)
   }"

definition found_in :: "bitmap \<Rightarrow> nat \<Rightarrow> nat \<Rightarrow> nat \<Rightarrow> bitmap \<Rightarrow> nat option \<Rightarrow> bool" where
  "found_in b n s0 e b' f \<longleftrightarrow> bm_same b b' \<and>
     (case f of
        Some j \<Rightarrow> (\<exists>m. j = s0 + m * 2 ^ find_order n) \<and> j + n \<le> e \<and> fits b n j \<and> bm_bits b' = bm_bits b \<union> {j..<j + n}
      | None \<Rightarrow> bm_bits b' = bm_bits b \<and> (\<forall>m. s0 + m * 2 ^ find_order n + n \<le> e \<longrightarrow> \<not> fits b n (s0 + m * 2 ^ find_order n)))"

lemma within_range_spec:
  assumes "bitmap_wf b" "heap_grants (bm_heap b)" "0 < n" "s < 2 ^ 61" "e \<le> bm_maxbits b" "e < 2 ^ 61" "n < 2 ^ 61"
    "(64::nat) \<le> 2 ^ find_order n \<or> 2 ^ find_order n dvd s"
  shows "ensures (bitmap_alloc_within_range b n s e) (\<lambda>(b', f). found_in b n s e b' f)"
proof -
  have m: "min e (bm_maxbits b) = e" using assms(5) by simp
  have "x < 2 ^ 61 \<Longrightarrow> y < 2 ^ 61 \<Longrightarrow> x + y < 2 ^ 64" "x < 2 ^ 61 \<Longrightarrow> y < 2 ^ 61 \<Longrightarrow> x + 2 * y + 8192 < 2 ^ 64" for x y :: nat
    by simp_all
  then have "s + n < 2 ^ 64" "min e (bm_maxbits b) + 2 * n + 8192 < 2 ^ 64" using assms(4,6,7) m by metis+
  from bitmap_alloc_internal_spec [OF assms(1-3) this assms(8)] show ?thesis
    by (simp add: bitmap_alloc_within_range_def found_in_def m cong: option.case_cong)
qed

lemma found_in_trans:
  assumes "found_in b n s e b1 None" "found_in b1 n s0 s b' f" "s0 \<le> s" "s \<le> e" "2 ^ find_order n dvd s - s0" "0 < n"
  shows "found_in b n s0 e b' f"
proof -
  let ?d = "2 ^ find_order n :: nat"
  have nd: "n \<le> ?d" using find_order_bounds [OF assms(6)] by auto
  have bits: "bm_bits b1 = bm_bits b" "bm_same b b1" using assms(1) by (auto simp: found_in_def)
  then have fits: "fits b1 n j = fits b n j" for j by (simp add: fits_def)
  obtain q where q: "s = s0 + q * ?d" using assms(3,5) by (metis dvdE le_add_diff_inverse mult.commute)
  have none: "\<not> fits b n (s0 + m * ?d)" if "s0 + m * ?d + n \<le> e" "f = None" for m
  proof (cases "q \<le> m")
    case True
    then obtain k where "m = q + k" using le_Suc_ex by blast
    then have "s0 + m * ?d = s + k * ?d" using q by (simp add: algebra_simps)
    then show ?thesis using assms(1) that(1) by (simp add: found_in_def)
  next
    case False
    then have "(m + 1) * ?d \<le> q * ?d" by (intro mult_right_mono) auto
    then have "s0 + m * ?d + n \<le> s" using q nd by (simp add: algebra_simps)
    then show ?thesis using assms(2) that(2) fits by (simp add: found_in_def)
  qed
  show ?thesis
  proof (cases f)
    case None
    with none assms(2) bits show ?thesis by (auto simp: found_in_def intro: bm_same_trans)
  next
    case (Some j)
    with assms(2,4) bits fits show ?thesis by (auto simp: found_in_def intro: bm_same_trans)
  qed
qed

lemma wrap_search_spec:
  assumes b: "bitmap_wf b" "heap_grants (bm_heap b)" and n: "0 < n" "n < 2 ^ 61"
    and s: "s0 \<le> s" "s \<le> e" "2 ^ find_order n dvd s - s0" and e: "e \<le> bm_maxbits b" "e < 2 ^ 61"
    and al: "(64::nat) \<le> 2 ^ find_order n \<or> 2 ^ find_order n dvd s0"
  shows "ensures (wrap_search b n s0 s e) (\<lambda>(b', f). found_in b n s0 e b' f)"
proof -
  have al': "(64::nat) \<le> 2 ^ find_order n \<or> 2 ^ find_order n dvd s" using al s(1,3) dvd_diffD by blast
  have lt: "s < 2 ^ 61" "s0 < 2 ^ 61" using s e by auto
  obtain b1 f where b1: "bitmap_alloc_within_range b n s e = Some (b1, f)" "found_in b n s e b1 f"
    using within_range_spec [OF b n(1) lt(1) e n(2) al'] by (auto elim!: ensuresE)
  have same: "bm_same b b1" using b1(2) by (simp add: found_in_def)
  show ?thesis
  proof (cases "f = None \<and> s > s0")
    case True
    have "bitmap_wf b1" "heap_grants (bm_heap b1)" "s \<le> bm_maxbits b1"
      using same b s e bm_same_heap [OF same] by (auto simp: bm_same_def)
    from within_range_spec [OF this(1,2) n(1) lt(2) this(3) lt(1) n(2) al]
    obtain b2 g where b2: "bitmap_alloc_within_range b1 n s0 s = Some (b2, g)" "found_in b1 n s0 s b2 g"
      by (auto elim!: ensuresE)
    with True b1 found_in_trans [OF _ b2(2) s n(1)] show ?thesis by (auto simp: wrap_search_def)
  next
    case False
    have "found_in b n s0 e b1 f"
    proof (cases f)
      case None
      with False s(1) have "s = s0" by simp
      with b1(2) show ?thesis by simp
    next
      case (Some j)
      obtain q where "s = s0 + q * 2 ^ find_order n" using s(1,3) by (metis dvdE le_add_diff_inverse mult.commute)
      moreover obtain m where "j = s + m * 2 ^ find_order n" using b1(2) Some by (auto simp: found_in_def)
      ultimately have "j = s0 + (q + m) * 2 ^ find_order n" by (simp add: algebra_simps)
      with b1(2) Some show ?thesis by (auto simp: found_in_def)
    qed
    with False b1 show ?thesis by (auto simp: wrap_search_def)
  qed
qed

section \<open>The heap invariant\<close>

text \<open>
  A range of the heap: its bitmap covers the pages from the multiple of 64 at or before its start, the bits before its
  start are taken, and the remembered places are aligned to their orders or still zero. The bounds keep page numbers away
  from the end of the 64-bit range.
\<close>

definition ir_wf :: "id_range \<Rightarrow> bool" where
  "ir_wf r \<longleftrightarrow>
     bitmap_wf (ir_b r) \<and> heap_grants (bm_heap (ir_b r)) \<and> n_start r < n_end r \<and> unat (n_end r) < 2 ^ 60 \<and>
     unat (ir_bitmap_start r) = unat (n_start r) div 64 * 64 \<and>
     bm_maxbits (ir_b r) = unat (n_end r) - unat (ir_bitmap_start r) \<and>
     {..<unat (n_start r) mod 64} \<subseteq> bm_bits (ir_b r) \<and> bm_bits (ir_b r) \<subseteq> {..<bm_maxbits (ir_b r)} \<and>
     length (ir_next_bit r) = NEXT_BIT_COUNT \<and>
     (\<forall>k < NEXT_BIT_COUNT. ir_next_bit r ! k = 0 \<or> 2 ^ k dvd unat (ir_bitmap_start r) + unat (ir_next_bit r ! k))"

text \<open>The pages of a range that are taken.\<close>

definition ir_taken :: "id_range \<Rightarrow> nat set" where
  "ir_taken r = (\<lambda>k. unat (ir_bitmap_start r) + k) ` (bm_bits (ir_b r) - {..<unat (n_start r) mod 64})"

definition ir_pages :: "id_range \<Rightarrow> nat set" where
  "ir_pages r = {unat (n_start r)..<unat (n_end r)}"

definition id_taken :: "id_heap \<Rightarrow> nat set" where
  "id_taken i = (\<Union>r \<in> set (rm_nodes (ih_ranges i)). ir_taken r)"

definition id_pages :: "id_heap \<Rightarrow> nat set" where
  "id_pages i = (\<Union>r \<in> set (rm_nodes (ih_ranges i)). ir_pages r)"

definition id_extents :: "id_heap \<Rightarrow> range list" where
  "id_extents i = map rm_r (rm_nodes (ih_ranges i))"

definition extent_pages :: "range \<Rightarrow> nat set" where
  "extent_pages r = {unat (r_start r)..<unat (r_end r)}"

definition id_inv :: "id_heap \<Rightarrow> bool" where
  "id_inv i \<longleftrightarrow> rm_inv (ih_ranges i) \<and> (\<forall>r \<in> set (rm_nodes (ih_ranges i)). ir_wf r \<and> unat (n_end r) * 2 ^ ih_page_order i < 2 ^ 64)"

lemma block_start_le: "\<not> k < m mod 64 \<Longrightarrow> m \<le> m div 64 * 64 + k" for k m :: nat
  using div_mult_mod_eq [of m 64] by linarith

lemma ir_taken_pages:
  assumes "ir_wf r"
  shows "ir_taken r \<subseteq> ir_pages r"
proof -
  let ?S = "unat (n_start r)"
  have B: "unat (ir_bitmap_start r) = ?S div 64 * 64" "bm_maxbits (ir_b r) = unat (n_end r) - ?S div 64 * 64"
    and lt: "bm_bits (ir_b r) \<subseteq> {..<bm_maxbits (ir_b r)}"
    using assms by (auto simp: ir_wf_def)
  show ?thesis
  proof
    fix x
    assume "x \<in> ir_taken r"
    then obtain k where k: "x = ?S div 64 * 64 + k" "k \<in> bm_bits (ir_b r)" "k \<notin> {..<?S mod 64}"
      unfolding ir_taken_def B(1) by blast
    have "?S \<le> x" using k(1,3) block_start_le [of k ?S] by simp
    moreover have "x < unat (n_end r)" using k(1,2) lt B(2) by auto
    ultimately show "x \<in> ir_pages r" by (simp add: ir_pages_def)
  qed
qed

text \<open>Rounding up to a multiple.\<close>

definition up :: "nat \<Rightarrow> nat \<Rightarrow> nat" where
  "up x s = (x + s - 1) div s * s"

lemma up_bounds:
  assumes "0 < s"
  shows "s dvd up x s" "x \<le> up x s" "up x s < x + s" "s dvd y \<Longrightarrow> x \<le> y \<Longrightarrow> up x s \<le> y"
proof -
  show "s dvd up x s" by (simp add: up_def)
  have "x + s - 1 < up x s + s" using dividend_less_div_times [OF assms, of "x + s - 1"] by (simp add: up_def)
  then show "x \<le> up x s" using assms by linarith
  have "up x s \<le> x + s - 1" by (simp add: up_def div_times_less_eq_dividend)
  then show "up x s < x + s" using assms by linarith
  assume y: "s dvd y" "x \<le> y"
  then obtain q where "y = q * s" by (metis dvd_def mult.commute)
  then have "x + s - 1 < (q + 1) * s" using y(2) assms by simp
  then have "(x + s - 1) div s \<le> q" using assms by (simp add: div_less_iff_less_mult less_Suc_eq_le [symmetric])
  then show "up x s \<le> y" using \<open>y = q * s\<close> by (simp add: up_def)
qed

lemma pad_up:
  assumes "x + 2 ^ k < 2 ^ 64" "k < 64"
  shows "pad x (2 ^ k) = up x (2 ^ k)"
proof (cases "x = 0")
  case True
  obtain j where j: "(2 :: nat) ^ 64 = 2 ^ k * 2 ^ j" using assms(2) by (metis le_add_diff_inverse less_imp_le power_add)
  have "(2 ^ 64 - 1) div (2 :: nat) ^ k = 2 ^ j - 1"
  proof (rule div_nat_eqI)
    show "2 ^ k * (2 ^ j - 1) \<le> (2 :: nat) ^ 64 - 1" unfolding j by (auto simp: diff_mult_distrib2 Suc_le_eq intro!: diff_le_mono2)
    show "(2 :: nat) ^ 64 - 1 < 2 ^ k * Suc (2 ^ j - 1)" unfolding j by simp
  qed
  then have "u64_add x (2 ^ 64 - 1) div 2 ^ k * 2 ^ k + 2 ^ k = 2 ^ 64"
    unfolding j True u64_add_def by (simp add: diff_mult_distrib)
  then show ?thesis using True by (simp add: pad_def u64_add_def up_def)
next
  case False
  let ?s = "2 ^ k :: nat"
  have "u64_add x (2 ^ 64 - 1) = x - 1" using assms(1) False by (simp add: u64_add_def mod_if)
  moreover have "(x - 1) div ?s * ?s + ?s = up x ?s"
  proof -
    have "x + ?s - 1 = (x - 1) + ?s" using False by simp
    then show ?thesis by (simp add: up_def div_add_self2 distrib_right del: One_nat_def)
  qed
  moreover have "up x ?s < 2 ^ 64" using up_bounds(3) [of ?s x] assms(1) by simp
  ultimately show ?thesis by (simp add: pad_def u64_add_def)
qed

section \<open>Searching a range\<close>

text \<open>The search in numbers: \<open>lo\<close> and \<open>hi\<close> bound the pages of the range that may be used.\<close>

definition lo_page :: "id_range \<Rightarrow> range \<Rightarrow> nat" where
  "lo_page r sub = max (unat (n_start r)) (unat (r_start sub))"

definition hi_page :: "id_range \<Rightarrow> range \<Rightarrow> nat" where
  "hi_page r sub = min (unat (n_end r)) (unat (r_end sub))"

abbreviation stride :: "u64 \<Rightarrow> nat" where
  "stride pages \<equiv> 2 ^ find_order (unat pages)"

lemma unat_max: "unat (max a b) = max (unat a) (unat b)" for a b :: "'a::len word"
  by (simp add: max_def word_le_nat_alt)

lemma unat_min: "unat (min a b) = min (unat a) (unat b)" for a b :: "'a::len word"
  by (simp add: min_def word_le_nat_alt)

lemma unat_exp_less: "k < 64 \<Longrightarrow> unat (2 ^ k :: u64) = 2 ^ k"
proof -
  assume "k < 64"
  then have "(2 :: nat) ^ k < 2 ^ 64" by (intro power_strict_increasing) auto
  moreover have "(2 ^ k :: u64) = of_nat (2 ^ k)" by simp
  ultimately show ?thesis by (simp only: unat_of_nat) simp
qed

lemma stride_small:
  assumes "0 < unat pages" "unat pages \<le> 512"
  shows "find_order (unat pages) < NEXT_BIT_COUNT" "stride pages \<le> 512" "unat pages \<le> stride pages"
proof -
  have "stride pages < 2 ^ 10" using find_order_bounds(2) [OF assms(1)] assms(2) by simp
  then have "find_order (unat pages) < 10" by (rule power_less_imp_less_exp [rotated]) simp
  then show "find_order (unat pages) < NEXT_BIT_COUNT" by (simp add: NEXT_BIT_COUNT_def)
  from \<open>find_order (unat pages) < 10\<close> have "stride pages \<le> 2 ^ 9" by (intro power_increasing) auto
  then show "stride pages \<le> 512" by simp
  show "unat pages \<le> stride pages" using find_order_bounds(1) [OF assms(1)] .
qed

lemma search_range_spec:
  fixes sub :: range
  assumes wf: "ir_wf r" and n: "0 < unat pages" "unat pages \<le> 512"
  defines "lo \<equiv> lo_page r sub" and "hi \<equiv> hi_page r sub" and "B \<equiv> unat (ir_bitmap_start r)"
  defines "P \<equiv> up lo (stride pages)"
  shows "case search_range r pages sub of
      None \<Rightarrow> \<not> (lo < hi \<and> P + unat pages \<le> hi)
    | Some ri \<Rightarrow> lo < hi \<and> P + unat pages \<le> hi \<and> unat (r_start ri) = P - B \<and> unat (r_end ri) = hi - B"
proof -
  let ?ri = "range_intersection (rm_r r) sub"
  let ?s = "max (n_start r) (r_start sub)" and ?e = "min (n_end r) (r_end sub)"
  have lohi: "unat ?s = lo" "unat ?e = hi" by (simp_all add: lo_def hi_def lo_page_def hi_page_def unat_max unat_min)
  have st: "0 < stride pages" "stride pages \<le> 512" "find_order (unat pages) < 64"
    using stride_small [OF n] by (auto simp: NEXT_BIT_COUNT_def)
  have hi60: "hi < 2 ^ 60" using wf by (auto simp: hi_def hi_page_def ir_wf_def)
  show ?thesis
  proof (cases "lo < hi")
    case False
    then have "range_empty ?ri" using range_span_0_iff [of "rm_r r" sub] lohi
      by (simp add: range_empty_def word_le_nat_alt)
    with False show ?thesis by (simp add: search_range_def)
  next
    case True
    then have "\<not> ?e \<le> ?s" using lohi by (simp add: word_le_nat_alt)
    then have ri: "?ri = irange ?s ?e" "\<not> range_empty ?ri"
      using range_span_0_iff [of "rm_r r" sub] by (simp_all add: range_intersection_def range_empty_def)
    have P: "lo \<le> P" "P < lo + 512" using up_bounds(2,3) [OF st(1), of lo] st(2) by (auto simp: P_def)
    have P64: "P < 2 ^ 61" "lo + stride pages < 2 ^ 64" using P(2) True hi60 st(2) by auto
    have "pad_u64 ?s (push_bit (find_order (unat pages)) 1) = of_nat P"
      using pad_up [OF P64(2) st(3)] lohi(1) st(3) by (simp add: pad_u64_def unat_exp_less P_def)
    then have padP: "unat (pad_u64 ?s (push_bit (find_order (unat pages)) 1)) = P"
      using P64(1) by (simp add: unat_of_nat)
    have B: "B \<le> lo" using wf by (simp add: B_def ir_wf_def lo_def lo_page_def div_times_less_eq_dividend le_max_iff_disj)
    define r1 where "r1 = pad_u64 ?s (push_bit (find_order (unat pages)) 1) - ir_bitmap_start r"
    define r2 where "r2 = ?e - ir_bitmap_start r"
    have u: "unat r1 = P - B" "unat r2 = hi - B"
      using padP lohi(2) B P(1) True by (simp_all add: r1_def r2_def unat_sub word_le_nat_alt B_def [symmetric])
    have "(\<not> range_valid (irange r1 r2) \<or> range_span (irange r1 r2) < pages) \<longleftrightarrow> \<not> P + unat pages \<le> hi"
    proof (cases "P \<le> hi")
      case True
      then have le: "r1 \<le> r2" using u by (simp add: word_le_nat_alt)
      then have "unat (r2 - r1) = hi - P" using u B P(1) by (simp add: unat_sub)
      with le True show ?thesis by (auto simp: range_valid_def range_span_def word_less_nat_alt)
    next
      case False
      then have "\<not> r1 \<le> r2" using u B P(1) \<open>lo < hi\<close> by (simp add: word_le_nat_alt)
      with False show ?thesis by (simp add: range_valid_def)
    qed
    with True ri u show ?thesis by (simp add: search_range_def Let_def r1_def r2_def)
  qed
qed

lemma unat_and_not_mask:
  fixes x :: u64
  assumes "k < 64"
  shows "unat (x AND NOT (push_bit k 1 - 1)) = unat x div 2 ^ k * 2 ^ k"
proof -
  have m: "(push_bit k 1 - 1 :: u64) = mask k" by (simp add: mask_eq_exp_minus_1)
  have "x AND NOT (mask k) = push_bit k (drop_bit k x)" by (rule bit_word_eqI) (auto simp: bit_simps)
  moreover have "unat (drop_bit k x) = unat x div 2 ^ k" by (simp add: unat_drop_bit_eq drop_bit_nat_def)
  moreover have "unat x < 2 ^ 64" using unsigned_less [of x] by simp
  then have "unat x div 2 ^ k * 2 ^ k < 2 ^ 64"
    using div_times_less_eq_dividend [of "unat x" "2 ^ k"] by linarith
  ultimately show ?thesis
    unfolding m using unat_no_wrap [of "drop_bit k x" "2 ^ k"] assms
    by (simp add: push_bit_eq_mult unat_exp_less)
qed

lemma search_start_spec:
  fixes rnd :: u64
  assumes wf: "ir_wf r" and n: "0 < unat pages" "unat pages \<le> 512" and nr: "\<not> ih_randomize i"
    and ri: "unat (r_start ri) = P - B" "unat (r_end ri) = hi - B" "P + unat pages \<le> hi" "hi < 2 ^ 60"
    and P: "stride pages dvd P" "B \<le> P" "B = unat (ir_bitmap_start r)"
  defines "s \<equiv> unat (search_start rnd i r pages ri)"
  shows "P - B \<le> s" "s \<le> hi - B" "stride pages dvd s - (P - B)"
proof -
  let ?k = "find_order (unat pages)" and ?st = "stride pages"
  let ?nb = "get_next_bit r ?k"
  have k: "?k < NEXT_BIT_COUNT" "?k < 64" using stride_small [OF n] by (auto simp: NEXT_BIT_COUNT_def)
  have le: "r_start ri \<le> r_end ri" using ri(1-3) P(2) by (simp add: word_le_nat_alt)
  define span where "span = range_span ri AND NOT (push_bit ?k 1 - 1)"
  have span: "unat span = (hi - P) div ?st * ?st"
    unfolding span_def unat_and_not_mask [OF k(2)] using le ri P(2) by (simp add: range_span_def unat_sub)
  define margin where "margin = (if span > push_bit ?k 1 then span - push_bit ?k 1 else 0)"
  have margin: "?st dvd unat margin" "unat margin \<le> hi - P"
  proof -
    have "unat (push_bit ?k 1 :: u64) = ?st" using k(2) by (simp add: unat_exp_less)
    then have "unat margin = (if unat span > ?st then unat span - ?st else 0)"
      unfolding margin_def by (simp add: word_less_nat_alt unat_sub word_le_nat_alt)
    moreover have "unat span \<le> hi - P" unfolding span by (rule div_times_less_eq_dividend)
    moreover have "?st dvd unat span" unfolding span by simp
    ultimately show "?st dvd unat margin" "unat margin \<le> hi - P" by (auto intro: dvd_diff_nat)
  qed
  have start: "unat (r_start ri + margin) = P - B + unat margin"
    using ri margin(2) by (subst unat_add_no_wrap) auto
  have nb: "?nb = 0 \<or> ?st dvd B + unat ?nb"
    using wf k(1) P(3) by (auto simp: ir_wf_def get_next_bit_def min_def NEXT_BIT_COUNT_def)
  have s: "s = (if point_in_range ri ?nb then min (unat ?nb) (P - B + unat margin) else P - B)"
    unfolding s_def search_start_def Let_def margin_def [symmetric] span_def [symmetric]
    using nr start ri(1) by (simp add: unat_min)
  have pt: "P - B \<le> unat ?nb" "unat ?nb < hi - B" if "point_in_range ri ?nb"
    using that ri(1,2) by (auto simp: point_in_range_def word_le_nat_alt word_less_nat_alt)
  have "?st dvd unat ?nb - (P - B)" if "point_in_range ri ?nb"
  proof -
    have "unat ?nb - (P - B) = (B + unat ?nb) - P" using pt(1) [OF that] P(2) by simp
    moreover have "P - B = 0" if "?nb = 0" using pt(1) \<open>point_in_range ri ?nb\<close> that by simp
    ultimately show ?thesis using nb P(1) by (cases "?nb = 0") (simp, metis dvd_diff_nat)
  qed
  with s pt margin ri(3) P(2) show "P - B \<le> s" "s \<le> hi - B" "?st dvd s - (P - B)"
    by (auto simp: min_def)
qed

section \<open>Allocation from a range\<close>

text \<open>What an allocation from one range does to it: the pages \<open>P\<close> and following are taken, aligned to the
  order of their number, or there is no such run.\<close>

definition granted :: "id_range \<Rightarrow> u64 \<Rightarrow> range \<Rightarrow> nat \<Rightarrow> bool" where
  "granted r pages sub P \<longleftrightarrow>
     stride pages dvd P \<and> {P..<P + unat pages} \<subseteq> ir_pages r \<and>
     {P..<P + unat pages} \<subseteq> {unat (r_start sub)..<unat (r_end sub)} \<and> {P..<P + unat pages} \<inter> ir_taken r = {}"

lemma ir_taken_update:
  assumes wf: "ir_wf r" and b: "bm_bits b = bm_bits (ir_b r) \<union> {k..<k + n}" "fits (ir_b r) n k" and n: "0 < n"
    and r': "ir_b r' = b" "ir_bitmap_start r' = ir_bitmap_start r" "rm_r r' = rm_r r"
  shows "unat (n_start r) mod 64 \<le> k"
    and "ir_taken r' = ir_taken r \<union> {unat (ir_bitmap_start r) + k..<unat (ir_bitmap_start r) + k + n}"
    and "ir_taken r \<inter> {unat (ir_bitmap_start r) + k..<unat (ir_bitmap_start r) + k + n} = {}"
proof -
  let ?m = "unat (n_start r) mod 64" and ?B = "unat (ir_bitmap_start r)"
  have sub: "{..<?m} \<subseteq> bm_bits (ir_b r)" using wf by (simp add: ir_wf_def)
  have "k \<in> {k..<k + n}" using n by simp
  then have "k \<notin> bm_bits (ir_b r)" using b(2) unfolding fits_def by blast
  then have mk: "?m \<le> k" using sub by (meson lessThan_iff not_less subsetD)
  then show "?m \<le> k" .
  have "bm_bits b - {..<?m} = (bm_bits (ir_b r) - {..<?m}) \<union> {k..<k + n}" using b(1) mk by auto
  moreover have "(\<lambda>j. ?B + j) ` {k..<k + n} = {?B + k..<?B + k + n}" 
    using image_add_atLeastLessThan [of ?B k "k + n"] by (simp add: ac_simps)
  ultimately show "ir_taken r' = ir_taken r \<union> {?B + k..<?B + k + n}" by (simp add: ir_taken_def r' image_Un)
  show "ir_taken r \<inter> {?B + k..<?B + k + n} = {}" using b(2) by (auto simp: ir_taken_def fits_def)
qed

definition alloc_from_range_bits :: "u64 \<Rightarrow> id_heap \<Rightarrow> id_range \<Rightarrow> u64 \<Rightarrow> range \<Rightarrow> (bitmap \<times> nat option) option" where
  "alloc_from_range_bits rnd i r pages ri =
     wrap_search (ir_b r) (unat pages) (unat (r_start ri)) (unat (search_start rnd i r pages ri)) (unat (r_end ri))"

lemma id_alloc_from_range_alt:
  "id_alloc_from_range rnd i r pages sub =
     (case search_range r pages sub of
        None \<Rightarrow> Some (i, INVALID_PHYSICAL)
      | Some ri \<Rightarrow> alloc_from_range_bits rnd i r pages ri \<bind> (\<lambda>(b, found).
          case found of
            None \<Rightarrow> Some (write_range i r (r\<lparr>ir_b := b\<rparr>), INVALID_PHYSICAL)
          | Some k \<Rightarrow>
              Some ((write_range i r (set_next_bit (r\<lparr>ir_b := b\<rparr>) (find_order (unat pages)) (of_nat k + push_bit (find_order (unat pages)) 1)))
                      \<lparr>ih_allocated := ih_allocated i + push_bit (ih_page_order i) pages\<rparr>,
                    push_bit (ih_page_order i) (ir_bitmap_start r + of_nat k))))"
  by (auto simp: id_alloc_from_range_def alloc_from_range_bits_def wrap_search_def Let_def word_less_nat_alt
      bind_assoc split: option.splits intro!: bind_option_cong)

lemma granted_bounds:
  assumes "granted r pages sub Q" "0 < unat pages"
  shows "lo_page r sub \<le> Q" "Q + unat pages \<le> hi_page r sub" "up (lo_page r sub) (stride pages) \<le> Q"
proof -
  have "{Q..<Q + unat pages} \<noteq> {}" using assms(2) by simp
  then have "unat (n_start r) \<le> Q" "unat (r_start sub) \<le> Q" "Q + unat pages \<le> unat (n_end r)" "Q + unat pages \<le> unat (r_end sub)"
    using assms by (auto simp: granted_def ir_pages_def)
  then show "lo_page r sub \<le> Q" "Q + unat pages \<le> hi_page r sub" by (auto simp: lo_page_def hi_page_def)
  then show "up (lo_page r sub) (stride pages) \<le> Q"
    using assms(1) up_bounds(4) [of "stride pages" Q "lo_page r sub"] by (simp add: granted_def)
qed

lemma alloc_bits_spec:
  assumes wf: "ir_wf r" and n: "0 < unat pages" "unat pages \<le> 512" and nr: "\<not> ih_randomize i"
    and ri: "search_range r pages sub = Some ri"
  shows "ensures (alloc_from_range_bits rnd i r pages ri) (\<lambda>(b, f). bm_same (ir_b r) b \<and>
     (case f of
        None \<Rightarrow> bm_bits b = bm_bits (ir_b r) \<and> (\<nexists>P. granted r pages sub P)
      | Some k \<Rightarrow> granted r pages sub (unat (ir_bitmap_start r) + k) \<and> fits (ir_b r) (unat pages) k \<and>
          bm_bits b = bm_bits (ir_b r) \<union> {k..<k + unat pages}))"
proof -
  let ?n = "unat pages" and ?st = "stride pages"
  define lo hi B where "lo = lo_page r sub" and "hi = hi_page r sub" and "B = unat (ir_bitmap_start r)"
  define P where "P = up lo ?st"
  have sr: "lo < hi" "P + ?n \<le> hi" "unat (r_start ri) = P - B" "unat (r_end ri) = hi - B"
    using search_range_spec [OF wf n, of sub] ri by (simp_all add: lo_def hi_def B_def P_def)
  have up: "?st dvd P" "lo \<le> P" using up_bounds(1,2) [of ?st lo] by (simp_all add: P_def)
  have BP: "B \<le> P"
    using up(2) wf by (simp add: B_def ir_wf_def lo_def lo_page_def) (metis div_times_less_eq_dividend le_trans)
  have hi: "hi < 2 ^ 60" "hi \<le> unat (n_end r)" "hi \<le> unat (r_end sub)"
    using wf by (auto simp: hi_def hi_page_def ir_wf_def)
  define s where "s = unat (search_start rnd i r pages ri)"
  have s: "P - B \<le> s" "s \<le> hi - B" "?st dvd s - (P - B)"
    using search_start_spec [OF wf n nr sr(3,4,2) hi(1) up(1) BP B_def, of rnd] by (simp_all add: s_def)
  have al: "64 \<le> ?st \<or> ?st dvd P - B"
  proof (cases "64 \<le> ?st")
    case False
    then have "(2 :: nat) ^ find_order ?n < 2 ^ 6" by simp
    then have "find_order ?n < 6" by (rule power_less_imp_less_exp [rotated]) simp
    then have "?st dvd 2 ^ 6" by (intro le_imp_power_dvd) simp
    then have "?st dvd B" using wf by (simp add: B_def ir_wf_def) 
    then show ?thesis using up(1) by (simp add: dvd_diff_nat)
  qed simp
  have e: "hi - B \<le> bm_maxbits (ir_b r)" "hi - B < 2 ^ 61" "?n < 2 ^ 61" using wf hi n(2) by (auto simp: ir_wf_def B_def)
  have wfb: "bitmap_wf (ir_b r)" "heap_grants (bm_heap (ir_b r))" using wf by (auto simp: ir_wf_def)
  obtain b f where b: "alloc_from_range_bits rnd i r pages ri = Some (b, f)" "found_in (ir_b r) ?n (P - B) (hi - B) b f"
    using wrap_search_spec [OF wfb n(1) e(3) s e(1,2) al] sr(3,4)
    by (auto simp: alloc_from_range_bits_def s_def elim!: ensuresE)
  have loS: "unat (n_start r) \<le> lo" "unat (r_start sub) \<le> lo" by (simp_all add: lo_def lo_page_def)
  show ?thesis
  proof (cases f)
    case (Some k)
    then obtain m where k: "k = P - B + m * ?st" "k + ?n \<le> hi - B" "fits (ir_b r) ?n k" "bm_bits b = bm_bits (ir_b r) \<union> {k..<k + ?n}"
      using b(2) by (auto simp: found_in_def)
    have Bk: "B + k = P + m * ?st" "B + k + ?n \<le> hi" using k(1,2) BP sr(2) by auto
    have "?st dvd B + k" using up(1) Bk(1) by simp
    moreover have "ir_taken r \<inter> {B + k..<B + k + ?n} = {}"
      using ir_taken_update(3) [OF wf k(4,3) n(1), of "r\<lparr>ir_b := b\<rparr>"] by (simp add: B_def)
    moreover have "unat (n_start r) \<le> B + k" "unat (r_start sub) \<le> B + k" using loS up(2) Bk(1) by linarith+
    moreover have "B + k + ?n \<le> unat (n_end r)" "B + k + ?n \<le> unat (r_end sub)" using hi Bk(2) by linarith+
    ultimately have "granted r pages sub (B + k)" by (auto simp: granted_def ir_pages_def)
    with Some k(3,4) b show ?thesis by (auto simp: found_in_def B_def)
  next
    case None
    have "\<not> granted r pages sub Q" for Q
    proof
      assume g: "granted r pages sub Q"
      have Q: "lo \<le> Q" "Q + ?n \<le> hi" "P \<le> Q"
        using granted_bounds [OF g n(1)] by (simp_all add: lo_def hi_def P_def)
      have "?st dvd Q - P" using up(1) g by (simp add: granted_def dvd_diff_nat)
      then obtain m where m: "Q = P + m * ?st" using Q(3) by (metis dvdE le_add_diff_inverse mult.commute)
      then have QB: "Q - B = P - B + m * ?st" "Q - B + ?n \<le> hi - B" using Q(2) BP by simp_all
      have "\<forall>m. P - B + m * ?st + ?n \<le> hi - B \<longrightarrow> \<not> fits (ir_b r) ?n (P - B + m * ?st)"
        using b(2) None by (simp add: found_in_def)
      then have "\<not> fits (ir_b r) ?n (Q - B)" using QB by simp
      then obtain x where x: "x \<in> bm_bits (ir_b r)" "Q - B \<le> x" "x < Q - B + ?n" by (auto simp: fits_def)
      have "B = unat (n_start r) div 64 * 64" using wf by (simp add: B_def ir_wf_def)
      then have "unat (n_start r) mod 64 \<le> x"
        using x(2) Q(1) loS(1) div_mult_mod_eq [of "unat (n_start r)" 64] by linarith
      then have "B + x \<in> ir_taken r" using x(1) by (auto simp: ir_taken_def B_def)
      moreover have "B + x \<in> {Q..<Q + ?n}" using x(2,3) m BP by auto
      ultimately show False using g by (auto simp: granted_def)
    qed
    with None b show ?thesis by (auto simp: found_in_def)
  qed
qed

lemma write_range_nodes:
  assumes "rm_inv (ih_ranges i)" "rm_nodes (ih_ranges i) = pre @ r # post" "rm_r r' = rm_r r"
  shows "rm_inv (ih_ranges (write_range i r r'))" "rm_nodes (ih_ranges (write_range i r r')) = pre @ r' # post"
proof -
  have ds: "disjoint_sorted (pre @ r # post)" "rmt.rb_inv (rm_t (ih_ranges i))" using assms(1,2) by (auto simp: rm_inv_def)
  have "\<forall>x \<in> set pre. n_start x < n_start r'" "\<forall>x \<in> set post. n_start r' < n_start x"
    using disjoint_sorted_starts [OF ds(1)] assms(3) by auto
  then have w: "rmt.rb_inv (rm_t (rangemap_write (ih_ranges i) r r'))" "rm_nodes (rangemap_write (ih_ranges i) r r') = pre @ r' # post"
    using rangemap_write_split [OF ds(2) assms(2), of r'] by auto
  moreover have "disjoint_sorted (pre @ r' # post)"
    using ds(1) assms(3) by (auto simp: disjoint_sorted_def sorted_wrt_append)
  ultimately show "rm_inv (ih_ranges (write_range i r r'))" "rm_nodes (ih_ranges (write_range i r r')) = pre @ r' # post"
    by (auto simp: write_range_def rm_inv_def)
qed

lemma write_range_keeps [simp]:
  "ih_page_order (write_range i r r') = ih_page_order i" "ih_pagesize (write_range i r r') = ih_pagesize i"
  "ih_allocated (write_range i r r') = ih_allocated i" "ih_total (write_range i r r') = ih_total i"
  "ih_randomize (write_range i r r') = ih_randomize i" "ih_parent (write_range i r r') = ih_parent i"
  by (simp_all add: write_range_def)

text \<open>Replacing a range by one with the same pages.\<close>

lemma id_inv_write:
  assumes inv: "id_inv i" and split: "rm_nodes (ih_ranges i) = pre @ r # post" and r': "rm_r r' = rm_r r" "ir_wf r'"
  shows "id_inv (write_range i r r')" "id_extents (write_range i r r') = id_extents i"
    and "ir_taken r' = ir_taken r \<union> X \<Longrightarrow> id_taken (write_range i r r') = id_taken i \<union> X"
proof -
  have "rm_inv (ih_ranges i)" using inv by (simp add: id_inv_def)
  note w = write_range_nodes [OF this split r'(1)]
  show "id_inv (write_range i r r')" using inv w r' split by (auto simp: id_inv_def)
  show "id_extents (write_range i r r') = id_extents i" using w(2) split r'(1) by (simp add: id_extents_def)
  show "ir_taken r' = ir_taken r \<union> X \<Longrightarrow> id_taken (write_range i r r') = id_taken i \<union> X"
    using w(2) split by (auto simp: id_taken_def)
qed

lemma id_inv_allocated [simp]:
  "id_inv (i\<lparr>ih_allocated := a\<rparr>) = id_inv i" "id_taken (i\<lparr>ih_allocated := a\<rparr>) = id_taken i"
  "id_pages (i\<lparr>ih_allocated := a\<rparr>) = id_pages i" "id_extents (i\<lparr>ih_allocated := a\<rparr>) = id_extents i"
  by (simp_all add: id_inv_def id_taken_def id_pages_def id_extents_def)

lemma id_pages_extents: "id_pages i = (\<Union>e \<in> set (id_extents i). extent_pages e)"
  by (simp add: id_pages_def id_extents_def ir_pages_def extent_pages_def)

text \<open>The pages of different ranges are different.\<close>

lemma ranges_disjoint:
  assumes inv: "id_inv i" and split: "rm_nodes (ih_ranges i) = pre @ r # post" and X: "X \<subseteq> ir_pages r" "X \<inter> ir_taken r = {}"
  shows "X \<inter> id_taken i = {}"
proof -
  have ds: "disjoint_sorted (pre @ r # post)" using inv split by (auto simp: id_inv_def rm_inv_def)
  have "ir_pages x \<inter> ir_pages r = {}" if "x \<in> set pre \<union> set post" for x
    using ds that by (auto simp: disjoint_sorted_def sorted_wrt_append ir_pages_def word_le_nat_alt dest!: bspec)
  moreover have "ir_taken x \<subseteq> ir_pages x" if "x \<in> set pre \<union> set post" for x
    using inv split that by (auto simp: id_inv_def intro!: ir_taken_pages)
  ultimately show ?thesis using X split by (auto simp: id_taken_def) (blast+)
qed

lemma bm_same_grants: "bm_same b b' \<Longrightarrow> heap_grants (bm_heap b) \<Longrightarrow> heap_grants (bm_heap b')"
  by (simp add: bm_same_heap)

lemma ir_wf_bits:
  assumes "ir_wf r" "bm_same (ir_b r) b" "bm_bits b = bm_bits (ir_b r) \<union> X" "X \<subseteq> {..<bm_maxbits (ir_b r)}"
  shows "ir_wf (r\<lparr>ir_b := b\<rparr>)"
  using assms bm_same_grants [OF assms(2)] unfolding ir_wf_def by (auto simp: bm_same_def)

lemma ir_wf_next:
  assumes "ir_wf r" "order < NEXT_BIT_COUNT \<Longrightarrow> 2 ^ order dvd unat (ir_bitmap_start r) + unat nb"
  shows "ir_wf (set_next_bit r order nb)"
  using assms by (auto simp: ir_wf_def set_next_bit_def nth_list_update)

lemma set_next_bit_keeps [simp]:
  "rm_r (set_next_bit r order nb) = rm_r r" "ir_b (set_next_bit r order nb) = ir_b r"
  "ir_bitmap_start (set_next_bit r order nb) = ir_bitmap_start r" "ir_taken (set_next_bit r order nb) = ir_taken r"
  by (simp_all add: set_next_bit_def ir_taken_def)

lemma page_address:
  assumes "unat e * 2 ^ po < 2 ^ 64" "P < unat e" "unat x = P"
  shows "unat (push_bit po x :: u64) = P * 2 ^ po" "push_bit po x \<noteq> INVALID_PHYSICAL"
proof -
  have "2 ^ po \<le> unat e * 2 ^ po" using assms(2) by simp
  then have "(2 :: nat) ^ po < 2 ^ 64" using assms(1) by linarith
  then have po: "po < 64" by (rule power_less_imp_less_exp [rotated]) simp
  have "(P + 1) * 2 ^ po \<le> unat e * 2 ^ po" using assms(2) by (intro mult_right_mono) auto
  then have lt: "P * 2 ^ po + 2 ^ po < 2 ^ 64" using assms(1) by simp
  then have "unat x * unat (2 ^ po :: u64) < 2 ^ 64" using po assms(3) by (simp add: unat_exp_less)
  then show u: "unat (push_bit po x) = P * 2 ^ po"
    using unat_no_wrap [of x "2 ^ po"] po assms(3) by (simp add: push_bit_eq_mult unat_exp_less)
  have "1 \<le> (2 :: nat) ^ po" by simp
  then have "P * 2 ^ po < 2 ^ 64 - 1" using lt by linarith
  then show "push_bit po x \<noteq> INVALID_PHYSICAL"
    using u by (auto simp: INVALID_PHYSICAL_def unsigned_minus_1_eq_mask mask_eq_exp_minus_1)
qed

definition same_heap :: "id_heap \<Rightarrow> id_heap \<Rightarrow> bool" where
  "same_heap i i' \<longleftrightarrow> ih_page_order i' = ih_page_order i \<and> ih_pagesize i' = ih_pagesize i \<and> ih_total i' = ih_total i \<and>
     ih_randomize i' = ih_randomize i \<and> ih_parent i' = ih_parent i \<and> id_extents i' = id_extents i"

text \<open>The heap before and after a successful allocation of the pages \<open>P\<close> and following.\<close>

definition id_grant :: "id_heap \<Rightarrow> id_heap \<Rightarrow> u64 \<Rightarrow> range \<Rightarrow> nat \<Rightarrow> u64 \<Rightarrow> bool" where
  "id_grant i i' pages sub P a \<longleftrightarrow>
     unat a = P * 2 ^ ih_page_order i \<and> stride pages dvd P \<and>
     (\<exists>e \<in> set (id_extents i). {P..<P + unat pages} \<subseteq> extent_pages e) \<and> {P..<P + unat pages} \<subseteq> extent_pages sub \<and>
     {P..<P + unat pages} \<inter> id_taken i = {} \<and> id_taken i' = id_taken i \<union> {P..<P + unat pages} \<and>
     ih_allocated i' = ih_allocated i + push_bit (ih_page_order i) pages"

lemma id_alloc_from_range_spec:
  assumes inv: "id_inv i" and split: "rm_nodes (ih_ranges i) = pre @ r # post"
    and n: "0 < unat pages" "unat pages \<le> 512" and nr: "\<not> ih_randomize i"
  shows "ensures (id_alloc_from_range rnd i r pages sub) (\<lambda>(i', a). id_inv i' \<and> same_heap i i' \<and>
     (if a = INVALID_PHYSICAL
      then id_taken i' = id_taken i \<and> ih_allocated i' = ih_allocated i \<and> (\<nexists>P. granted r pages sub P) \<and>
        (\<exists>r'. rm_nodes (ih_ranges i') = pre @ r' # post \<and> rm_r r' = rm_r r)
      else \<exists>P. id_grant i i' pages sub P a))"
proof -
  have r: "r \<in> set (rm_nodes (ih_ranges i))" using split by simp
  then have wf: "ir_wf r" and E: "unat (n_end r) * 2 ^ ih_page_order i < 2 ^ 64" using inv by (auto simp: id_inv_def)
  have rmi: "rm_inv (ih_ranges i)" using inv by (simp add: id_inv_def)
  show ?thesis
  proof (cases "search_range r pages sub")
    case None
    have "\<not> granted r pages sub P" for P
      using granted_bounds [of r pages sub P] search_range_spec [OF wf n, of sub] None n(1) by auto
    with None inv split show ?thesis by (simp add: id_alloc_from_range_alt same_heap_def)
  next
    case (Some ri)
    obtain b f where b: "alloc_from_range_bits rnd i r pages ri = Some (b, f)" "bm_same (ir_b r) b"
      and f: "case f of
        None \<Rightarrow> bm_bits b = bm_bits (ir_b r) \<and> (\<nexists>P. granted r pages sub P)
      | Some k \<Rightarrow> granted r pages sub (unat (ir_bitmap_start r) + k) \<and> fits (ir_b r) (unat pages) k \<and>
          bm_bits b = bm_bits (ir_b r) \<union> {k..<k + unat pages}"
      using alloc_bits_spec [OF wf n nr Some, of rnd] unfolding ensures_def split_paired_Ex prod.case by blast
    show ?thesis
    proof (cases f)
      case fn: None
      let ?r = "r\<lparr>ir_b := b\<rparr>"
      have wf': "ir_wf ?r" using ir_wf_bits [OF wf b(2), of "{}"] f fn by simp
      have t: "ir_taken ?r = ir_taken r \<union> {}" using f fn by (simp add: ir_taken_def)
      note w = id_inv_write [OF inv split _ wf', simplified]
      have "rm_nodes (ih_ranges (write_range i r ?r)) = pre @ ?r # post" by (rule write_range_nodes [OF rmi split]) simp
      with Some b(1) fn f w(1,2) w(3) [of "{}"] t show ?thesis
        by (auto simp: id_alloc_from_range_alt same_heap_def)
    next
      case fs: (Some k)
      let ?k = "find_order (unat pages)" and ?B = "unat (ir_bitmap_start r)"
      let ?nb = "of_nat k + push_bit ?k 1 :: u64"
      let ?r = "set_next_bit (r\<lparr>ir_b := b\<rparr>) ?k ?nb"
      have g: "granted r pages sub (?B + k)" "fits (ir_b r) (unat pages) k" "bm_bits b = bm_bits (ir_b r) \<union> {k..<k + unat pages}"
        using f fs by auto
      have top: "?B + k + unat pages \<le> unat (n_end r)" and "unat (n_end r) < 2 ^ 60"
        using granted_bounds(2) [OF g(1) n(1)] wf by (auto simp: hi_page_def ir_wf_def)
      then have k: "k < 2 ^ 60" "{k..<k + unat pages} \<subseteq> {..<bm_maxbits (ir_b r)}" using wf by (auto simp: ir_wf_def)
      have st: "?k < 64" "stride pages \<le> 512" using stride_small [OF n] by (auto simp: NEXT_BIT_COUNT_def)
      have "unat (of_nat k :: u64) = k" using k(1) by (simp add: unat_of_nat)
      then have nb: "unat ?nb = k + stride pages" "unat (ir_bitmap_start r + of_nat k) = ?B + k"
        using k(1) st top \<open>unat (n_end r) < 2 ^ 60\<close> by (auto simp: unat_add_no_wrap unat_exp_less)
      have "stride pages dvd ?B + unat ?nb" using g(1) nb(1) by (simp add: granted_def flip: add.assoc)
      then have wf': "ir_wf ?r" using ir_wf_bits [OF wf b(2) g(3) k(2)] by (intro ir_wf_next) auto
      have t: "ir_taken ?r = ir_taken r \<union> {?B + k..<?B + k + unat pages}"
        using ir_taken_update(2) [OF wf g(3,2) n(1), of ?r] by simp
      have rr: "rm_r ?r = rm_r r" by simp
      note w = id_inv_write [OF inv split rr wf']
      have a: "unat (push_bit (ih_page_order i) (ir_bitmap_start r + of_nat k)) = (?B + k) * 2 ^ ih_page_order i"
          "push_bit (ih_page_order i) (ir_bitmap_start r + of_nat k) \<noteq> INVALID_PHYSICAL"
        using page_address [OF E _ nb(2)] top n(1) by auto
      have sub: "{?B + k..<?B + k + unat pages} \<subseteq> ir_pages r" "{?B + k..<?B + k + unat pages} \<inter> ir_taken r = {}"
        using g(1) by (auto simp: granted_def)
      have "{?B + k..<?B + k + unat pages} \<inter> id_taken i = {}" by (rule ranges_disjoint [OF inv split sub])
      moreover have "\<exists>e \<in> set (id_extents i). {?B + k..<?B + k + unat pages} \<subseteq> extent_pages e"
        using sub(1) r by (auto simp: id_extents_def ir_pages_def extent_pages_def)
      ultimately have "id_grant i ((write_range i r ?r)\<lparr>ih_allocated := ih_allocated i + push_bit (ih_page_order i) pages\<rparr>)
          pages sub (?B + k) (push_bit (ih_page_order i) (ir_bitmap_start r + of_nat k))"
        using a(1) g(1) w(3) [OF t] by (simp add: id_grant_def granted_def extent_pages_def)
      with Some b(1) fs a(2) w(1,2) show ?thesis
        by (auto simp: id_alloc_from_range_alt same_heap_def)
    qed
  qed
qed

section \<open>Allocation\<close>

lemma next_node_key:
  assumes "rm_inv rm" "rm_nodes rm = pre @ n' # post" "rm_r n = rm_r n'"
  shows "rangemap_next_node rm n = hd_opt post"
proof -
  have o: "rmt.ordered (rb_root (rm_t rm))" using assms(1) by (rule rm_inv_ordered)
  have "n_start n \<in> n_start ` set (rm_nodes rm)" "n_start n' \<in> n_start ` set (rm_nodes rm)" using assms(2,3) by auto
  then have "rangemap_next_node rm n = rangemap_next_node rm n'"
    unfolding rangemap_next_node_def using rmt.rbnode_get_next_spec [OF o] assms(3) by simp
  then show ?thesis using rangemap_next_node_split [OF assms(1,2)] by simp
qed

lemma same_heap_trans: "same_heap i j \<Longrightarrow> same_heap j k \<Longrightarrow> same_heap i k"
  by (simp add: same_heap_def)

lemma id_grant_trans:
  "same_heap i j \<Longrightarrow> id_taken j = id_taken i \<Longrightarrow> ih_allocated j = ih_allocated i \<Longrightarrow>
   id_grant j k pages sub P a \<Longrightarrow> id_grant i k pages sub P a"
  by (simp add: id_grant_def same_heap_def)

definition alloc_outcome :: "id_heap \<Rightarrow> id_range list \<Rightarrow> u64 \<Rightarrow> range \<Rightarrow> id_heap \<Rightarrow> u64 \<Rightarrow> bool" where
  "alloc_outcome i rs pages sub i' a \<longleftrightarrow> id_inv i' \<and> same_heap i i' \<and>
     (if a = INVALID_PHYSICAL
      then id_taken i' = id_taken i \<and> ih_allocated i' = ih_allocated i \<and> (\<forall>r \<in> set rs. \<nexists>P. granted r pages sub P)
      else \<exists>P. id_grant i i' pages sub P a)"

lemma alloc_from_ranges_spec:
  assumes "id_inv i" "rm_nodes (ih_ranges i) = pre @ rs" "0 < unat pages" "unat pages \<le> 512" "\<not> ih_randomize i"
  shows "ensures (alloc_from_ranges rnd pages sub i (hd_opt rs)) (\<lambda>(i', a). alloc_outcome i rs pages sub i' a)"
  using assms
proof (induction rs arbitrary: i pre)
  case Nil
  then show ?case by (subst alloc_from_ranges.simps) (simp add: hd_opt_def alloc_outcome_def same_heap_def)
next
  case (Cons r rs)
  obtain i1 a where s: "id_alloc_from_range rnd i r pages sub = Some (i1, a)" "id_inv i1" "same_heap i i1"
    and res: "if a = INVALID_PHYSICAL
      then id_taken i1 = id_taken i \<and> ih_allocated i1 = ih_allocated i \<and> (\<nexists>P. granted r pages sub P) \<and>
        (\<exists>r'. rm_nodes (ih_ranges i1) = pre @ r' # rs \<and> rm_r r' = rm_r r)
      else \<exists>P. id_grant i i1 pages sub P a"
    using id_alloc_from_range_spec [OF Cons.prems, of rnd sub] unfolding ensures_def split_paired_Ex prod.case by blast
  show ?case
  proof (cases "a = INVALID_PHYSICAL")
    case False
    with s res show ?thesis
      by (subst alloc_from_ranges.simps) (simp add: hd_opt_def alloc_outcome_def)
  next
    case True
    with res obtain r' where r': "rm_nodes (ih_ranges i1) = pre @ r' # rs" "rm_r r' = rm_r r"
      and same: "id_taken i1 = id_taken i" "ih_allocated i1 = ih_allocated i" "\<nexists>P. granted r pages sub P" by auto
    have rmi: "rm_inv (ih_ranges i1)" using s(2) by (simp add: id_inv_def)
    have nx: "rangemap_next_node (ih_ranges i1) r = hd_opt rs" using next_node_key [OF rmi r'(1)] r'(2) by simp
    have "rm_nodes (ih_ranges i1) = (pre @ [r']) @ rs" "\<not> ih_randomize i1" using r'(1) s(3) Cons.prems(5) by (auto simp: same_heap_def)
    from Cons.IH [OF s(2) this(1) Cons.prems(3,4) this(2)]
    obtain i2 b where i2: "alloc_from_ranges rnd pages sub i1 (hd_opt rs) = Some (i2, b)" "alloc_outcome i1 rs pages sub i2 b"
      by (auto elim!: ensuresE)
    have "alloc_outcome i (r # rs) pages sub i2 b"
      using i2(2) s(3) same id_grant_trans [OF s(3) same(1,2)] same_heap_trans [OF s(3)]
      unfolding alloc_outcome_def by (auto split: if_splits) blast
    with True s(1) nx i2(1) show ?thesis by (subst alloc_from_ranges.simps) (simp add: hd_opt_def)
  qed
qed

text \<open>The number of pages of a request.\<close>

definition page_heap :: "id_heap \<Rightarrow> bool" where
  "page_heap i \<longleftrightarrow> ih_page_order i < 32 \<and> unat (ih_pagesize i) = 2 ^ ih_page_order i"

definition pages_of :: "id_heap \<Rightarrow> u64 \<Rightarrow> nat" where
  "pages_of i cnt = (unat cnt + 2 ^ ih_page_order i - 1) div 2 ^ ih_page_order i"

lemma int_cast_small:
  fixes v :: u64
  assumes "unat v < 2 ^ 31"
  shows "scast (ucast v :: 32 word) = v"
proof -
  have v: "uint v < 2 ^ 31" using assms unfolding unat_eq_nat_uint by (subst (asm) nat_less_iff) simp_all
  have "sint (ucast v :: 32 word) = sint (word_of_int (uint v) :: 32 word)" by (simp only: ucast_eq)
  also have "\<dots> = (uint v + 2 ^ 31) mod 2 ^ 32 - 2 ^ 31" by (subst int_word_sint) simp
  also have "\<dots> = uint v" using v by (subst mod_pos_pos_trivial) auto
  finally show ?thesis unfolding scast_eq by simp
qed

lemma pages_from_bytes_spec:
  assumes i: "page_heap i" and c: "0 < unat cnt" "unat cnt \<le> 512 * 2 ^ ih_page_order i"
  shows "unat (pages_from_bytes i cnt) = pages_of i cnt" "0 < pages_of i cnt" "pages_of i cnt \<le> 512"
proof -
  let ?po = "ih_page_order i"
  have po: "?po < 32" "unat (ih_pagesize i) = 2 ^ ?po" using i by (auto simp: page_heap_def)
  have p32: "(2 :: nat) ^ ?po < 2 ^ 32" using po(1) by (intro power_strict_increasing) auto
  have "unat cnt + 2 ^ ?po < 2 ^ 64" using c(2) p32 by simp
  from pad_up [OF this] po have pd: "pad (unat cnt) (unat (ih_pagesize i)) = pages_of i cnt * 2 ^ ?po"
    by (simp add: up_def pages_of_def)
  show pos: "0 < pages_of i cnt" using c(1) by (simp add: pages_of_def div_greater_zero_iff)
  have "unat cnt + 2 ^ ?po - 1 < 513 * 2 ^ ?po" using c(1) c(2) one_le_power [of "2 :: nat" ?po] by linarith
  then have "pages_of i cnt < 513" unfolding pages_of_def by (rule less_mult_imp_div_less)
  then show le: "pages_of i cnt \<le> 512" by simp
  have "pages_of i cnt * 2 ^ ?po \<le> 512 * 2 ^ ?po" using le by simp
  also have "\<dots> < 2 ^ 64" using p32 by simp
  finally have "unat (pad_u64 cnt (ih_pagesize i)) = pages_of i cnt * 2 ^ ?po"
    unfolding pad_u64_def pd by (subst unat_of_nat) simp
  then have "unat (drop_bit ?po (pad_u64 cnt (ih_pagesize i))) = pages_of i cnt"
    by (simp add: unat_drop_bit_eq drop_bit_nat_def)
  then show "unat (pages_from_bytes i cnt) = pages_of i cnt"
    unfolding pages_from_bytes_def using le by (subst int_cast_small) simp_all
qed

end
