(* ===== verification/Id_Heap_Ops.thy ===== *)
theory Id_Heap_Ops
  imports Id_Heap
begin

text \<open>
  The operations on heaps of ids as a whole (\<^verbatim>\<open>runtime/heap/id.c\<close>): adding a range, allocating, freeing, and
  what follows for sequences of them.
\<close>

section \<open>Adding a range\<close>

definition pages_between :: "id_heap \<Rightarrow> u64 \<Rightarrow> u64 \<Rightarrow> nat set" where
  "pages_between i base len = {unat base div 2 ^ ih_page_order i..<(unat base + unat len) div 2 ^ ih_page_order i}"

text \<open>A request to add whole pages that stay below the bound of the invariant.\<close>

definition range_request :: "id_heap \<Rightarrow> u64 \<Rightarrow> u64 \<Rightarrow> bool" where
  "range_request i base len \<longleftrightarrow>
     0 < unat len \<and> 2 ^ ih_page_order i dvd unat base \<and> 2 ^ ih_page_order i dvd unat len \<and>
     unat base + unat len < 2 ^ 60"

lemma page_mask_zero:
  assumes "page_heap i"
  shows "x AND page_mask i = 0 \<longleftrightarrow> 2 ^ ih_page_order i dvd unat x"
proof -
  have po: "ih_page_order i < 64" using assms by (simp add: page_heap_def)
  have "ih_pagesize i = 2 ^ ih_page_order i"
    using assms po unfolding word_unat_eq_iff by (simp add: page_heap_def unat_exp_less)
  then have "x AND page_mask i = take_bit (ih_page_order i) x"
    by (simp add: page_mask_def take_bit_eq_mask mask_eq_exp_minus_1)
  then have "unat (x AND page_mask i) = unat x mod 2 ^ ih_page_order i"
    by (simp add: unsigned_take_bit_eq take_bit_nat_def)
  then show ?thesis unfolding unat_eq_0 [symmetric] by (simp add: dvd_eq_mod_eq_0)
qed

lemma unat_drop_bit_div: "unat (drop_bit k x) = unat x div 2 ^ k" for x :: u64
  by (simp add: unat_drop_bit_eq drop_bit_nat_def)

lemma fresh_bitmap:
  assumes "heap_ok h" "heap_grants h" "0 < n" "m < 64" "n + m < 2 ^ 61"
  shows "\<exists>b b'. allocate_bitmap True h (n + m) = Some (Some b) \<and>
     (if m \<noteq> 0 then map_option fst (bitmap_range_check_and_set b 0 m False True) else Some b) = Some b' \<and>
     bitmap_wf b' \<and> bm_heap b' = h \<and> bm_maxbits b' = n + m \<and> bm_bits b' = {..<m}"
proof -
  obtain b where b: "allocate_bitmap True h (n + m) = Some (Some b)" "bitmap_wf b" "bm_bits b = {}" "bm_maxbits b = n + m" "bm_heap b = h"
    using allocate_bitmap_spec [OF assms(1,2), of "n + m"] assms(3,5) by auto
  show ?thesis
  proof (cases "m = 0")
    case False
    have "heap_grants (bm_heap b)" "0 < m" "0 + m + 4096 < 2 ^ 64" using b(5) assms(2,4) False by auto
    then obtain b' ok where b': "bitmap_range_check_and_set b 0 m False True = Some (b', ok)" "bm_same b b'"
        "ok = (0 + m \<le> bm_maxbits b \<and> (False \<longrightarrow> {0..<0 + m} \<inter> bm_bits b = {}))"
        "bm_bits b' = (if \<not> ok then bm_bits b else bm_bits b \<union> {0..<0 + m})"
      using bitmap_range_check_and_set_spec [OF b(2), of m 0 False True] by (auto elim!: ensuresE)
    have "bm_bits b' = {..<m}" using b'(3,4) b(3,4) by (auto simp: lessThan_atLeast0)
    with b b' False bm_same_heap [OF b'(2)] show ?thesis by (auto simp: bm_same_def)
  qed (use b in auto)
qed

lemma new_range_wf:
  fixes B :: u64
  assumes "unat s < unat e" "unat e < 2 ^ 60" "bitmap_wf b" "heap_grants (bm_heap b)"
    "bm_maxbits b = unat e - unat s + unat s mod 64" "bm_bits b = {..<unat s mod 64}"
    "rm_r r = irange s e" "ir_b r = b" "ir_bitmap_start r = s AND NOT (mask 6)" "ir_next_bit r = replicate NEXT_BIT_COUNT 0"
  shows "ir_wf r" "ir_taken r = {}" "ir_pages r = {unat s..<unat e}"
proof -
  have B: "unat (s AND NOT (mask 6)) = unat s div 64 * 64"
    using unat_and_not_mask [of 6 s] by (simp add: mask_eq_exp_minus_1)
  have "unat e - unat s + unat s mod 64 = unat e - unat s div 64 * 64"
    using assms(1) div_mult_mod_eq [of "unat s" 64] by linarith
  then have mx: "bm_maxbits b = unat e - unat s div 64 * 64" using assms(5) by simp
  have "{..<unat s mod 64} \<subseteq> {..<bm_maxbits b}" unfolding assms(5) by auto
  then show "ir_wf r" unfolding ir_wf_def assms(7-10) irange_simps B mx [symmetric] assms(6)
    using assms(1-4) by (simp add: word_less_nat_alt)
  show "ir_taken r = {}" "ir_pages r = {unat s..<unat e}" using assms by (auto simp: ir_taken_def ir_pages_def)
qed

lemma id_add_range_spec:
  assumes inv: "id_inv i" and pg: "page_heap i" and h: "heap_ok (ih_map i)" "heap_grants (ih_map i)" "ih_meta i"
    and req: "range_request i base len"
  shows "ensures (id_add_range i base len) (\<lambda>(i', ro).
     id_inv i' \<and> id_taken i' = id_taken i \<and>
     (case ro of
        None \<Rightarrow> i' = i \<and> pages_between i base len \<inter> id_pages i \<noteq> {}
      | Some r \<Rightarrow> pages_between i base len \<inter> id_pages i = {} \<and> id_pages i' = id_pages i \<union> pages_between i base len \<and>
          rm_r r = irangel (drop_bit (ih_page_order i) base) (drop_bit (ih_page_order i) len) \<and>
          set (id_extents i') = insert (rm_r r) (set (id_extents i)) \<and>
          (\<exists>pre post. rm_nodes (ih_ranges i') = pre @ r # post) \<and>
          i' = i\<lparr>ih_ranges := ih_ranges i', ih_total := ih_total i + len\<rparr>))"
proof -
  let ?po = "ih_page_order i"
  define s where "s = drop_bit ?po base"
  define n where "n = drop_bit ?po len"
  define e where "e = s + n"
  obtain q where q: "unat len = 2 ^ ?po * q" "0 < q" using req unfolding range_request_def by (auto elim!: dvdE)
  obtain p where p: "unat base = 2 ^ ?po * p" using req unfolding range_request_def by (auto elim!: dvdE)
  have s: "unat s = p" and n: "unat n = q" using p q(1) by (simp_all add: s_def n_def unat_drop_bit_div)
  have lt: "2 ^ ?po * (p + q) < 2 ^ 60" using req p q(1) by (simp add: range_request_def algebra_simps)
  have "p + q \<le> 2 ^ ?po * (p + q)" by simp
  then have pq: "p + q < 2 ^ 60" using lt by linarith
  have e: "unat e = p + q" unfolding e_def using s n pq by (subst unat_add_no_wrap) auto
  have btw: "pages_between i base len = {p..<p + q}"
    unfolding pages_between_def p q(1) by (simp add: distrib_left [symmetric])
  have inf: "len \<noteq> infinity"
    using req by (auto simp: range_request_def infinity_def unsigned_minus_1_eq_mask mask_eq_exp_minus_1)
  have al: "base AND page_mask i = 0" "len AND page_mask i = 0" "\<not> len < ih_pagesize i"
    using req q pg by (auto simp: page_mask_zero [OF pg] range_request_def word_less_nat_alt page_heap_def)
  have m: "unat (s AND mask 6) = p mod 64"
    using s by (simp add: take_bit_eq_mask [symmetric] unsigned_take_bit_eq take_bit_nat_def)
  have nm: "unat (n + (s AND mask 6)) = q + p mod 64" using m n pq by (subst unat_add_no_wrap) (auto simp: word_less_nat_alt)
  have rmi: "rm_inv (ih_ranges i)" using inv by (simp add: id_inv_def)
  define n0 where "n0 = key_node (ih_ranges i) (irangel s n)"
  have n0: "n_start n0 = s" "n_end n0 = e" by (simp_all add: n0_def key_node_def irangel_def e_def)
  have lt0: "n_start n0 < n_end n0" using n0 s e q(2) by (simp add: word_less_nat_alt)
  obtain rm ok where ins: "rangemap_insert (ih_ranges i) n0 = Some (rm, ok)" "rm_inv rm"
      "ok \<longleftrightarrow> (\<forall>m \<in> set (rm_nodes (ih_ranges i)). \<not> ranges_intersect (rm_r n0) (rm_r m))"
      "ok \<Longrightarrow> set (rm_nodes rm) = insert n0 (set (rm_nodes (ih_ranges i)))"
    using rangemap_insert_spec [OF rmi lt0] by (auto elim!: ensuresE)
  have meet: "ranges_intersect (rm_r n0) (rm_r m) \<longleftrightarrow> {p..<p + q} \<inter> ir_pages m \<noteq> {}" if "ir_wf m" for m
  proof -
    have "n_start m < n_end m" using that by (simp add: ir_wf_def)
    then show ?thesis using n0 s e q(2)
      by (auto simp: ranges_intersect_iff ir_pages_def word_less_nat_alt word_le_nat_alt max_def min_def)
  qed
  have wf: "ir_wf m" if "m \<in> set (rm_nodes (ih_ranges i))" for m using inv that by (auto simp: id_inv_def)
  have ok: "ok \<longleftrightarrow> {p..<p + q} \<inter> id_pages i = {}" unfolding ins(3) id_pages_def using meet wf by blast
  show ?thesis
  proof (cases ok)
    case False
    then have "id_add_range i base len = Some (i, None)"
      using ins(1) al inf h(3) by (simp add: id_add_range_def Let_def s_def [symmetric] n_def [symmetric] n0_def [symmetric])
    with False ok inv btw show ?thesis by simp
  next
    case True
    have "p mod 64 < 64" by simp
    have "q + p mod 64 \<le> p + q" by simp
    then have "q + p mod 64 < 2 ^ 60" using pq by (rule le_less_trans)
    then have "q + p mod 64 < 2 ^ 61" by simp
    then obtain b b' where b: "allocate_bitmap True (ih_map i) (q + p mod 64) = Some (Some b)"
        "(if p mod 64 \<noteq> 0 then map_option fst (bitmap_range_check_and_set b 0 (p mod 64) False True) else Some b) = Some b'"
        "bitmap_wf b'" "bm_heap b' = ih_map i" "bm_maxbits b' = q + p mod 64" "bm_bits b' = {..<p mod 64}"
      using fresh_bitmap [OF h(1,2) q(2) \<open>p mod 64 < 64\<close>] by blast
    define r where "r = n0\<lparr>ir_b := b', ir_bitmap_start := s AND NOT (mask 6), ir_next_bit := replicate NEXT_BIT_COUNT 0\<rparr>"
    have rr: "rm_r r = irange s e" "rm_r r = rm_r n0"
      by (simp_all add: r_def n0_def key_node_def irangel_def irange_def e_def)
    have r: "ir_wf r" "ir_taken r = {}" "ir_pages r = {p..<p + q}"
      using new_range_wf [of s e b' r] s e q(2) pq b h(2) rr by (simp_all add: r_def)
    define i1 where "i1 = i\<lparr>ih_ranges := rm\<rparr>"
    obtain pre post where split: "rm_nodes rm = pre @ n0 # post" using ins(4) [OF True] by (metis insertI1 split_list)
    have w: "rm_inv (ih_ranges (write_range i1 n0 r))" "rm_nodes (ih_ranges (write_range i1 n0 r)) = pre @ r # post"
      using write_range_nodes [of i1 pre n0 post r] ins(2) split rr(2) by (simp_all add: i1_def)
    have "n0 \<notin> set pre \<union> set post"
      using ins(2) split lt0 by (auto simp: rm_inv_def disjoint_sorted_def sorted_wrt_append dest!: bspec)
    moreover have "n0 \<notin> set (rm_nodes (ih_ranges i))" using ins(3) True lt0 by (auto simp: ranges_intersect_iff)
    ultimately have nodes: "set (pre @ post) = set (rm_nodes (ih_ranges i))" using ins(4) [OF True] split by auto
    have E: "unat (n_end r) * 2 ^ ?po < 2 ^ 64" using rr(1) e lt by (simp add: mult.commute)
    let ?i = "(write_range i1 n0 r)\<lparr>ih_total := ih_total i + len\<rparr>"
    have i1: "ih_meta i1" "ih_map i1 = ih_map i" "ih_total i1 = ih_total i" using h(3) by (simp_all add: i1_def)
    have "id_add_range i base len = Some (?i, Some r)"
      using i1 ins(1) al inf h(3) True b(1,2) m nm
      by (cases "p mod 64 = 0")
         (auto simp: id_add_range_def Let_def s_def [symmetric] n_def [symmetric] n0_def [symmetric] i1_def [symmetric] r_def
          unat_eq_0 [symmetric])
    moreover have "id_inv ?i" using inv w r(1) E nodes by (auto simp: id_inv_def i1_def write_range_def)
    moreover have "id_taken ?i = id_taken i" using w(2) r(2) nodes by (auto simp: id_taken_def write_range_def i1_def)
    moreover have "id_pages ?i = id_pages i \<union> {p..<p + q}" using w(2) r(3) nodes by (auto simp: id_pages_def write_range_def i1_def)
    moreover have "set (id_extents ?i) = insert (rm_r r) (set (id_extents i))"
      using w(2) nodes by (auto simp: id_extents_def write_range_def i1_def)
    moreover have "rm_r r = irangel s n" by (simp add: rr(2) n0_def key_node_def)
    ultimately show ?thesis using True ok btw w(2) by (auto simp: write_range_def i1_def s_def n_def)
  qed
qed

section \<open>Freeing\<close>

text \<open>A lookup with gaps of a range inside one node calls the handler of nodes once and that of gaps never.\<close>

lemma lookup_with_gaps_inside:
  assumes rmi: "rm_inv rm" and n: "n \<in> set (rm_nodes rm)"
    and q: "r_start q < r_end q" "n_start n \<le> r_start q" "r_end q \<le> n_end n"
  shows "rangemap_range_lookup_with_gaps rm q nh gh s =
     Some (case nh n s of (s', ok) \<Rightarrow> (s', if ok then RM_MATCH else RM_ABORT))"
proof -
  obtain pre post where split: "rm_nodes rm = pre @ n # post" using n by (auto dest: split_list)
  have "disjoint_sorted (pre @ n # post)" using rmi split by (auto simp: rm_inv_def)
  then have "\<not> ranges_intersect q (rm_r x)" if "x \<in> set pre \<union> set post" for x
    using that q by (auto simp: disjoint_sorted_def sorted_wrt_append ranges_intersect_iff dest!: bspec)
  moreover have meet: "ranges_intersect q (rm_r n)" "ranges_intersect (rm_r n) q" using q by (auto simp: ranges_intersect_iff)
  ultimately have m: "meeting q rm = [n]" unfolding split by (simp add: filter_empty_conv)
  have "\<not> ranges_intersect (irange (r_start q) (n_start n)) q" "\<not> ranges_intersect (irange (n_end n) (r_end q)) q"
    using q by (auto simp: ranges_intersect_iff)
  then show ?thesis using meet
    by (auto simp: rangemap_range_lookup_with_gaps_def rangemap_range_lookup_internal_def foreach_of_range_fold [OF rmi] m
        range_lookup_node_def gap_step_def Let_def split: prod.splits)
qed

text \<open>The ranges are small enough for the \<^verbatim>\<open>int\<close> that holds a bit number.\<close>

definition int_ranges :: "id_heap \<Rightarrow> bool" where
  "int_ranges i \<longleftrightarrow> (\<forall>e \<in> set (id_extents i). unat (r_end e) - unat (r_start e) div 64 * 64 < 2 ^ 31)"

lemma others_disjoint:
  assumes inv: "id_inv i" and split: "rm_nodes (ih_ranges i) = pre @ r # post" and x: "x \<in> set pre \<union> set post"
  shows "ir_taken x \<inter> ir_pages r = {}"
proof -
  have "disjoint_sorted (pre @ r # post)" using inv split by (auto simp: id_inv_def rm_inv_def)
  then have "ir_pages x \<inter> ir_pages r = {}"
    using x by (auto simp: disjoint_sorted_def sorted_wrt_append ir_pages_def word_le_nat_alt dest!: bspec)
  moreover have "ir_taken x \<subseteq> ir_pages x" using inv split x by (auto simp: id_inv_def intro!: ir_taken_pages)
  ultimately show ?thesis by blast
qed

lemma id_taken_release:
  assumes inv: "id_inv i" and split: "rm_nodes (ih_ranges i) = pre @ r # post" and r': "rm_r r' = rm_r r"
    and X: "ir_taken r' = ir_taken r - X" "X \<subseteq> ir_pages r"
  shows "id_taken (write_range i r r') = id_taken i - X"
proof -
  have "rm_inv (ih_ranges i)" using inv by (simp add: id_inv_def)
  note w = write_range_nodes(2) [OF this split r']
  have "(\<Union>x \<in> set pre \<union> set post. ir_taken x) \<inter> X = {}" using others_disjoint [OF inv split] X(2) by blast
  then show ?thesis using w split X(1) by (auto simp: id_taken_def)
qed

lemma ir_release:
  assumes wf: "ir_wf r" and b: "bm_same (ir_b r) b" "bm_bits b = bm_bits (ir_b r) - {k..<k + n}" and k: "unat (n_start r) mod 64 \<le> k"
  shows "ir_wf (r\<lparr>ir_b := b\<rparr>)"
    "ir_taken (r\<lparr>ir_b := b\<rparr>) = ir_taken r - {unat (ir_bitmap_start r) + k..<unat (ir_bitmap_start r) + k + n}"
proof -
  show "ir_wf (r\<lparr>ir_b := b\<rparr>)" using wf b k bm_same_grants [OF b(1)] unfolding ir_wf_def by (auto simp: bm_same_def)
  have inj: "inj_on (\<lambda>x. unat (ir_bitmap_start r) + x) A" for A by simp
  have "(\<lambda>x. unat (ir_bitmap_start r) + x) ` {k..<k + n} = {unat (ir_bitmap_start r) + k..<unat (ir_bitmap_start r) + k + n}"
    by (simp add: add_ac)
  moreover have "bm_bits b - {..<unat (n_start r) mod 64} = (bm_bits (ir_b r) - {..<unat (n_start r) mod 64}) - {k..<k + n}"
    using b(2) by auto
  ultimately show "ir_taken (r\<lparr>ir_b := b\<rparr>) = ir_taken r - {unat (ir_bitmap_start r) + k..<unat (ir_bitmap_start r) + k + n}"
    unfolding ir_taken_def by (simp add: image_set_diff)
qed

lemma taken_bits:
  assumes "{P..<P + n} \<subseteq> ir_taken r" "unat (ir_bitmap_start r) \<le> P"
  shows "{P - unat (ir_bitmap_start r)..<P - unat (ir_bitmap_start r) + n} \<subseteq> bm_bits (ir_b r)"
proof
  fix x assume "x \<in> {P - unat (ir_bitmap_start r)..<P - unat (ir_bitmap_start r) + n}"
  then have "unat (ir_bitmap_start r) + x \<in> {P..<P + n}" using assms(2) by auto
  then show "x \<in> bm_bits (ir_b r)" using assms(1) by (auto simp: ir_taken_def)
qed

lemma dealloc_range_spec:
  assumes inv: "id_inv i" and split: "rm_nodes (ih_ranges i) = pre @ r # post"
    and small: "unat (n_end r) - unat (ir_bitmap_start r) < 2 ^ 31"
    and q: "unat (r_start q) = P" "unat (r_end q) = P + n" "0 < n" and T: "{P..<P + n} \<subseteq> ir_taken r"
    and al: "n * 2 ^ ih_page_order i \<le> unat (ih_allocated i)"
  shows "\<exists>i'. dealloc_from_range q r (Some i) = (Some i', True) \<and> id_inv i' \<and> same_heap i i' \<and>
     id_taken i' = id_taken i - {P..<P + n} \<and> ih_allocated i' = ih_allocated i - of_nat (n * 2 ^ ih_page_order i)"
proof -
  let ?B = "unat (ir_bitmap_start r)" and ?po = "ih_page_order i"
  have wf: "ir_wf r" using inv split by (auto simp: id_inv_def)
  have TP: "{P..<P + n} \<subseteq> ir_pages r" using T ir_taken_pages [OF wf] by blast
  have "P \<in> {P..<P + n}" "P + n - 1 \<in> {P..<P + n}" using q(3) by auto
  then have "P \<in> ir_pages r" "P + n - 1 \<in> ir_pages r" using TP by blast+
  then have P: "unat (n_start r) \<le> P" "P + n \<le> unat (n_end r)" using q(3) by (auto simp: ir_pages_def)
  have Bs: "?B = unat (n_start r) div 64 * 64" using wf by (simp add: ir_wf_def)
  then have BP: "?B + unat (n_start r) mod 64 = unat (n_start r)" by simp
  define k where "k = P - ?B"
  have k: "?B + k = P" "unat (n_start r) mod 64 \<le> k" "k < 2 ^ 31" "n < 2 ^ 31"
    using P BP q(3) small by (auto simp: k_def)
  let ?ri = "range_intersection q (rm_r r)"
  have "n_start r \<le> r_start q" "r_end q \<le> n_end r" "r_start q < r_end q"
    using P q by (simp_all add: word_le_nat_alt word_less_nat_alt)
  then have ri: "r_start ?ri = r_start q" "r_end ?ri = r_end q"
    by (simp_all add: range_intersection_def Let_def max.absorb1 min.absorb1 not_le [symmetric])
  define bt where "bt = bit_offset (r_start q) r"
  have sub: "unat (r_start q - ir_bitmap_start r) = k"
    using q(1) k(1) by (simp add: unat_sub word_le_nat_alt)
  then have bt: "unat bt = k" using k(3) by (simp add: bt_def bit_offset_def int_cast_small)
  define pages where "pages = range_span ?ri"
  have pages: "unat pages = n" unfolding pages_def range_span_def ri using q by (simp add: unat_sub word_le_nat_alt)
  have kn: "{k..<k + n} \<subseteq> bm_bits (ir_b r)" using taken_bits [OF T] k(1) by (simp add: k_def)
  have "k + n - 1 \<in> bm_bits (ir_b r)" using kn q(3) by auto
  then have "k + n \<le> bm_mapbits (ir_b r)" "k + n \<le> bm_maxbits (ir_b r)"
    using wf q(3) by (auto simp: bm_bits_def ir_wf_def)
  moreover have "k + n < 2 ^ 64" "bitmap_wf (ir_b r)" using k(3,4) wf by (auto simp: ir_wf_def)
  ultimately obtain b where b: "bitmap_dealloc (ir_b r) k n = Some (b, True)" "bm_same (ir_b r) b"
      "bm_bits b = bm_bits (ir_b r) - {k..<k + n}"
    using bitmap_dealloc_spec [of "ir_b r" k n] kn by (auto elim!: ensuresE)
  note rel = ir_release [OF wf b(2,3) k(2)]
  define r2 where "r2 = (if pages = push_bit (find_order n) 1 \<and> r_start q AND (pages - 1) = 0 \<and> bt < get_next_bit r (find_order n)
                    then set_next_bit (r\<lparr>ir_b := b\<rparr>) (find_order n) bt else r\<lparr>ir_b := b\<rparr>)"
  have "2 ^ find_order n dvd ?B + unat bt" if "pages = push_bit (find_order n) 1" "r_start q AND (pages - 1) = 0"
  proof -
    have "take_bit (find_order n) (r_start q) = 0" using that by (simp add: take_bit_eq_mask mask_eq_exp_minus_1)
    then have "unat (take_bit (find_order n) (r_start q)) = 0" by simp
    then have "P mod 2 ^ find_order n = 0" unfolding q(1) [symmetric] by (simp add: unsigned_take_bit_eq take_bit_nat_def)
    then show ?thesis using bt k(1) by (simp add: dvd_eq_mod_eq_0)
  qed
  then have r2: "ir_wf r2" "rm_r r2 = rm_r r" "ir_bitmap_start r2 = ir_bitmap_start r" "ir_taken r2 = ir_taken r - {P..<P + n}"
    using rel k(1) ir_wf_next [OF rel(1), of "find_order n" bt] by (auto simp: r2_def)
  have d: "push_bit ?po pages = of_nat (n * 2 ^ ?po)" using pages by (simp add: push_bit_eq_mult flip: pages)
  have "unat (ih_allocated i) < 2 ^ 64" using unsigned_less [of "ih_allocated i", where ?'a = nat] by simp
  then have "n * 2 ^ ?po < 2 ^ 64" using al by (rule le_less_trans [rotated])
  then have dl: "\<not> ih_allocated i < push_bit ?po pages" unfolding d word_less_nat_alt using al by (subst unat_of_nat) simp
  let ?i = "(write_range i r r2)\<lparr>ih_allocated := ih_allocated i - push_bit ?po pages\<rparr>"
  have "dealloc_from_range q r (Some i) = (Some ?i, True)"
    unfolding dealloc_from_range_def Let_def bind.bind_lunit pages_def [symmetric] ri bt_def [symmetric] bt pages b(1)
      prod.case if_False not_True_eq_False r2_def [symmetric] using dl by simp
  moreover have "id_inv ?i" "id_extents ?i = id_extents i" using id_inv_write(1,2) [OF inv split r2(2,1)] by simp_all
  moreover have "id_taken ?i = id_taken i - {P..<P + n}" using id_taken_release [OF inv split r2(2,4) TP] by simp
  ultimately show ?thesis using d by (auto simp: same_heap_def)
qed

lemma id_dealloc_spec:
  assumes inv: "id_inv i" and pg: "page_heap i" and small: "int_ranges i"
    and e: "e \<in> set (id_extents i)" "{P..<P + n} \<subseteq> extent_pages e" and T: "{P..<P + n} \<subseteq> id_taken i" and n: "0 < n"
    and a: "unat a = P * 2 ^ ih_page_order i" "unat cnt = n * 2 ^ ih_page_order i"
    and al: "n * 2 ^ ih_page_order i \<le> unat (ih_allocated i)"
  shows "\<exists>i'. id_dealloc i a cnt = Some i' \<and> id_inv i' \<and> same_heap i i' \<and>
     id_taken i' = id_taken i - {P..<P + n} \<and> ih_allocated i' = ih_allocated i - of_nat (n * 2 ^ ih_page_order i)"
proof -
  let ?po = "ih_page_order i"
  obtain r where r: "r \<in> set (rm_nodes (ih_ranges i))" "rm_r r = e" using e(1) by (auto simp: id_extents_def)
  obtain pre post where split: "rm_nodes (ih_ranges i) = pre @ r # post" using r(1) by (auto dest: split_list)
  have wf: "ir_wf r" and E: "unat (n_end r) * 2 ^ ?po < 2 ^ 64" using inv r(1) by (auto simp: id_inv_def)
  have pr: "{P..<P + n} \<subseteq> ir_pages r" using e(2) r(2) by (simp add: extent_pages_def ir_pages_def)
  then have P: "unat (n_start r) \<le> P" "P + n \<le> unat (n_end r)"
    using n by (auto simp: ir_pages_def subset_eq Ball_def dest: spec [of _ P] spec [of _ "P + n - 1"])
  have Tr: "{P..<P + n} \<subseteq> ir_taken r"
  proof
    fix x assume x: "x \<in> {P..<P + n}"
    then obtain y where y: "y \<in> set (rm_nodes (ih_ranges i))" "x \<in> ir_taken y" using T by (auto simp: id_taken_def)
    have "x \<in> ir_pages r" using pr x by blast
    with y split others_disjoint [OF inv split, of y] show "x \<in> ir_taken r" by auto
  qed
  have "unat (ir_bitmap_start r) = unat (n_start r) div 64 * 64" using wf by (simp add: ir_wf_def)
  then have sm: "unat (n_end r) - unat (ir_bitmap_start r) < 2 ^ 31"
    using small e(1) r(2) by (auto simp: int_ranges_def)
  have "(P + n) * 2 ^ ?po \<le> unat (n_end r) * 2 ^ ?po" using P(2) by (rule mult_right_mono) simp
  then have ac: "unat (a + cnt) = (P + n) * 2 ^ ?po"
    using a E by (subst unat_add_no_wrap) (auto simp: algebra_simps)
  define q where "q = range_rshift (irangel a cnt) ?po"
  have q: "unat (r_start q) = P" "unat (r_end q) = P + n"
    using a ac by (simp_all add: q_def range_rshift_def irangel_def unat_drop_bit_div)
  obtain i' where i': "dealloc_from_range q r (Some i) = (Some i', True)" "id_inv i'" "same_heap i i'"
      "id_taken i' = id_taken i - {P..<P + n}" "ih_allocated i' = ih_allocated i - of_nat (n * 2 ^ ?po)"
    using dealloc_range_spec [OF inv split sm q n Tr al] by blast
  have w: "r_start q < r_end q" "n_start r \<le> r_start q" "r_end q \<le> n_end r"
    using P n q by (simp_all add: word_le_nat_alt word_less_nat_alt)
  have rmi: "rm_inv (ih_ranges i)" using inv by (simp add: id_inv_def)
  have "a AND page_mask i = 0" "cnt AND page_mask i = 0" using a by (simp_all add: page_mask_zero [OF pg])
  moreover have "cnt \<noteq> 0" using a(2) n by auto
  ultimately have "id_dealloc i a cnt = Some i'"
    by (simp add: id_dealloc_def q_def [symmetric] lookup_with_gaps_inside [OF rmi r(1) w] i'(1))
  with i' show ?thesis by blast
qed

section \<open>Sequences of operations\<close>

text \<open>The bytes of the taken pages never reach \<open>2\<^sup>6\<^sup>4\<close>, so the count of allocated bytes is exact.\<close>

lemma taken_bytes:
  assumes inv: "id_inv i"
  shows "finite (id_taken i)" "card (id_taken i) * 2 ^ ih_page_order i < 2 ^ 64"
proof -
  let ?ns = "rm_nodes (ih_ranges i)"
  define M where "M = Max (insert 0 ((\<lambda>r. unat (n_end r)) ` set ?ns))"
  have "M \<in> insert 0 ((\<lambda>r. unat (n_end r)) ` set ?ns)" unfolding M_def by (rule Max_in) auto
  then have M: "M * 2 ^ ih_page_order i < 2 ^ 64" using inv by (auto simp: id_inv_def)
  have "ir_taken r \<subseteq> {..<M}" if "r \<in> set ?ns" for r
  proof -
    have "unat (n_end r) \<le> M" unfolding M_def using that by (intro Max_ge) auto
    moreover have "ir_taken r \<subseteq> ir_pages r" using inv that by (auto simp: id_inv_def intro!: ir_taken_pages)
    ultimately show ?thesis by (fastforce simp: ir_pages_def)
  qed
  then have sub: "id_taken i \<subseteq> {..<M}" by (auto simp: id_taken_def)
  then show "finite (id_taken i)" by (rule finite_subset) simp
  have "card (id_taken i) \<le> M" using card_mono [OF _ sub] by simp
  then have "card (id_taken i) * 2 ^ ih_page_order i \<le> M * 2 ^ ih_page_order i" by simp
  with M show "card (id_taken i) * 2 ^ ih_page_order i < 2 ^ 64" by linarith
qed

definition exact_count :: "id_heap \<Rightarrow> bool" where
  "exact_count i \<longleftrightarrow> unat (ih_allocated i) = card (id_taken i) * 2 ^ ih_page_order i"

lemma exact_count_iff:
  assumes "id_inv i"
  shows "exact_count i \<longleftrightarrow> ih_allocated i = of_nat (card (id_taken i) * 2 ^ ih_page_order i)"
proof -
  have "unat (of_nat (card (id_taken i) * 2 ^ ih_page_order i) :: u64) = card (id_taken i) * 2 ^ ih_page_order i"
    using taken_bytes(2) [OF assms] by (subst unat_of_nat) simp
  then show ?thesis unfolding exact_count_def word_unat_eq_iff by simp
qed

lemma id_alloc_spec:
  assumes inv: "id_inv i" and pg: "page_heap i" and nr: "\<not> ih_randomize i" "ih_parent i = None"
    and c: "0 < unat cnt" "unat cnt \<le> 512 * 2 ^ ih_page_order i"
  shows "ensures (id_alloc rnd palloc i cnt)
     (\<lambda>(i', a). alloc_outcome i (rm_nodes (ih_ranges i)) (pages_from_bytes i cnt) WHOLE_RANGE i' a)"
proof -
  have fn: "rangemap_first_node (ih_ranges i) = hd_opt (rm_nodes (ih_ranges i))"
    by (simp add: rangemap_first_node_def rbtree_find_first_hd)
  have pages: "0 < unat (pages_from_bytes i cnt)" "unat (pages_from_bytes i cnt) \<le> 512"
    using pages_from_bytes_spec [OF pg c] by simp_all
  obtain i' a where r: "alloc_from_ranges rnd (pages_from_bytes i cnt) WHOLE_RANGE i (rangemap_first_node (ih_ranges i)) = Some (i', a)"
      "alloc_outcome i (rm_nodes (ih_ranges i)) (pages_from_bytes i cnt) WHOLE_RANGE i' a"
    using alloc_from_ranges_spec [OF inv _ pages nr(1), of "[]" "rm_nodes (ih_ranges i)" rnd WHOLE_RANGE] unfolding fn
    by (auto elim!: ensuresE)
  moreover have "ih_parent i' = None" using r(2) nr(2) by (simp add: alloc_outcome_def same_heap_def)
  moreover have "cnt \<noteq> 0" using c(1) by auto
  ultimately show ?thesis by (auto simp: id_alloc_def)
qed

lemma exact_count_grant:
  assumes inv: "id_inv i" "id_inv i'" and s: "same_heap i i'" "exact_count i" and g: "id_grant i i' pages sub P a"
  shows "exact_count i'"
proof -
  have t: "id_taken i' = id_taken i \<union> {P..<P + unat pages}" "{P..<P + unat pages} \<inter> id_taken i = {}"
      "ih_allocated i' = ih_allocated i + push_bit (ih_page_order i) pages"
    using g by (auto simp: id_grant_def)
  have "card (id_taken i') = card (id_taken i) + unat pages"
    unfolding t(1) using t(2) taken_bytes(1) [OF inv(1)] by (subst card_Un_disjoint) auto
  moreover have "ih_page_order i' = ih_page_order i" using s(1) by (simp add: same_heap_def)
  moreover have "push_bit (ih_page_order i) pages = of_nat (unat pages * 2 ^ ih_page_order i)" by (simp add: push_bit_eq_mult)
  ultimately show ?thesis
    using s(2) t(3) unfolding exact_count_iff [OF inv(1)] exact_count_iff [OF inv(2)] by (simp add: algebra_simps)
qed

lemma release_fits:
  assumes "id_inv i" "exact_count i" "{P..<P + n} \<subseteq> id_taken i"
  shows "n \<le> card (id_taken i)" "n * 2 ^ ih_page_order i \<le> unat (ih_allocated i)"
proof -
  show "n \<le> card (id_taken i)" using card_mono [OF taken_bytes(1) [OF assms(1)] assms(3)] by simp
  then show "n * 2 ^ ih_page_order i \<le> unat (ih_allocated i)" using assms(2) by (simp add: exact_count_def)
qed

lemma exact_count_release:
  assumes inv: "id_inv i" "id_inv i'" and s: "same_heap i i'" "exact_count i" and X: "{P..<P + n} \<subseteq> id_taken i"
    "id_taken i' = id_taken i - {P..<P + n}" "ih_allocated i' = ih_allocated i - of_nat (n * 2 ^ ih_page_order i)"
  shows "exact_count i'"
proof -
  have "card (id_taken i') = card (id_taken i) - n" unfolding X(2) using X(1) by (subst card_Diff_subset) auto
  moreover have "ih_page_order i' = ih_page_order i" using s(1) by (simp add: same_heap_def)
  ultimately show ?thesis
    using s(2) X(3) release_fits(1) [OF inv(1) s(2) X(1)] unfolding exact_count_iff [OF inv(1)] exact_count_iff [OF inv(2)]
    by (simp add: of_nat_diff algebra_simps diff_mult_distrib)
qed

text \<open>A client that allocates blocks of whole pages and frees blocks it holds, in any order.\<close>

datatype id_op = IdAlloc nat u64 | IdFree nat

type_synonym id_client = "id_heap \<times> (u64 \<times> nat) list"

fun id_step :: "(u64 \<Rightarrow> u64) \<Rightarrow> id_op \<Rightarrow> id_client \<Rightarrow> id_client option" where
  "id_step palloc (IdAlloc n rnd) (i, live) = do {
     (i, a) \<leftarrow> id_alloc rnd palloc i (of_nat n * ih_pagesize i);
     Some (i, if a = INVALID_PHYSICAL then live else (a, n) # live)
   }"
| "id_step palloc (IdFree k) (i, live) =
     (if k < length live
      then do {
        i \<leftarrow> id_dealloc i (fst (live ! k)) (of_nat (snd (live ! k)) * ih_pagesize i);
        Some (i, take k live @ drop (Suc k) live)
      }
      else Some (i, live))"

fun id_run :: "(u64 \<Rightarrow> u64) \<Rightarrow> id_op list \<Rightarrow> id_client \<Rightarrow> id_client option" where
  "id_run palloc [] c = Some c"
| "id_run palloc (op # ops) c = id_step palloc op c \<bind> id_run palloc ops"

fun op_ok :: "id_op \<Rightarrow> bool" where
  "op_ok (IdAlloc n rnd) = (0 < n \<and> n \<le> 512)"
| "op_ok (IdFree k) = True"

definition block :: "nat \<Rightarrow> u64 \<times> nat \<Rightarrow> nat set" where
  "block po b = {unat (fst b) div 2 ^ po..<unat (fst b) div 2 ^ po + snd b}"

definition block_ok :: "id_heap \<Rightarrow> u64 \<times> nat \<Rightarrow> bool" where
  "block_ok i b \<longleftrightarrow> 0 < snd b \<and> snd b \<le> 512 \<and> 2 ^ (ih_page_order i + find_order (snd b)) dvd unat (fst b) \<and>
     (\<exists>e \<in> set (id_extents i). block (ih_page_order i) b \<subseteq> extent_pages e)"

definition client_inv :: "id_client \<Rightarrow> bool" where
  "client_inv c \<longleftrightarrow> (case c of (i, live) \<Rightarrow>
     id_inv i \<and> page_heap i \<and> int_ranges i \<and> \<not> ih_randomize i \<and> ih_parent i = None \<and> exact_count i \<and>
     (\<forall>b \<in> set live. block_ok i b) \<and>
     sorted_wrt (\<lambda>x y. block (ih_page_order i) x \<inter> block (ih_page_order i) y = {}) live \<and>
     id_taken i = (\<Union>b \<in> set live. block (ih_page_order i) b))"

lemma same_heap_client:
  assumes "same_heap i i'"
  shows "page_heap i' = page_heap i" "int_ranges i' = int_ranges i" "block_ok i' = block_ok i"
    "ih_page_order i' = ih_page_order i" "ih_randomize i' = ih_randomize i" "ih_parent i' = ih_parent i"
    "id_extents i' = id_extents i"
  using assms by (auto simp: same_heap_def page_heap_def int_ranges_def block_ok_def fun_eq_iff)

lemma unat_bytes:
  assumes "page_heap i" "n \<le> 512"
  shows "unat (of_nat n * ih_pagesize i) = n * 2 ^ ih_page_order i"
proof -
  have po: "ih_page_order i < 32" "unat (ih_pagesize i) = 2 ^ ih_page_order i" using assms(1) by (auto simp: page_heap_def)
  have p32: "(2 :: nat) ^ ih_page_order i < 2 ^ 32" using po(1) by (intro power_strict_increasing) auto
  have "n * 2 ^ ih_page_order i \<le> 512 * 2 ^ ih_page_order i" using assms(2) by simp
  also have "\<dots> < 2 ^ 64" using p32 by simp
  finally have "unat (of_nat n :: u64) * unat (ih_pagesize i) < 2 ^ 64" using assms(2) po(2) by (simp add: unat_of_nat)
  from unat_no_wrap [OF this] show ?thesis using assms(2) po(2) by (simp add: unat_of_nat)
qed

lemma round_up_multiple:
  fixes s :: nat
  assumes "0 < s"
  shows "(n * s + s - 1) div s = n"
  using assms by (intro div_nat_eqI) (auto simp: mult.commute)

lemma pages_from_whole:
  assumes "page_heap i" "0 < n" "n \<le> 512"
  shows "unat (pages_from_bytes i (of_nat n * ih_pagesize i)) = n"
proof -
  note u = unat_bytes [OF assms(1,3)]
  have "pages_of i (of_nat n * ih_pagesize i) = n"
    unfolding pages_of_def u by (rule round_up_multiple) simp
  then show ?thesis using pages_from_bytes_spec(1) [OF assms(1), of "of_nat n * ih_pagesize i"] u assms by simp
qed

lemma block_grant:
  assumes g: "id_grant i i' pages WHOLE_RANGE P a" and n: "unat pages = n" "0 < n" "n \<le> 512"
  shows "block (ih_page_order i) (a, n) = {P..<P + n}" "block_ok i (a, n)"
proof -
  have a: "unat a = P * 2 ^ ih_page_order i" "stride pages dvd P" using g by (auto simp: id_grant_def)
  then show b: "block (ih_page_order i) (a, n) = {P..<P + n}" by (simp add: block_def)
  have "2 ^ (ih_page_order i + find_order n) dvd unat a" using a n(1) by (simp add: power_add mult.commute mult_dvd_mono)
  then show "block_ok i (a, n)" using b g n by (simp add: block_ok_def id_grant_def)
qed

lemma id_step_alloc:
  assumes c: "client_inv (i, live)" and n: "0 < n" "n \<le> 512"
  shows "ensures (id_step palloc (IdAlloc n rnd) (i, live)) (\<lambda>(i', live'). client_inv (i', live') \<and> same_heap i i')"
proof -
  have ci: "id_inv i" "page_heap i" "\<not> ih_randomize i" "ih_parent i = None" "exact_count i"
    using c by (auto simp: client_inv_def)
  let ?cnt = "of_nat n * ih_pagesize i"
  have c0: "0 < unat ?cnt" "unat ?cnt \<le> 512 * 2 ^ ih_page_order i" unfolding unat_bytes [OF ci(2) n(2)] using n by simp_all
  obtain i' a where a: "id_alloc rnd palloc i ?cnt = Some (i', a)"
      and out: "alloc_outcome i (rm_nodes (ih_ranges i)) (pages_from_bytes i ?cnt) WHOLE_RANGE i' a"
    using id_alloc_spec [OF ci(1-4) c0, of rnd palloc] by (auto elim!: ensuresE)
  have pages: "unat (pages_from_bytes i ?cnt) = n" by (rule pages_from_whole [OF ci(2) n])
  have i': "id_inv i'" "same_heap i i'" using out by (auto simp: alloc_outcome_def)
  note sh = same_heap_client [OF i'(2)]
  show ?thesis
  proof (cases "a = INVALID_PHYSICAL")
    case True
    with out have "id_taken i' = id_taken i" "ih_allocated i' = ih_allocated i" by (auto simp: alloc_outcome_def)
    moreover from this ci(5) sh have "exact_count i'" by (simp add: exact_count_def)
    ultimately show ?thesis using a True c i' sh by (simp add: client_inv_def)
  next
    case False
    with out obtain P where g: "id_grant i i' (pages_from_bytes i ?cnt) WHOLE_RANGE P a" by (auto simp: alloc_outcome_def)
    note b = block_grant [OF g pages n]
    have "exact_count i'" by (rule exact_count_grant [OF ci(1) i' ci(5) g])
    moreover have "id_taken i' = block (ih_page_order i) (a, n) \<union> id_taken i" "block (ih_page_order i) (a, n) \<inter> id_taken i = {}"
      using g pages b(1) by (auto simp: id_grant_def)
    ultimately show ?thesis using a False c i' sh b(2) by (auto simp: client_inv_def)
  qed
qed

lemma id_step_free:
  assumes c: "client_inv (i, live)"
  shows "ensures (id_step palloc (IdFree k) (i, live)) (\<lambda>(i', live'). client_inv (i', live') \<and> same_heap i i')"
proof (cases "k < length live")
  case False
  with c show ?thesis by (simp add: same_heap_def)
next
  case True
  let ?po = "ih_page_order i"
  obtain a n where b: "live ! k = (a, n)" by fastforce
  define pre post where "pre = take k live" and "post = drop (Suc k) live"
  have live: "live = pre @ (a, n) # post" unfolding pre_def post_def using True b id_take_nth_drop by metis
  have ci: "id_inv i" "page_heap i" "int_ranges i" "exact_count i" "block_ok i (a, n)"
    using c live by (auto simp: client_inv_def)
  define P where "P = unat a div 2 ^ ?po"
  have bl: "block ?po (a, n) = {P..<P + n}" by (simp add: block_def P_def)
  have n: "0 < n" "n \<le> 512" using ci(5) by (auto simp: block_ok_def)
  have "2 ^ ?po dvd unat a" using ci(5) by (auto simp: block_ok_def power_add dest: dvd_mult_left)
  then have a: "unat a = P * 2 ^ ?po" by (simp add: P_def)
  obtain e where e: "e \<in> set (id_extents i)" "{P..<P + n} \<subseteq> extent_pages e" using ci(5) bl by (auto simp: block_ok_def)
  have T: "id_taken i = (\<Union>b \<in> set live. block ?po b)" using c by (simp add: client_inv_def)
  then have TP: "{P..<P + n} \<subseteq> id_taken i" using live bl by auto
  note fits = release_fits [OF ci(1,4) TP]
  obtain i' where i': "id_dealloc i a (of_nat n * ih_pagesize i) = Some i'" "id_inv i'" "same_heap i i'"
      "id_taken i' = id_taken i - {P..<P + n}" "ih_allocated i' = ih_allocated i - of_nat (n * 2 ^ ?po)"
    using id_dealloc_spec [OF ci(1-3) e TP n(1) a unat_bytes [OF ci(2) n(2)] fits(2)] by blast
  note sh = same_heap_client [OF i'(3)]
  have ex: "exact_count i'" by (rule exact_count_release [OF ci(1) i'(2,3) ci(4) TP i'(4,5)])
  have sw: "sorted_wrt (\<lambda>x y. block ?po x \<inter> block ?po y = {}) (pre @ (a, n) # post)" using c live by (simp add: client_inv_def)
  then have "block ?po x \<inter> {P..<P + n} = {}" if "x \<in> set (pre @ post)" for x
    using that bl by (auto simp: sorted_wrt_append)
  then have "id_taken i' = (\<Union>b \<in> set (pre @ post). block ?po b)" unfolding i'(4) T live using bl by auto
  moreover have "sorted_wrt (\<lambda>x y. block ?po x \<inter> block ?po y = {}) (pre @ post)" using sw by (simp add: sorted_wrt_append)
  ultimately have "client_inv (i', pre @ post)" using c ex i'(2) sh live by (auto simp: client_inv_def)
  with True b i'(1,3) show ?thesis by (simp add: pre_def post_def)
qed

lemma id_run_spec:
  assumes "client_inv (i, live)" "\<forall>op \<in> set ops. op_ok op"
  shows "ensures (id_run palloc ops (i, live)) (\<lambda>(i', live'). client_inv (i', live') \<and> same_heap i i')"
  using assms
proof (induction ops arbitrary: i live)
  case Nil
  then show ?case by (simp add: same_heap_def)
next
  case (Cons op ops)
  have "ensures (id_step palloc op (i, live)) (\<lambda>(i', live'). client_inv (i', live') \<and> same_heap i i')"
    using Cons.prems id_step_alloc id_step_free by (cases op) auto
  then obtain i1 l1 where s: "id_step palloc op (i, live) = Some (i1, l1)" "client_inv (i1, l1)" "same_heap i i1"
    by (auto elim!: ensuresE)
  then show ?case using Cons.IH [of i1 l1] Cons.prems(2) by (auto elim!: ensuresE intro: same_heap_trans)
qed

section \<open>Creation\<close>

lemma msb_power: "msb (2 ^ k) = k"
proof -
  have b: "2 ^ msb (2 ^ k) \<le> (2 :: nat) ^ k" "(2 :: nat) ^ k < 2 ^ Suc (msb (2 ^ k))" using msb_bounds [of "2 ^ k"] by auto
  have "msb (2 ^ k) \<le> k" using power_le_imp_le_exp [OF _ b(1)] by simp
  moreover have "k < Suc (msb (2 ^ k))" using power_less_imp_less_exp [OF _ b(2)] by simp
  ultimately show ?thesis by simp
qed

definition empty_heap :: "u64 heap \<Rightarrow> id_range heap \<Rightarrow> id_range \<Rightarrow> u64 \<Rightarrow> id_heap" where
  "empty_heap map_heap nodes junk pagesize =
     \<lparr>ih_pagesize = pagesize, ih_page_order = msb (unat pagesize), ih_allocated = 0, ih_total = 0,
      ih_randomize = False, ih_meta = True, ih_map = map_heap, ih_parent = None, ih_ranges = init_rangemap nodes junk\<rparr>"

lemma empty_heap_spec:
  fixes map_heap nodes junk
  assumes "unat pagesize = 2 ^ k" "k < 32"
  defines "i \<equiv> empty_heap map_heap nodes junk pagesize"
  shows "allocate_id_heap True map_heap nodes junk pagesize = Some (Some i)"
    "id_inv i" "page_heap i" "id_taken i = {}" "id_pages i = {}" "id_extents i = []" "ih_page_order i = k"
proof -
  have p: "pagesize = 2 ^ k" using assms(1,2) unfolding word_unat_eq_iff by (simp add: unat_exp_less)
  have "pagesize AND (pagesize - 1) = take_bit k pagesize" unfolding p by (simp add: take_bit_eq_mask mask_eq_exp_minus_1)
  also have "\<dots> = 0" unfolding p by (rule bit_word_eqI) (auto simp: bit_simps)
  finally show "allocate_id_heap True map_heap nodes junk pagesize = Some (Some i)"
    by (simp add: allocate_id_heap_def i_def empty_heap_def)
  show "page_heap i" "ih_page_order i = k" using assms(1,2) by (simp_all add: i_def empty_heap_def page_heap_def msb_power)
  show "id_inv i" "id_taken i = {}" "id_pages i = {}" "id_extents i = []"
    using rmt.rb_inv_init
    by (simp_all add: i_def empty_heap_def id_inv_def id_taken_def id_pages_def id_extents_def rm_inv_def init_rangemap_def
        disjoint_sorted_def) (simp_all add: init_rbtree_def)
qed

lemma interval_eqD:
  fixes a :: nat
  assumes "{a..<b} = {c..<d}" "c < d"
  shows "a = c" "b = d"
proof -
  have "{a..<b} \<noteq> {}" using assms by simp
  then have "a < b" by simp
  then show "a = c" "b = d" using assms atLeastLessThan_eq_iff by blast+
qed

lemma create_id_heap_spec:
  fixes base len pagesize :: u64
  assumes k: "unat pagesize = 2 ^ k" "k < 32" and h: "heap_ok map_heap" "heap_grants map_heap"
    and len: "0 < unat len" "2 ^ k dvd unat base" "2 ^ k dvd unat len" "unat base + unat len < 2 ^ 60"
    and small: "(unat base + unat len) div 2 ^ k - unat base div 2 ^ k div 64 * 64 < 2 ^ 31"
  shows "\<exists>i e. create_id_heap True map_heap nodes junk base len pagesize = Some (Some i) \<and> client_inv (i, []) \<and>
     ih_page_order i = k \<and> ih_pagesize i = pagesize \<and> set (id_extents i) = {e} \<and>
     extent_pages e = {unat base div 2 ^ k..<(unat base + unat len) div 2 ^ k}"
proof -
  let ?i = "empty_heap map_heap nodes junk pagesize"
  note e = empty_heap_spec [OF k, of map_heap nodes junk]
  have f: "ih_map ?i = map_heap" "ih_meta ?i" "ih_allocated ?i = 0" "\<not> ih_randomize ?i" "ih_parent ?i = None" "ih_pagesize ?i = pagesize"
    by (simp_all add: empty_heap_def)
  have req: "range_request ?i base len" using len e(7) by (simp add: range_request_def)
  have h': "heap_ok (ih_map ?i)" "heap_grants (ih_map ?i)" using h f(1) by simp_all
  let ?X = "{unat base div 2 ^ k..<(unat base + unat len) div 2 ^ k}"
  have btw: "pages_between ?i base len = ?X" by (simp add: pages_between_def e(7))
  obtain i' ro where i': "id_add_range ?i base len = Some (i', ro)" "id_inv i'" "id_taken i' = id_taken ?i"
      and ro: "case ro of
        None \<Rightarrow> i' = ?i \<and> ?X \<inter> id_pages ?i \<noteq> {}
      | Some r \<Rightarrow> ?X \<inter> id_pages ?i = {} \<and> id_pages i' = id_pages ?i \<union> ?X \<and>
          rm_r r = irangel (drop_bit k base) (drop_bit k len) \<and> set (id_extents i') = insert (rm_r r) (set (id_extents ?i)) \<and>
          (\<exists>pre post. rm_nodes (ih_ranges i') = pre @ r # post) \<and>
          i' = ?i\<lparr>ih_ranges := ih_ranges i', ih_total := ih_total ?i + len\<rparr>"
    using id_add_range_spec [OF e(2,3) h' f(2) req] unfolding ensures_def split_paired_Ex prod.case btw e(7) by blast
  obtain r where r: "ro = Some r" using ro e(5) by (cases ro) auto
  have ext: "set (id_extents i') = {rm_r r}" "rm_r r = irangel (drop_bit k base) (drop_bit k len)" using ro r e(6) by simp_all
  have "id_pages i' = ?X" using ro r e(5) by simp
  then have X: "extent_pages (rm_r r) = ?X" using ext(1) by (simp add: id_pages_extents)
  have ne: "unat base div 2 ^ k < (unat base + unat len) div 2 ^ k"
    using len(1-3) by (auto elim!: dvdE simp: distrib_left [symmetric])
  then have "unat (r_start (rm_r r)) = unat base div 2 ^ k" "unat (r_end (rm_r r)) = (unat base + unat len) div 2 ^ k"
    using interval_eqD [OF X [unfolded extent_pages_def]] by simp_all
  then have "int_ranges i'" using small ext(1) by (simp add: int_ranges_def)
  moreover obtain rm where "i' = ?i\<lparr>ih_ranges := rm, ih_total := ih_total ?i + len\<rparr>" using ro r by auto
  then have flds: "page_heap i'" "\<not> ih_randomize i'" "ih_parent i' = None" "ih_page_order i' = k" "ih_pagesize i' = pagesize"
      "ih_allocated i' = 0"
    using e(3,7) f by (simp_all add: page_heap_def)
  moreover have "exact_count i'" using flds(6) i'(3) e(4) by (simp add: exact_count_def)
  ultimately have "client_inv (i', [])" using i'(2,3) e(4) by (simp add: client_inv_def)
  moreover have "create_id_heap True map_heap nodes junk base len pagesize = Some (Some i')"
    using e(1) i'(1) r by (simp add: create_id_heap_def)
  ultimately show ?thesis using flds(4,5) ext(1) X by blast
qed

lemma blocks_card:
  assumes "sorted_wrt (\<lambda>x y. block k x \<inter> block k y = {}) live"
  shows "card (\<Union>b \<in> set live. block k b) = sum_list (map snd live)"
  using assms
proof (induction live)
  case (Cons b live)
  have "finite (block k x)" "card (block k x) = snd x" for x by (simp_all add: block_def)
  moreover have "block k b \<inter> (\<Union>b \<in> set live. block k b) = {}" using Cons.prems by auto
  ultimately show ?case using Cons by (simp add: card_Un_disjoint)
qed simp

section \<open>Properties\<close>

text \<open>C3: A heap of ids made by \<^verbatim>\<open>create_id_heap\<close> on whole pages, and any sequence of allocations of 1 to 512 pages
  and frees of blocks the client holds: every operation returns (no assertion fails), the blocks held at
  any time are disjoint, inside the heap and aligned to the least power of two pages that holds
  them, exactly their pages are taken, and the heap's count of allocated bytes is their total size.\<close>

theorem id_heap_run_correct:
  assumes "unat pagesize = 2 ^ k" "k < 32" "heap_ok map_heap" "heap_grants map_heap"
    and "0 < unat len" "2 ^ k dvd unat base" "2 ^ k dvd unat len" "unat base + unat len < 2 ^ 60"
    and "(unat base + unat len) div 2 ^ k - unat base div 2 ^ k div 64 * 64 < 2 ^ 31"
    and ops: "\<forall>op \<in> set ops. op_ok op"
  shows "\<exists>i i' live. create_id_heap True map_heap nodes junk base len pagesize = Some (Some i) \<and>
     id_run palloc ops (i, []) = Some (i', live) \<and>
     sorted_wrt (\<lambda>x y. block k x \<inter> block k y = {}) live \<and>
     (\<forall>b \<in> set live. 2 ^ (k + find_order (snd b)) dvd unat (fst b) \<and>
        block k b \<subseteq> {unat base div 2 ^ k..<(unat base + unat len) div 2 ^ k}) \<and>
     id_taken i' = (\<Union>b \<in> set live. block k b) \<and>
     unat (ih_allocated i') = sum_list (map snd live) * 2 ^ k"
proof -
  obtain i e where i: "create_id_heap True map_heap nodes junk base len pagesize = Some (Some i)" "client_inv (i, [])"
      "ih_page_order i = k" "set (id_extents i) = {e}" "extent_pages e = {unat base div 2 ^ k..<(unat base + unat len) div 2 ^ k}"
    using create_id_heap_spec [OF assms(1-9), of nodes junk] by blast
  obtain i' live where run: "id_run palloc ops (i, []) = Some (i', live)" "client_inv (i', live)" "same_heap i i'"
    using id_run_spec [OF i(2) ops, of palloc] by (auto elim!: ensuresE)
  note sh = same_heap_client [OF run(3)]
  have po: "ih_page_order i' = k" using sh i(3) by simp
  have c: "sorted_wrt (\<lambda>x y. block k x \<inter> block k y = {}) live" "id_taken i' = (\<Union>b \<in> set live. block k b)" "exact_count i'"
    using run(2) po by (auto simp: client_inv_def)
  have "\<forall>b \<in> set live. block_ok i' b" using run(2) by (simp add: client_inv_def)
  then have "\<forall>b \<in> set live. 2 ^ (k + find_order (snd b)) dvd unat (fst b) \<and>
      block k b \<subseteq> {unat base div 2 ^ k..<(unat base + unat len) div 2 ^ k}"
    using i(4,5) po sh(7) by (auto simp: block_ok_def)
  moreover have "unat (ih_allocated i') = sum_list (map snd live) * 2 ^ k"
    using c(3) blocks_card [OF c(1)] unfolding exact_count_def c(2) po by simp
  ultimately show ?thesis using i(1) run(1) c(1,2) by blast
qed

definition no_range :: id_range where
  "no_range = \<lparr>rm_r = irange 0 0,
     ir_b = \<lparr>bm_maxbits = 0, bm_mapbits = 0, bm_map = None, bm_alloc_map = init_buffer 0 False []\<rparr>,
     ir_bitmap_start = 0, ir_next_bit = []\<rparr>"

theorem id_heap_run_witness:
  "\<exists>i i' live. create_id_heap True zero_heap (\<lambda>_. None) no_range 0x3000 0x100000 0x1000 = Some (Some i) \<and>
     id_run (\<lambda>_. 0) [IdAlloc 3 0, IdAlloc 64 0, IdFree 1, IdAlloc 512 0, IdAlloc 1 0] (i, []) = Some (i', live) \<and>
     sorted_wrt (\<lambda>x y. block 12 x \<inter> block 12 y = {}) live \<and>
     (\<forall>b \<in> set live. 2 ^ (12 + find_order (snd b)) dvd unat (fst b) \<and>
        block 12 b \<subseteq> {unat (0x3000 :: u64) div 2 ^ 12..<(unat (0x3000 :: u64) + unat (0x100000 :: u64)) div 2 ^ 12}) \<and>
     id_taken i' = (\<Union>b \<in> set live. block 12 b) \<and>
     unat (ih_allocated i') = sum_list (map snd live) * 2 ^ 12"
  by (rule id_heap_run_correct) simp_all


lemma small_id_heap:
  "\<exists>i. create_id_heap True zero_heap (\<lambda>_. None) no_range 0x3000 0x100000 0x1000 = Some (Some i) \<and> client_inv (i, []) \<and>
     ih_page_order i = 12"
  using create_id_heap_spec [of "0x1000" 12 zero_heap "0x100000" "0x3000" "\<lambda>_. None" no_range] by auto


text \<open>A heap of pages of one byte with a single range.\<close>

definition single_heap :: "bool \<Rightarrow> id_range \<Rightarrow> id_heap" where
  "single_heap randomize r =
     \<lparr>ih_pagesize = 1, ih_page_order = 0, ih_allocated = 0, ih_total = r_end (rm_r r), ih_randomize = randomize,
      ih_meta = True, ih_map = zero_heap, ih_parent = None,
      ih_ranges = \<lparr>rm_h = (\<lambda>_. None), rm_t = \<lparr>rb_root = Node Black Null r Null, rb_count = 1\<rparr>, rm_k = no_range\<rparr>\<rparr>"

definition page_range :: "bitmap \<Rightarrow> u64 list \<Rightarrow> id_range" where
  "page_range b next_bits =
     \<lparr>rm_r = irange 0 (of_nat (bm_maxbits b)), ir_b = b, ir_bitmap_start = 0, ir_next_bit = next_bits\<rparr>"

lemma single_heap_inv:
  assumes "ir_wf r"
  shows "id_inv (single_heap randomize r)" "rm_nodes (ih_ranges (single_heap randomize r)) = [r]"
    "id_taken (single_heap randomize r) = ir_taken r"
    "rangemap_first_node (ih_ranges (single_heap randomize r)) = Some r"
proof -
  show "rm_nodes (ih_ranges (single_heap randomize r)) = [r]" by (simp add: single_heap_def)
  then show "id_taken (single_heap randomize r) = ir_taken r" by (simp add: id_taken_def)
  show "rangemap_first_node (ih_ranges (single_heap randomize r)) = Some r"
    by (simp add: single_heap_def rangemap_first_node_def rbtree_find_first_hd hd_opt_def)
  have r: "unat (n_end r) < 2 ^ 60" "n_start r < n_end r" using assms by (simp_all add: ir_wf_def)
  then have "unat (n_end r) < 2 ^ 64" by simp
  then show "id_inv (single_heap randomize r)" using assms r
    by (simp add: single_heap_def id_inv_def rm_inv_def rmt.rb_inv_def rmt.ordered_def disjoint_sorted_def)
qed

lemma taken_map_bits: "bm_bits taken_map = {..<60} \<union> {64}"
proof -
  have m: "(0xFFFFFFFFFFFFFFF :: u64) = mask 60" by (simp add: mask_numeral)
  have "bit_at (bitmap_base taken_map) i \<longleftrightarrow> i < 60 \<or> i = 64" if "i < 128" for i
  proof (cases "i < 64")
    case True
    then show ?thesis by (simp add: bit_at_def taken_map_def m bit_simps)
  next
    case False
    with that have "i div 64 = 1" "i mod 64 = i - 64" by (simp_all add: div_nat_eqI mod_if)
    with False show ?thesis by (auto simp: bit_at_def taken_map_def bit_1_iff)
  qed
  then show ?thesis by (auto simp: bm_bits_def taken_map_wf(3)) (auto simp: taken_map_def)
qed

text \<open>C37: With randomization the start of a search need not be aligned to the order of the request, and \<^verbatim>\<open>id_alloc\<close> can
  return pages that are taken: on a valid heap whose pages 0 to 59 and 64 are taken, a request for four
  pages with a random number of 62 returns page 62, a block that contains page 64.\<close>

theorem id_alloc_randomized_overlap:
  "id_inv (single_heap True (page_range taken_map (replicate NEXT_BIT_COUNT 0))) \<and>
   64 \<in> id_taken (single_heap True (page_range taken_map (replicate NEXT_BIT_COUNT 0))) \<and>
   (\<exists>i'. id_alloc 62 palloc (single_heap True (page_range taken_map (replicate NEXT_BIT_COUNT 0))) 4 = Some (i', 62))"
proof -
  let ?r = "page_range taken_map (replicate NEXT_BIT_COUNT 0)"
  let ?i = "single_heap True ?r"
  have wf: "ir_wf ?r" using taken_map_wf by (auto simp: ir_wf_def page_range_def taken_map_bits)
  have "search_range ?r 4 WHOLE_RANGE = Some (irange 0 128)"
    by (simp add: search_range_def page_range_def taken_map_wf(3) WHOLE_RANGE_def infinity_def range_intersection_def
        range_empty_def range_span_def range_valid_def pad_u64_def pad_def u64_add_def find_order_4 Let_def max_def min_def)
  moreover have "search_start 62 ?i ?r 4 (irange 0 128) = 62"
    by (simp add: search_start_def single_heap_def find_order_4 range_span_def Let_def)
  moreover have "\<exists>b. bitmap_alloc_within_range taken_map 4 62 128 = Some (b, Some 62)"
    by (simp add: bitmap_alloc_within_range_def bitmap_alloc_internal_def taken_map_def find_order_4 u64_add_def Let_def
        alloc_words.simps bitmap_extend_def alloc_in_word.simps mask_numeral for_range_in_map_def word_op_at_def
        word_op_def words_loop.simps set_words_def)
  moreover have "pages_from_bytes ?i 4 = 4"
    by (simp add: pages_from_bytes_def single_heap_def pad_u64_def pad_def u64_add_def)
  ultimately have "\<exists>i'. id_alloc 62 palloc ?i 4 = Some (i', 62)"
    using single_heap_inv(4) [OF wf, of True]
    by (auto simp: id_alloc_def id_alloc_from_range_def alloc_from_ranges.simps [of _ _ _ _ "Some _"] page_range_def Let_def
        single_heap_def INVALID_PHYSICAL_def)
  then show ?thesis using single_heap_inv [OF wf] by (auto simp: ir_taken_def page_range_def taken_map_bits)
qed

text \<open>A bitmap of 4096 bits whose first 512 are taken.\<close>

definition half_map :: bitmap where
  "half_map =
     \<lparr>bm_maxbits = 4096, bm_mapbits = 4096, bm_map = Some zero_heap,
      bm_alloc_map = \<lparr>b_start = 0, b_end = 64, b_length = 64, b_wrapped = False,
        b_contents = replicate 8 (- 1) @ replicate 56 0\<rparr>\<rparr>"

lemma half_map_wf: "bitmap_wf half_map" "heap_grants (bm_heap half_map)" "bm_maxbits half_map = 4096"
  by (simp_all add: bitmap_wf_def half_map_def buffer_wf_def bm_heap_def)

lemma half_map_bits: "bm_bits half_map = {..<512}"
proof -
  have "bit_at (bitmap_base half_map) i \<longleftrightarrow> i < 512" if "i < 4096" for i
  proof -
    have "i div 64 < 64" "i div 64 < 8 \<longleftrightarrow> i < 512" using that by (simp_all add: div_less_iff_less_mult)
    then show ?thesis by (auto simp: bit_at_def half_map_def nth_append)
  qed
  then show ?thesis by (auto simp: bm_bits_def) (auto simp: half_map_def)
qed

text \<open>C38: Requests for more than 512 pages start their search where the last request of up to 512 pages ended, and so lose
  their alignment: on a valid heap whose first 512 pages are taken, a request for 1024 pages succeeds
  with an address that is not a multiple of 1024 pages.\<close>

theorem id_alloc_large_misaligned:
  "id_inv (single_heap False (page_range half_map (replicate 9 0 @ [512]))) \<and>
   (\<exists>i' a. id_alloc rnd palloc (single_heap False (page_range half_map (replicate 9 0 @ [512]))) 1024 = Some (i', a) \<and>
      a \<noteq> INVALID_PHYSICAL \<and> \<not> 1024 dvd unat a)"
proof -
  let ?r = "page_range half_map (replicate 9 0 @ [512])"
  let ?i = "single_heap False ?r"
  have fo: "find_order 1024 = 10" by (simp add: find_order_def msb.simps)
  have next_bit: "k < 10 \<Longrightarrow> (replicate 9 0 @ [512 :: u64]) ! k = (if k = 9 then 512 else 0)" for k
    by (auto simp: nth_append less_Suc_eq_le)
  have wf: "ir_wf ?r"
    using half_map_wf by (auto simp: ir_wf_def page_range_def half_map_bits NEXT_BIT_COUNT_def next_bit)
  have sr: "search_range ?r 1024 WHOLE_RANGE = Some (irange 0 4096)"
    by (simp add: search_range_def page_range_def half_map_wf(3) WHOLE_RANGE_def infinity_def range_intersection_def
        range_empty_def range_span_def range_valid_def pad_u64_def pad_def u64_add_def fo Let_def max_def min_def)
  have ss: "search_start rnd ?i ?r 1024 (irange 0 4096) = 512"
    by (simp add: search_start_def single_heap_def fo range_span_def Let_def get_next_bit_def NEXT_BIT_COUNT_def
        page_range_def next_bit point_in_range_def)
  have "ensures (bitmap_alloc_within_range half_map 1024 512 4096) (\<lambda>(b', f). found_in half_map 1024 512 4096 b' f)"
    using half_map_wf by (intro within_range_spec) (simp_all add: fo)
  then obtain b f where b: "bitmap_alloc_within_range half_map 1024 512 4096 = Some (b, f)" "found_in half_map 1024 512 4096 b f"
    by (auto elim!: ensuresE)
  have "fits half_map 1024 512" by (auto simp: fits_def half_map_bits half_map_wf(3))
  then obtain j m where j: "f = Some j" "j = 512 + m * 1024" "j + 1024 \<le> 4096"
    using b(2) by (cases f) (auto simp: found_in_def fo dest: spec [of _ 0])
  have u: "unat (of_nat j :: u64) = j" using j(3) by (simp add: unat_of_nat)
  have "\<not> 1024 dvd j" unfolding j(2) by presburger
  moreover have "(of_nat j :: u64) \<noteq> INVALID_PHYSICAL"
    using u j(3) by (auto simp: INVALID_PHYSICAL_def unsigned_minus_1_eq_mask mask_eq_exp_minus_1)
  moreover have "pages_from_bytes ?i 1024 = 1024"
    by (simp add: pages_from_bytes_def single_heap_def pad_u64_def pad_def u64_add_def)
  ultimately have "\<exists>i' a. id_alloc rnd palloc ?i 1024 = Some (i', a) \<and> a \<noteq> INVALID_PHYSICAL \<and> \<not> 1024 dvd unat a"
    using single_heap_inv(4) [OF wf, of False] sr ss b(1) j(1) u
    by (auto simp: id_alloc_def id_alloc_from_range_def alloc_from_ranges.simps [of _ _ _ _ "Some _"] page_range_def Let_def
        single_heap_def)
  then show ?thesis using single_heap_inv(1) [OF wf] by blast
qed

end
