(* ===== verification/Queue.thy ===== *)
theory Queue
  imports Bitmap
begin

text \<open>
  \<^verbatim>\<open>kernel/src/runtime/queue.h\<close> and \<^verbatim>\<open>queue.c\<close>: bounded queues for many producers and many consumers.

  The four counters of a queue are 32-bit words that wrap around. An enqueue reads \<^verbatim>\<open>prod_head\<close> and \<^verbatim>\<open>cons_tail\<close> at
  once, claims a slot by compare-and-swap on \<^verbatim>\<open>prod_head\<close>, stores the data, waits until \<^verbatim>\<open>prod_tail\<close> has
  reached its slot, and commits by advancing \<^verbatim>\<open>prod_tail\<close>; a dequeue does the same with \<^verbatim>\<open>cons_head\<close> and
  \<^verbatim>\<open>cons_tail\<close>. These pieces are one definition each. The operations compose them for a thread that runs alone;
  the step relation \<open>queue_step\<close> interleaves them for any number of threads. The memory is sequentially
  consistent in the model, which the barriers of the code provide on the supported processors.
\<close>

section \<open>Data\<close>

record queue =
  q_prod_head :: u32
  q_cons_tail :: u32
  q_cons_head :: u32
  q_prod_tail :: u32
  q_d :: "ptr list"
  q_order :: nat

definition queue_size :: "queue \<Rightarrow> u32" where
  "queue_size q = push_bit (q_order q) 1"

definition queue_idx :: "queue \<Rightarrow> u32 \<Rightarrow> nat" where
  "queue_idx q i = unat (i AND mask (q_order q))"

definition power_of_2 :: "nat \<Rightarrow> bool" where
  "power_of_2 n \<longleftrightarrow> 0 < n \<and> n AND (n - 1) = 0"

section \<open>Enqueue and dequeue\<close>

text \<open>What an attempt to claim a slot finds, from one read of two counters: no slot (no item), a slot, or \<open>None\<close> when the
  assertion fails.\<close>

datatype attempt = No_slot | Slot u32

definition enq_try :: "queue \<Rightarrow> attempt option" where
  "enq_try q =
     (if q_prod_head q - q_cons_tail q = queue_size q then Some No_slot
      else if q_prod_head q - q_cons_tail q < queue_size q then Some (Slot (q_prod_head q)) else None)"

text \<open>The claim of \<open>n\<close> words from \<open>head\<close> on; with several producers it fails if \<^verbatim>\<open>prod_head\<close> has moved.\<close>

definition enq_claim :: "bool \<Rightarrow> nat \<Rightarrow> u32 \<Rightarrow> queue \<Rightarrow> queue option" where
  "enq_claim multi n head q =
     (if multi \<and> q_prod_head q \<noteq> head then None else Some (q\<lparr>q_prod_head := head + of_nat n\<rparr>))"

definition enq_store :: "u32 \<Rightarrow> ptr list \<Rightarrow> queue \<Rightarrow> queue option" where
  "enq_store head ws q = map_option (\<lambda>d. q\<lparr>q_d := d\<rparr>) (memcpy_to (q_d q) (queue_idx q head) ws)"

text \<open>The commit; with several producers it waits for \<^verbatim>\<open>prod_tail\<close>, and \<open>None\<close> is the wait.\<close>

definition enq_commit :: "bool \<Rightarrow> nat \<Rightarrow> u32 \<Rightarrow> queue \<Rightarrow> queue option" where
  "enq_commit multi n head q =
     (if multi \<and> q_prod_tail q \<noteq> head then None else Some (q\<lparr>q_prod_tail := head + of_nat n\<rparr>))"

text \<open>\<^verbatim>\<open>_enqueue_common\<close> without interference: \<open>p\<close> is the argument and \<open>ws\<close> the words it stands for.\<close>

definition enqueue_common :: "queue \<Rightarrow> ptr \<Rightarrow> ptr list \<Rightarrow> bool \<Rightarrow> (queue \<times> bool) option" where
  "enqueue_common q p ws multi =
     (if p = INVALID_ADDRESS then Some (q, False)
      else if \<not> power_of_2 (length ws) then None
      else do {
        a \<leftarrow> enq_try q;
        case a of
          No_slot \<Rightarrow> Some (q, False)
        | Slot head \<Rightarrow> do {
            q \<leftarrow> enq_claim multi (length ws) head q;
            q \<leftarrow> enq_store head ws q;
            q \<leftarrow> enq_commit multi (length ws) head q;
            Some (q, True)
          }
      })"

definition deq_try :: "queue \<Rightarrow> attempt option" where
  "deq_try q =
     (if q_cons_head q = q_prod_tail q then Some No_slot
      else if q_prod_tail q - q_cons_head q \<le> queue_size q then Some (Slot (q_cons_head q)) else None)"

definition deq_claim :: "bool \<Rightarrow> nat \<Rightarrow> u32 \<Rightarrow> queue \<Rightarrow> queue option" where
  "deq_claim multi n head q =
     (if multi \<and> q_cons_head q \<noteq> head then None else Some (q\<lparr>q_cons_head := head + of_nat n\<rparr>))"

definition deq_load :: "u32 \<Rightarrow> nat \<Rightarrow> queue \<Rightarrow> ptr list option" where
  "deq_load head n q = mem_slice (q_d q) (queue_idx q head) n"

definition deq_commit :: "bool \<Rightarrow> nat \<Rightarrow> u32 \<Rightarrow> queue \<Rightarrow> queue option" where
  "deq_commit multi n head q =
     (if multi \<and> q_cons_tail q \<noteq> head then None else Some (q\<lparr>q_cons_tail := head + of_nat n\<rparr>))"

text \<open>\<^verbatim>\<open>_dequeue_common\<close> without interference: the words at the destination afterwards, of which an empty queue sets the
  first to \<^verbatim>\<open>INVALID_ADDRESS\<close>.\<close>

definition dequeue_common :: "queue \<Rightarrow> ptr list \<Rightarrow> bool \<Rightarrow> (queue \<times> ptr list) option" where
  "dequeue_common q dst multi =
     (if \<not> power_of_2 (length dst) then None
      else do {
        a \<leftarrow> deq_try q;
        case a of
          No_slot \<Rightarrow> Some (q, INVALID_ADDRESS # tl dst)
        | Slot head \<Rightarrow> do {
            q \<leftarrow> deq_claim multi (length dst) head q;
            ws \<leftarrow> deq_load head (length dst) q;
            q \<leftarrow> deq_commit multi (length dst) head q;
            Some (q, ws)
          }
      })"

definition enqueue :: "queue \<Rightarrow> ptr \<Rightarrow> (queue \<times> bool) option" where
  "enqueue q p = enqueue_common q p [p] True"

definition enqueue_single :: "queue \<Rightarrow> ptr \<Rightarrow> (queue \<times> bool) option" where
  "enqueue_single q p = enqueue_common q p [p] False"

definition dequeue :: "queue \<Rightarrow> (queue \<times> ptr) option" where
  "dequeue q = map_option (\<lambda>(q, ws). (q, hd ws)) (dequeue_common q [0] True)"

definition dequeue_single :: "queue \<Rightarrow> (queue \<times> ptr) option" where
  "dequeue_single q = map_option (\<lambda>(q, ws). (q, hd ws)) (dequeue_common q [0] False)"

definition enqueue_n :: "queue \<Rightarrow> ptr \<Rightarrow> ptr list \<Rightarrow> (queue \<times> bool) option" where
  "enqueue_n q p ws = enqueue_common q p ws True"

definition enqueue_n_single :: "queue \<Rightarrow> ptr \<Rightarrow> ptr list \<Rightarrow> (queue \<times> bool) option" where
  "enqueue_n_single q p ws = enqueue_common q p ws False"

definition dequeue_n :: "queue \<Rightarrow> ptr list \<Rightarrow> (queue \<times> ptr list \<times> bool) option" where
  "dequeue_n q dst = map_option (\<lambda>(q, ws). (q, ws, hd ws \<noteq> INVALID_ADDRESS)) (dequeue_common q dst True)"

definition dequeue_n_single :: "queue \<Rightarrow> ptr list \<Rightarrow> (queue \<times> ptr list \<times> bool) option" where
  "dequeue_n_single q dst = map_option (\<lambda>(q, ws). (q, ws, hd ws \<noteq> INVALID_ADDRESS)) (dequeue_common q dst False)"

section \<open>Inspection and creation\<close>

definition queue_length :: "queue \<Rightarrow> u64" where
  "queue_length q = ucast (q_prod_tail q - q_cons_head q)"

definition queue_empty :: "queue \<Rightarrow> bool" where
  "queue_empty q \<longleftrightarrow> q_prod_tail q = q_cons_head q"

definition queue_full :: "queue \<Rightarrow> bool" where
  "queue_full q \<longleftrightarrow> q_prod_tail q - q_cons_head q = queue_size q"

definition queue_peek_at :: "queue \<Rightarrow> u32 \<Rightarrow> ptr" where
  "queue_peek_at q idx =
     (if q_prod_tail q > q_cons_head q + idx then q_d q ! queue_idx q (q_cons_head q + idx) else INVALID_ADDRESS)"

definition queue_peek :: "queue \<Rightarrow> ptr" where
  "queue_peek q = queue_peek_at q 0"

definition queue_init :: "nat \<Rightarrow> queue" where
  "queue_init order =
     \<lparr>q_prod_head = 0, q_cons_tail = 0, q_cons_head = 0, q_prod_tail = 0, q_d = replicate (2 ^ order) 0, q_order = order\<rparr>"

text \<open>\<^verbatim>\<open>allocate_queue\<close>: \<open>mem\<close> says whether there is memory for a queue of the given order.\<close>

definition allocate_queue :: "(nat \<Rightarrow> bool) \<Rightarrow> nat \<Rightarrow> queue option" where
  "allocate_queue mem sz =
     (if sz = 0 then None
      else let order = find_order sz in if mem order then Some (queue_init order) else None)"

section \<open>Threads\<close>

text \<open>
  Producers and consumers, each at a point between two accesses to the queue: \<open>PTry\<close> and \<open>CTry\<close> before the read of
  the counters, \<open>PClaim\<close> and \<open>CClaim\<close> before the compare-and-swap, \<open>PStore\<close> and \<open>CLoad\<close> before the access to the
  data, \<open>PCommit\<close> and \<open>CCommit\<close> in the wait for the commit.
\<close>

datatype producer = PIdle | PTry ptr | PClaim ptr u32 | PStore ptr u32 | PCommit u32

datatype consumer = CIdle | CTry | CClaim u32 | CLoad u32 nat | CCommit ptr u32 nat

text \<open>
  The system, with its history: the items in the order their slots were claimed, how many items were claimed by
  consumers, and what the dequeues returned, each with the number of its claim. \<open>qs_failed\<close> says that an
  assertion failed or memory outside the queue was accessed.
\<close>

record queue_sys =
  qs_q :: queue
  qs_prod :: "nat \<Rightarrow> producer"
  qs_cons :: "nat \<Rightarrow> consumer"
  qs_log :: "ptr list"
  qs_claims :: nat
  qs_out :: "(nat \<times> ptr) list"
  qs_failed :: bool

definition set_prod :: "nat \<Rightarrow> producer \<Rightarrow> queue_sys \<Rightarrow> queue_sys" where
  "set_prod i p s = s\<lparr>qs_prod := (qs_prod s)(i := p)\<rparr>"

definition set_cons :: "nat \<Rightarrow> consumer \<Rightarrow> queue_sys \<Rightarrow> queue_sys" where
  "set_cons i c s = s\<lparr>qs_cons := (qs_cons s)(i := c)\<rparr>"

inductive queue_step :: "queue_sys \<Rightarrow> queue_sys \<Rightarrow> bool" where
  p_start: "qs_prod s i = PIdle \<Longrightarrow> p \<noteq> INVALID_ADDRESS \<Longrightarrow> queue_step s (set_prod i (PTry p) s)"
| p_full: "qs_prod s i = PTry p \<Longrightarrow> enq_try (qs_q s) = Some No_slot \<Longrightarrow> queue_step s (set_prod i PIdle s)"
| p_slot: "qs_prod s i = PTry p \<Longrightarrow> enq_try (qs_q s) = Some (Slot h) \<Longrightarrow> queue_step s (set_prod i (PClaim p h) s)"
| p_assert: "qs_prod s i = PTry p \<Longrightarrow> enq_try (qs_q s) = None \<Longrightarrow> queue_step s (s\<lparr>qs_failed := True\<rparr>)"
| p_retry: "qs_prod s i = PClaim p h \<Longrightarrow> enq_claim True 1 h (qs_q s) = None \<Longrightarrow> queue_step s (set_prod i (PTry p) s)"
| p_claim: "qs_prod s i = PClaim p h \<Longrightarrow> enq_claim True 1 h (qs_q s) = Some q \<Longrightarrow>
     queue_step s (set_prod i (PStore p h) (s\<lparr>qs_q := q, qs_log := qs_log s @ [p]\<rparr>))"
| p_store: "qs_prod s i = PStore p h \<Longrightarrow> enq_store h [p] (qs_q s) = Some q \<Longrightarrow>
     queue_step s (set_prod i (PCommit h) (s\<lparr>qs_q := q\<rparr>))"
| p_fault: "qs_prod s i = PStore p h \<Longrightarrow> enq_store h [p] (qs_q s) = None \<Longrightarrow> queue_step s (s\<lparr>qs_failed := True\<rparr>)"
| p_commit: "qs_prod s i = PCommit h \<Longrightarrow> enq_commit True 1 h (qs_q s) = Some q \<Longrightarrow>
     queue_step s (set_prod i PIdle (s\<lparr>qs_q := q\<rparr>))"
| c_start: "qs_cons s i = CIdle \<Longrightarrow> queue_step s (set_cons i CTry s)"
| c_empty: "qs_cons s i = CTry \<Longrightarrow> deq_try (qs_q s) = Some No_slot \<Longrightarrow> queue_step s (set_cons i CIdle s)"
| c_slot: "qs_cons s i = CTry \<Longrightarrow> deq_try (qs_q s) = Some (Slot h) \<Longrightarrow> queue_step s (set_cons i (CClaim h) s)"
| c_assert: "qs_cons s i = CTry \<Longrightarrow> deq_try (qs_q s) = None \<Longrightarrow> queue_step s (s\<lparr>qs_failed := True\<rparr>)"
| c_retry: "qs_cons s i = CClaim h \<Longrightarrow> deq_claim True 1 h (qs_q s) = None \<Longrightarrow> queue_step s (set_cons i CTry s)"
| c_claim: "qs_cons s i = CClaim h \<Longrightarrow> deq_claim True 1 h (qs_q s) = Some q \<Longrightarrow>
     queue_step s (set_cons i (CLoad h (qs_claims s)) (s\<lparr>qs_q := q, qs_claims := Suc (qs_claims s)\<rparr>))"
| c_load: "qs_cons s i = CLoad h k \<Longrightarrow> deq_load h 1 (qs_q s) = Some [p] \<Longrightarrow> queue_step s (set_cons i (CCommit p h k) s)"
| c_fault: "qs_cons s i = CLoad h k \<Longrightarrow> deq_load h 1 (qs_q s) = None \<Longrightarrow> queue_step s (s\<lparr>qs_failed := True\<rparr>)"
| c_commit: "qs_cons s i = CCommit p h k \<Longrightarrow> deq_commit True 1 h (qs_q s) = Some q \<Longrightarrow>
     queue_step s (set_cons i CIdle (s\<lparr>qs_q := q, qs_out := qs_out s @ [(k, p)]\<rparr>))"

inductive_cases queue_stepE: "queue_step s s'"

section \<open>Counters\<close>

text \<open>The counter that starts at \<open>w\<close> after \<open>k\<close> steps.\<close>

definition at :: "u32 \<Rightarrow> nat \<Rightarrow> u32" where
  "at w k = w + of_nat k"

lemma at_Suc: "at w k + 1 = at w (Suc k)"
  by (simp add: at_def add.commute add.left_commute)

lemma at_eq_iff:
  assumes "a < 2 ^ 32" "b < 2 ^ 32"
  shows "at w a = at w b \<longleftrightarrow> a = b"
proof -
  have "(of_nat a :: u32) = of_nat b \<longleftrightarrow> unat (of_nat a :: u32) = unat (of_nat b :: u32)" by (rule word_unat_eq_iff)
  then show ?thesis using assms by (simp add: at_def unat_of_nat take_bit_nat_eq_self)
qed

lemma at_diff: "b \<le> a \<Longrightarrow> a - b < 2 ^ 32 \<Longrightarrow> unat (at w a - at w b) = a - b"
proof -
  assume b: "b \<le> a" "a - b < 2 ^ 32"
  have "at w a - at w b = of_nat (a - b)" using b(1) by (simp add: at_def of_nat_diff)
  then show ?thesis using b(2) by (simp add: unat_of_nat take_bit_nat_eq_self)
qed

definition slot :: "nat \<Rightarrow> u32 \<Rightarrow> nat \<Rightarrow> nat" where
  "slot order w k = (unat w + k) mod 2 ^ order"

lemma queue_idx_at:
  assumes "q_order q \<le> 31"
  shows "queue_idx q (at w k) = slot (q_order q) w k"
proof -
  have "queue_idx q (at w k) = unat (at w k) mod 2 ^ q_order q"
    unfolding queue_idx_def take_bit_eq_mask [symmetric] by (simp add: unsigned_take_bit_eq take_bit_nat_def)
  moreover have "unat (at w k) = (unat w + k) mod 2 ^ 32"
    by (simp add: at_def unat_word_ariths unat_of_nat mod_add_right_eq)
  moreover have "(2 :: nat) ^ q_order q dvd 2 ^ 32" using assms by (intro le_imp_power_dvd) simp
  ultimately show ?thesis by (simp only: slot_def mod_mod_cancel)
qed

lemma slot_less: "slot order w k < 2 ^ order"
  by (simp add: slot_def)

lemma slot_eq: "slot order w j = slot order w k \<Longrightarrow> k \<le> j \<Longrightarrow> j < k + 2 ^ order \<Longrightarrow> j = k"
proof -
  assume e: "slot order w j = slot order w k" and l: "k \<le> j" "j < k + 2 ^ order"
  have "2 ^ order dvd (unat w + j) - (unat w + k)" using e l(1) by (simp add: slot_def mod_eq_dvd_iff_nat)
  moreover have "(unat w + j) - (unat w + k) < 2 ^ order" using l by simp
  ultimately have "j - k = 0" using dvd_imp_le by fastforce
  with l(1) show "j = k" by simp
qed

lemma size_unat:
  assumes "q_order q \<le> 31"
  shows "unat (queue_size q) = 2 ^ q_order q" "(2 :: nat) ^ q_order q < 2 ^ 32"
proof -
  show le: "(2 :: nat) ^ q_order q < 2 ^ 32" using assms by (intro power_strict_increasing) auto
  have "queue_size q = of_nat (2 ^ q_order q)" by (simp add: queue_size_def)
  then show "unat (queue_size q) = 2 ^ q_order q" using le by (simp add: unat_of_nat take_bit_nat_eq_self del: of_nat_power)
qed

section \<open>The invariant\<close>

text \<open>
  After \<open>length log\<close> claims and \<open>PT\<close> commits of producers, and \<open>claims\<close> claims and \<open>CT\<close> commits of consumers, the
  counters have moved that far from their start \<open>w\<close>.
\<close>

definition counters_ok :: "u32 \<Rightarrow> nat \<Rightarrow> nat \<Rightarrow> queue_sys \<Rightarrow> bool" where
  "counters_ok w PT CT s \<longleftrightarrow>
     q_prod_head (qs_q s) = at w (length (qs_log s)) \<and> q_prod_tail (qs_q s) = at w PT \<and>
     q_cons_head (qs_q s) = at w (qs_claims s) \<and> q_cons_tail (qs_q s) = at w CT \<and>
     CT \<le> qs_claims s \<and> qs_claims s \<le> PT \<and> PT \<le> length (qs_log s) \<and> length (qs_log s) \<le> CT + 2 ^ q_order (qs_q s) \<and>
     q_order (qs_q s) \<le> 31 \<and> length (q_d (qs_q s)) = 2 ^ q_order (qs_q s) \<and> \<not> qs_failed s"

definition datum :: "u32 \<Rightarrow> queue_sys \<Rightarrow> nat \<Rightarrow> ptr" where
  "datum w s k = q_d (qs_q s) ! slot (q_order (qs_q s)) w k"

definition prod_ok :: "u32 \<Rightarrow> nat \<Rightarrow> nat \<Rightarrow> queue_sys \<Rightarrow> producer \<Rightarrow> bool" where
  "prod_ok w PT CT s p \<longleftrightarrow>
     (case p of
        PClaim x h \<Rightarrow> \<exists>H. h = at w H \<and> H \<le> length (qs_log s) \<and> H < CT + 2 ^ q_order (qs_q s)
      | PStore x h \<Rightarrow> \<exists>k. h = at w k \<and> PT \<le> k \<and> k < length (qs_log s) \<and> qs_log s ! k = x
      | PCommit h \<Rightarrow> \<exists>k. h = at w k \<and> PT \<le> k \<and> k < length (qs_log s) \<and> datum w s k = qs_log s ! k
      | _ \<Rightarrow> True)"

definition cons_ok :: "u32 \<Rightarrow> nat \<Rightarrow> nat \<Rightarrow> queue_sys \<Rightarrow> consumer \<Rightarrow> bool" where
  "cons_ok w PT CT s c \<longleftrightarrow>
     (case c of
        CClaim h \<Rightarrow> \<exists>H. h = at w H \<and> H \<le> qs_claims s \<and> H < PT
      | CLoad h k \<Rightarrow> h = at w k \<and> CT \<le> k \<and> k < qs_claims s
      | CCommit p h k \<Rightarrow> h = at w k \<and> CT \<le> k \<and> k < qs_claims s \<and> p = qs_log s ! k
      | _ \<Rightarrow> True)"

text \<open>The slot a thread holds.\<close>

fun prod_slot :: "producer \<Rightarrow> u32 option" where
  "prod_slot (PStore p h) = Some h"
| "prod_slot (PCommit h) = Some h"
| "prod_slot _ = None"

fun cons_slot :: "consumer \<Rightarrow> u32 option" where
  "cons_slot (CLoad h k) = Some h"
| "cons_slot (CCommit p h k) = Some h"
| "cons_slot _ = None"

definition one_holder :: "(nat \<Rightarrow> u32 option) \<Rightarrow> bool" where
  "one_holder f \<longleftrightarrow> (\<forall>i j h. f i = Some h \<and> f j = Some h \<longrightarrow> i = j)"

definition all_held :: "(nat \<Rightarrow> u32 option) \<Rightarrow> u32 \<Rightarrow> nat \<Rightarrow> nat \<Rightarrow> bool" where
  "all_held f w lo hi \<longleftrightarrow> (\<forall>k. lo \<le> k \<and> k < hi \<longrightarrow> (\<exists>i. f i = Some (at w k)))"

definition queue_inv :: "u32 \<Rightarrow> nat \<Rightarrow> nat \<Rightarrow> queue_sys \<Rightarrow> bool" where
  "queue_inv w PT CT s \<longleftrightarrow>
     counters_ok w PT CT s \<and> (\<forall>i. prod_ok w PT CT s (qs_prod s i)) \<and> (\<forall>i. cons_ok w PT CT s (qs_cons s i)) \<and>
     one_holder (\<lambda>i. prod_slot (qs_prod s i)) \<and> one_holder (\<lambda>i. cons_slot (qs_cons s i)) \<and>
     all_held (\<lambda>i. prod_slot (qs_prod s i)) w PT (length (qs_log s)) \<and>
     all_held (\<lambda>i. cons_slot (qs_cons s i)) w CT (qs_claims s) \<and>
     (\<forall>k. CT \<le> k \<and> k < PT \<longrightarrow> datum w s k = qs_log s ! k) \<and>
     qs_out s = map (\<lambda>k. (k, qs_log s ! k)) [0..<CT]"

subsection \<open>Reading the counters\<close>

lemma enq_try_cases:
  assumes "counters_ok w PT CT s"
  shows "enq_try (qs_q s) =
     Some (if length (qs_log s) = CT + 2 ^ q_order (qs_q s) then No_slot else Slot (at w (length (qs_log s))))"
proof -
  let ?q = "qs_q s" and ?L = "length (qs_log s)"
  have c: "q_prod_head ?q = at w ?L" "q_cons_tail ?q = at w CT" "CT \<le> ?L" "?L \<le> CT + 2 ^ q_order ?q" "q_order ?q \<le> 31"
    using assms by (auto simp: counters_ok_def)
  note sz = size_unat [OF c(5)]
  have "?L - CT \<le> 2 ^ q_order ?q" using c(4) by simp
  then have "?L - CT < 2 ^ 32" using sz(2) by linarith
  then have d: "unat (q_prod_head ?q - q_cons_tail ?q) = ?L - CT" using at_diff [OF c(3), of w] c(1,2) by simp
  show ?thesis unfolding enq_try_def word_unat_eq_iff word_less_nat_alt d sz(1) using c by auto
qed

lemma deq_try_cases:
  assumes "counters_ok w PT CT s" "length (qs_log s) < 2 ^ 32"
  shows "deq_try (qs_q s) = Some (if qs_claims s = PT then No_slot else Slot (at w (qs_claims s)))"
proof -
  let ?q = "qs_q s" and ?H = "qs_claims s"
  have c: "q_cons_head ?q = at w ?H" "q_prod_tail ?q = at w PT" "CT \<le> ?H" "?H \<le> PT" "PT \<le> length (qs_log s)"
      "length (qs_log s) \<le> CT + 2 ^ q_order ?q" "q_order ?q \<le> 31"
    using assms(1) by (auto simp: counters_ok_def)
  note sz = size_unat [OF c(7)]
  have lt: "PT < 2 ^ 32" "?H < 2 ^ 32" using assms(2) c(4,5) by linarith+
  have "PT - ?H < 2 ^ 32" using lt by linarith
  then have d: "unat (q_prod_tail ?q - q_cons_head ?q) = PT - ?H" using at_diff [OF c(4), of w] c(1,2) by simp
  have "PT - ?H \<le> 2 ^ q_order ?q" using c(3-6) by linarith
  then show ?thesis unfolding deq_try_def word_le_nat_alt d sz(1) using c(1,2) at_eq_iff [OF lt(2,1)] by auto
qed

subsection \<open>Steps\<close>

lemma sys_simps [simp]:
  "qs_q (set_prod i p s) = qs_q s" "qs_log (set_prod i p s) = qs_log s" "qs_claims (set_prod i p s) = qs_claims s"
  "qs_out (set_prod i p s) = qs_out s" "qs_failed (set_prod i p s) = qs_failed s" "qs_cons (set_prod i p s) = qs_cons s"
  "qs_prod (set_prod i p s) = (qs_prod s)(i := p)"
  "qs_q (set_cons i c s) = qs_q s" "qs_log (set_cons i c s) = qs_log s" "qs_claims (set_cons i c s) = qs_claims s"
  "qs_out (set_cons i c s) = qs_out s" "qs_failed (set_cons i c s) = qs_failed s" "qs_prod (set_cons i c s) = qs_prod s"
  "qs_cons (set_cons i c s) = (qs_cons s)(i := c)"
  by (simp_all add: set_prod_def set_cons_def)

lemma datum_cong: "q_d (qs_q s') = q_d (qs_q s) \<Longrightarrow> q_order (qs_q s') = q_order (qs_q s) \<Longrightarrow> datum w s' = datum w s"
  by (simp add: datum_def fun_eq_iff)

lemma inv_set_prod:
  assumes "queue_inv w PT CT s" "prod_ok w PT CT s p" "prod_slot p = prod_slot (qs_prod s i)"
  shows "queue_inv w PT CT (set_prod i p s)"
proof -
  have "prod_slot (((qs_prod s)(i := p)) j) = prod_slot (qs_prod s j)" for j using assms(3) by simp
  moreover have "prod_ok w PT CT (set_prod i p s) = prod_ok w PT CT s" "cons_ok w PT CT (set_prod i p s) = cons_ok w PT CT s"
    by (simp_all add: fun_eq_iff prod_ok_def cons_ok_def datum_def cong: producer.case_cong consumer.case_cong)
  ultimately show ?thesis using assms(1,2) by (simp add: queue_inv_def counters_ok_def datum_def)
qed

lemma inv_set_cons:
  assumes "queue_inv w PT CT s" "cons_ok w PT CT s c" "cons_slot c = cons_slot (qs_cons s i)"
  shows "queue_inv w PT CT (set_cons i c s)"
proof -
  have "cons_slot (((qs_cons s)(i := c)) j) = cons_slot (qs_cons s j)" for j using assms(3) by simp
  moreover have "prod_ok w PT CT (set_cons i c s) = prod_ok w PT CT s" "cons_ok w PT CT (set_cons i c s) = cons_ok w PT CT s"
    by (simp_all add: fun_eq_iff prod_ok_def cons_ok_def datum_def cong: producer.case_cong consumer.case_cong)
  ultimately show ?thesis using assms(1,2) by (simp add: queue_inv_def counters_ok_def datum_def)
qed

lemma queue_invD:
  assumes "queue_inv w PT CT s"
  shows "counters_ok w PT CT s" "prod_ok w PT CT s (qs_prod s i)" "cons_ok w PT CT s (qs_cons s i)"
    "one_holder (\<lambda>i. prod_slot (qs_prod s i))" "one_holder (\<lambda>i. cons_slot (qs_cons s i))"
    "PT \<le> k \<Longrightarrow> k < length (qs_log s) \<Longrightarrow> \<exists>i. prod_slot (qs_prod s i) = Some (at w k)"
    "CT \<le> k \<Longrightarrow> k < qs_claims s \<Longrightarrow> \<exists>i. cons_slot (qs_cons s i) = Some (at w k)"
    "CT \<le> k \<Longrightarrow> k < PT \<Longrightarrow> datum w s k = qs_log s ! k"
    "qs_out s = map (\<lambda>k. (k, qs_log s ! k)) [0..<CT]"
  using assms by (simp_all add: queue_inv_def all_held_def)

lemma countersD:
  assumes "counters_ok w PT CT s"
  shows "CT \<le> qs_claims s" "qs_claims s \<le> PT" "PT \<le> length (qs_log s)" "length (qs_log s) \<le> CT + 2 ^ q_order (qs_q s)"
    "q_order (qs_q s) \<le> 31" "length (q_d (qs_q s)) = 2 ^ q_order (qs_q s)"
  using assms by (simp_all add: counters_ok_def)

text \<open>A slot that a producer holds is one of those between the commits and the claims.\<close>

lemma prod_slot_ok:
  assumes "prod_ok w PT CT s p" "prod_slot p = Some h"
  shows "\<exists>k. h = at w k \<and> PT \<le> k \<and> k < length (qs_log s)"
  using assms by (cases p) (auto simp: prod_ok_def)

lemma cons_slot_ok:
  assumes "cons_ok w PT CT s c" "cons_slot c = Some h"
  shows "\<exists>k. h = at w k \<and> CT \<le> k \<and> k < qs_claims s"
  using assms by (cases c) (auto simp: cons_ok_def)

lemma inv_p_claim:
  assumes inv: "queue_inv w PT CT s" and i: "qs_prod s i = PClaim p h" and c: "enq_claim True 1 h (qs_q s) = Some q"
    and small: "length (qs_log s) + 1 < 2 ^ 32"
  shows "queue_inv w PT CT (set_prod i (PStore p h) (s\<lparr>qs_q := q, qs_log := qs_log s @ [p]\<rparr>))" (is "queue_inv w PT CT ?s")
proof -
  let ?L = "length (qs_log s)"
  note D = queue_invD [OF inv] and C = queue_invD(1) [OF inv]
  note cs = countersD [OF C]
  have q: "q = (qs_q s)\<lparr>q_prod_head := h + 1\<rparr>" "q_prod_head (qs_q s) = h" using c by (auto simp: enq_claim_def split: if_splits)
  obtain H where H: "h = at w H" "H \<le> ?L" "H < CT + 2 ^ q_order (qs_q s)"
    using D(2) [of i] i by (auto simp: prod_ok_def)
  have "at w H = at w ?L" using C q(2) H(1) by (simp add: counters_ok_def)
  then have HL: "H = ?L" using at_eq_iff [of H ?L w] H(2) small by simp
  have cnt: "counters_ok w PT CT ?s" using C H HL q at_Suc [of w ?L] by (auto simp: counters_ok_def)
  have dat: "datum w ?s = datum w s" by (rule datum_cong) (simp_all add: q(1))
  have po: "prod_ok w PT CT ?s x" if "prod_ok w PT CT s x" for x
    using that dat q(1) by (cases x) (fastforce simp: prod_ok_def nth_append)+
  have co: "cons_ok w PT CT ?s x" if "cons_ok w PT CT s x" for x
    using that cs by (cases x) (auto simp: cons_ok_def nth_append)
  have new: "prod_ok w PT CT ?s (PStore p h)" using H(1) HL cs by (auto simp: prod_ok_def)
  have hold: "h \<noteq> h'" if h': "prod_slot (qs_prod s j) = Some h'" for j h'
  proof -
    obtain k where k: "h' = at w k" "k < ?L" using prod_slot_ok [OF D(2) h'] by auto
    then show ?thesis using H(1) HL at_eq_iff [of k ?L w] small by auto
  qed
  have one: "one_holder (\<lambda>j. prod_slot (qs_prod ?s j))" using D(4) hold unfolding one_holder_def by auto
  have held: "\<exists>j. prod_slot (qs_prod ?s j) = Some (at w k)" if k: "PT \<le> k" "k < length (qs_log ?s)" for k
  proof (cases "k = ?L")
    case True
    then show ?thesis using H(1) HL by (intro exI [of _ i]) simp
  next
    case False
    then obtain j where "prod_slot (qs_prod s j) = Some (at w k)" using D(6) [OF k(1)] k(2) by auto
    then show ?thesis using i by (intro exI [of _ j]) auto
  qed
  have "qs_out ?s = map (\<lambda>k. (k, qs_log ?s ! k)) [0..<CT]" using D(9) cs by (auto simp: nth_append)
  moreover have "\<forall>k. CT \<le> k \<and> k < PT \<longrightarrow> datum w ?s k = qs_log ?s ! k" using D(8) dat cs by (simp add: nth_append)
  ultimately show ?thesis
    unfolding queue_inv_def using cnt po D(2) co D(3) new one D(5,7) held by (simp add: all_held_def)
qed

lemma inv_p_store:
  assumes inv: "queue_inv w PT CT s" and i: "qs_prod s i = PStore p h" and c: "enq_store h [p] (qs_q s) = Some q"
    and small: "length (qs_log s) < 2 ^ 32"
  shows "queue_inv w PT CT (set_prod i (PCommit h) (s\<lparr>qs_q := q\<rparr>))" (is "queue_inv w PT CT ?s")
proof -
  let ?L = "length (qs_log s)" and ?o = "q_order (qs_q s)"
  note D = queue_invD [OF inv] and C = queue_invD(1) [OF inv]
  note cs = countersD [OF C]
  obtain k where k: "h = at w k" "PT \<le> k" "k < ?L" "qs_log s ! k = p" using D(2) [of i] i by (auto simp: prod_ok_def)
  have "slot ?o w k < length (q_d (qs_q s))" using slot_less cs(6) by simp
  then have q: "q = (qs_q s)\<lparr>q_d := (q_d (qs_q s))[slot ?o w k := p]\<rparr>"
    using c k(1) cs(5) by (auto simp: enq_store_def queue_idx_at upd_conv_take_nth_drop memcpy_to_def split: if_splits)
  have dat: "datum w ?s j = (if j = k then p else datum w s j)" if j: "CT \<le> j" "j < ?L" for j
  proof (cases "j = k")
    case True
    then show ?thesis using slot_less [of ?o w k] cs(6) by (simp add: datum_def q)
  next
    case False
    have "j < k + 2 ^ ?o" "k < j + 2 ^ ?o" using j k cs by linarith+
    then have "slot ?o w j \<noteq> slot ?o w k" using False slot_eq [of ?o w j k] slot_eq [of ?o w k j] by (cases "k \<le> j") auto
    then show ?thesis using False by (simp add: datum_def q)
  qed
  have cnt: "counters_ok w PT CT ?s" using C by (auto simp: counters_ok_def q)
  have po: "prod_ok w PT CT ?s (qs_prod s j)" if "j \<noteq> i" for j
  proof (cases "qs_prod s j")
    case (PCommit h')
    then obtain k' where k': "h' = at w k'" "PT \<le> k'" "k' < ?L" "datum w s k' = qs_log s ! k'"
      using D(2) [of j] by (auto simp: prod_ok_def)
    have "h' \<noteq> h" using D(4) that PCommit i by (auto simp: one_holder_def)
    then have "k' \<noteq> k" using k(1) k'(1) by auto
    then have "datum w ?s k' = qs_log s ! k'" using dat [of k'] k' cs by auto
    with PCommit k' show ?thesis by (auto simp: prod_ok_def)
  qed (use D(2) [of j] in \<open>auto simp: prod_ok_def q\<close>)
  have new: "prod_ok w PT CT ?s (PCommit h)" using k dat [of k] cs by (auto simp: prod_ok_def)
  have co: "cons_ok w PT CT ?s x" if "cons_ok w PT CT s x" for x using that by (cases x) (auto simp: cons_ok_def)
  have sl: "prod_slot (qs_prod ?s j) = prod_slot (qs_prod s j)" for j using i by simp
  have "datum w ?s j = qs_log ?s ! j" if "CT \<le> j" "j < PT" for j using dat [of j] D(8) [OF that] that k(2) cs by auto
  then show ?thesis
    unfolding queue_inv_def using cnt po new co D(3-7,9) unfolding sl by (simp add: all_held_def)
qed

lemma inv_p_commit:
  assumes inv: "queue_inv w PT CT s" and i: "qs_prod s i = PCommit h" and c: "enq_commit True 1 h (qs_q s) = Some q"
    and small: "length (qs_log s) < 2 ^ 32"
  shows "queue_inv w (Suc PT) CT (set_prod i PIdle (s\<lparr>qs_q := q\<rparr>))" (is "queue_inv w _ CT ?s")
proof -
  let ?L = "length (qs_log s)"
  note D = queue_invD [OF inv] and C = queue_invD(1) [OF inv]
  note cs = countersD [OF C]
  obtain k where k: "h = at w k" "PT \<le> k" "k < ?L" "datum w s k = qs_log s ! k" using D(2) [of i] i by (auto simp: prod_ok_def)
  have q: "q = (qs_q s)\<lparr>q_prod_tail := h + 1\<rparr>" "q_prod_tail (qs_q s) = h" using c by (auto simp: enq_commit_def split: if_splits)
  have "at w k = at w PT" using C q(2) k(1) by (simp add: counters_ok_def)
  then have kP: "k = PT" using at_eq_iff [of k PT w] k(2,3) small by simp
  have cnt: "counters_ok w (Suc PT) CT ?s" using C k(3) kP q k(1) at_Suc [of w PT] by (auto simp: counters_ok_def)
  have dat: "datum w ?s = datum w s" by (rule datum_cong) (simp_all add: q(1))
  have ne: "h' \<noteq> at w PT" if "prod_slot (qs_prod s j) = Some h'" "j \<noteq> i" for j h'
    using D(4) that i k(1) kP unfolding one_holder_def by (metis prod_slot.simps(2))
  have po: "prod_ok w (Suc PT) CT ?s (qs_prod s j)" if j: "j \<noteq> i" for j
  proof -
    have "Suc PT \<le> k'" if "prod_slot (qs_prod s j) = Some (at w k')" "PT \<le> k'" for k' using ne [OF that(1) j] that(2) by (cases "k' = PT") auto
    then show ?thesis using D(2) [of j] dat q(1) by (cases "qs_prod s j") (fastforce simp: prod_ok_def)+
  qed
  have co: "cons_ok w (Suc PT) CT ?s x" if "cons_ok w PT CT s x" for x
    using that by (cases x) (auto simp: cons_ok_def intro: less_SucI)
  have one: "one_holder (\<lambda>j. prod_slot (qs_prod ?s j))" using D(4) unfolding one_holder_def by auto
  have held: "\<exists>j. prod_slot (qs_prod ?s j) = Some (at w m)" if m: "Suc PT \<le> m" "m < ?L" for m
  proof -
    obtain j where j: "prod_slot (qs_prod s j) = Some (at w m)" using D(6) [of m] m by auto
    have "j \<noteq> i" using j i k(1) kP m at_eq_iff [of PT m w] k(3) small by auto
    then show ?thesis using j by (intro exI [of _ j]) simp
  qed
  have "datum w ?s j = qs_log ?s ! j" if "CT \<le> j" "j < Suc PT" for j using dat D(8) [of j] that k(4) kP by (cases "j = PT") auto
  then show ?thesis
    unfolding queue_inv_def using cnt po co one held D(3,5,7,9) by (simp add: all_held_def prod_ok_def [of _ _ _ _ PIdle])
qed

lemma inv_c_claim:
  assumes inv: "queue_inv w PT CT s" and i: "qs_cons s i = CClaim h" and c: "deq_claim True 1 h (qs_q s) = Some q"
    and small: "length (qs_log s) < 2 ^ 32"
  shows "queue_inv w PT CT (set_cons i (CLoad h (qs_claims s)) (s\<lparr>qs_q := q, qs_claims := Suc (qs_claims s)\<rparr>))"
    (is "queue_inv w PT CT ?s")
proof -
  let ?N = "qs_claims s"
  note D = queue_invD [OF inv] and C = queue_invD(1) [OF inv]
  note cs = countersD [OF C]
  have q: "q = (qs_q s)\<lparr>q_cons_head := h + 1\<rparr>" "q_cons_head (qs_q s) = h" using c by (auto simp: deq_claim_def split: if_splits)
  obtain H where H: "h = at w H" "H \<le> ?N" "H < PT" using D(3) [of i] i by (auto simp: cons_ok_def)
  have lt: "?N < 2 ^ 32" using cs small by linarith
  have "at w H = at w ?N" using C q(2) H(1) by (simp add: counters_ok_def)
  then have HN: "H = ?N" using at_eq_iff [of H ?N w] H(2) lt by simp
  have cnt: "counters_ok w PT CT ?s" using C H HN q at_Suc [of w ?N] by (auto simp: counters_ok_def)
  have dat: "datum w ?s = datum w s" by (rule datum_cong) (simp_all add: q(1))
  have po: "prod_ok w PT CT ?s x" if "prod_ok w PT CT s x" for x
    using that dat q(1) by (cases x) (fastforce simp: prod_ok_def)+
  have co: "cons_ok w PT CT ?s x" if "cons_ok w PT CT s x" for x
    using that by (cases x) (fastforce simp: cons_ok_def)+
  have new: "cons_ok w PT CT ?s (CLoad h ?N)" using H(1) HN cs by (auto simp: cons_ok_def)
  have hold: "h \<noteq> h'" if h': "cons_slot (qs_cons s j) = Some h'" for j h'
  proof -
    obtain k where k: "h' = at w k" "k < ?N" using cons_slot_ok [OF D(3) h'] by auto
    then show ?thesis using H(1) HN at_eq_iff [of k ?N w] lt by auto
  qed
  have one: "one_holder (\<lambda>j. cons_slot (qs_cons ?s j))" using D(5) hold unfolding one_holder_def by auto
  have held: "\<exists>j. cons_slot (qs_cons ?s j) = Some (at w k)" if k: "CT \<le> k" "k < qs_claims ?s" for k
  proof (cases "k = ?N")
    case True
    then show ?thesis using H(1) HN by (intro exI [of _ i]) simp
  next
    case False
    then obtain j where "cons_slot (qs_cons s j) = Some (at w k)" using D(7) [OF k(1)] k(2) by auto
    then show ?thesis using i by (intro exI [of _ j]) auto
  qed
  show ?thesis
    unfolding queue_inv_def using cnt po D(2) co D(3) new one D(4,6,8,9) held dat by (simp add: all_held_def)
qed

lemma inv_c_commit:
  assumes inv: "queue_inv w PT CT s" and i: "qs_cons s i = CCommit p h n" and c: "deq_commit True 1 h (qs_q s) = Some q"
    and small: "length (qs_log s) < 2 ^ 32"
  shows "queue_inv w PT (Suc CT) (set_cons i CIdle (s\<lparr>qs_q := q, qs_out := qs_out s @ [(n, p)]\<rparr>))" (is "queue_inv w PT _ ?s")
proof -
  note D = queue_invD [OF inv] and C = queue_invD(1) [OF inv]
  note cs = countersD [OF C]
  have n: "h = at w n" "CT \<le> n" "n < qs_claims s" "p = qs_log s ! n" using D(3) [of i] i by (auto simp: cons_ok_def)
  have q: "q = (qs_q s)\<lparr>q_cons_tail := h + 1\<rparr>" "q_cons_tail (qs_q s) = h" using c by (auto simp: deq_commit_def split: if_splits)
  have lt: "qs_claims s < 2 ^ 32" using cs small by linarith
  have "at w n = at w CT" using C q(2) n(1) by (simp add: counters_ok_def)
  then have nC: "n = CT" using at_eq_iff [of n CT w] n(2,3) lt by simp
  have cnt: "counters_ok w PT (Suc CT) ?s" using C n nC q at_Suc [of w CT] by (auto simp: counters_ok_def)
  have dat: "datum w ?s = datum w s" by (rule datum_cong) (simp_all add: q(1))
  have ne: "h' \<noteq> at w CT" if "cons_slot (qs_cons s j) = Some h'" "j \<noteq> i" for j h'
    using D(5) that i n(1) nC unfolding one_holder_def by (metis cons_slot.simps(2))
  have co: "cons_ok w PT (Suc CT) ?s (qs_cons s j)" if j: "j \<noteq> i" for j
  proof -
    have "Suc CT \<le> k" if "cons_slot (qs_cons s j) = Some (at w k)" "CT \<le> k" for k using ne [OF that(1) j] that(2) by (cases "k = CT") auto
    then show ?thesis using D(3) [of j] by (cases "qs_cons s j") (fastforce simp: cons_ok_def)+
  qed
  have po: "prod_ok w PT (Suc CT) ?s x" if "prod_ok w PT CT s x" for x
    using that dat q(1) by (cases x) (fastforce simp: prod_ok_def)+
  have one: "one_holder (\<lambda>j. cons_slot (qs_cons ?s j))" using D(5) unfolding one_holder_def by auto
  have held: "\<exists>j. cons_slot (qs_cons ?s j) = Some (at w m)" if m: "Suc CT \<le> m" "m < qs_claims s" for m
  proof -
    obtain j where j: "cons_slot (qs_cons s j) = Some (at w m)" using D(7) [of m] m by auto
    have "j \<noteq> i" using j i n(1) nC m at_eq_iff [of CT m w] lt by auto
    then show ?thesis using j by (intro exI [of _ j]) simp
  qed
  have "qs_out ?s = map (\<lambda>k. (k, qs_log ?s ! k)) [0..<Suc CT]" using D(9) n(4) nC by simp
  then show ?thesis
    unfolding queue_inv_def using cnt po D(2) co one held D(4,6,8) dat by (simp add: all_held_def cons_ok_def [of _ _ _ _ CIdle])
qed

lemma deq_load_ok:
  assumes inv: "queue_inv w PT CT s" and i: "qs_cons s i = CLoad h k"
  shows "deq_load h 1 (qs_q s) = Some [qs_log s ! k]"
proof -
  note D = queue_invD [OF inv] and C = queue_invD(1) [OF inv]
  note cs = countersD [OF C]
  have k: "h = at w k" "CT \<le> k" "k < qs_claims s" using D(3) [of i] i by (auto simp: cons_ok_def)
  have "slot (q_order (qs_q s)) w k < length (q_d (qs_q s))" using slot_less cs(6) by simp
  moreover have "datum w s k = qs_log s ! k" using D(8) k cs by simp
  ultimately show ?thesis
    unfolding deq_load_def k(1) queue_idx_at [OF cs(5)] by (simp add: datum_def take_Suc_conv_app_nth hd_drop_conv_nth take_Suc)
qed

lemma enq_store_ok:
  assumes inv: "queue_inv w PT CT s" and i: "qs_prod s i = PStore p h"
  shows "enq_store h [p] (qs_q s) \<noteq> None"
proof -
  note cs = countersD [OF queue_invD(1) [OF inv]]
  obtain k where "h = at w k" using queue_invD(2) [OF inv, of i] i by (auto simp: prod_ok_def)
  moreover have "slot (q_order (qs_q s)) w k < length (q_d (qs_q s))" for k using slot_less cs(6) by simp
  ultimately show ?thesis using cs(5) by (auto simp: enq_store_def queue_idx_at memcpy_to_def Suc_le_eq)
qed

lemma queue_inv_step:
  assumes inv: "queue_inv w PT CT s" and step: "queue_step s s'" and small: "length (qs_log s') < 2 ^ 32"
  shows "\<exists>PT CT. queue_inv w PT CT s'"
  using step
proof cases
  case (p_start i p)
  then show ?thesis using inv_set_prod [OF inv, of "PTry p" i] by (auto simp: prod_ok_def)
next
  case (p_full i p)
  then show ?thesis using inv_set_prod [OF inv, of PIdle i] by (auto simp: prod_ok_def)
next
  case (p_slot i p h)
  then have "h = at w (length (qs_log s))" "length (qs_log s) \<noteq> CT + 2 ^ q_order (qs_q s)"
    using enq_try_cases [OF queue_invD(1) [OF inv]] by (auto split: if_splits)
  then have "prod_ok w PT CT s (PClaim p h)"
    using countersD(4) [OF queue_invD(1) [OF inv]] by (auto simp: prod_ok_def intro!: exI [of _ "length (qs_log s)"])
  then show ?thesis using inv_set_prod [OF inv, of "PClaim p h" i] p_slot by auto
next
  case (p_assert i p)
  then show ?thesis using enq_try_cases [OF queue_invD(1) [OF inv]] by simp
next
  case (p_retry i p h)
  then show ?thesis using inv_set_prod [OF inv, of "PTry p" i] by (auto simp: prod_ok_def)
next
  case (p_claim i p h q)
  then show ?thesis using inv_p_claim [OF inv p_claim(2,3)] small by auto
next
  case (p_store i p h q)
  then show ?thesis using inv_p_store [OF inv p_store(2,3)] small by auto
next
  case (p_fault i p h)
  then show ?thesis using enq_store_ok [OF inv p_fault(2)] by simp
next
  case (p_commit i h q)
  then show ?thesis using inv_p_commit [OF inv p_commit(2,3)] small by auto
next
  case (c_start i)
  then show ?thesis using inv_set_cons [OF inv, of CTry i] by (auto simp: cons_ok_def)
next
  case (c_empty i)
  then show ?thesis using inv_set_cons [OF inv, of CIdle i] by (auto simp: cons_ok_def)
next
  case (c_slot i h)
  then have "h = at w (qs_claims s)" "qs_claims s \<noteq> PT"
    using deq_try_cases [OF queue_invD(1) [OF inv]] small by (auto split: if_splits)
  then have "cons_ok w PT CT s (CClaim h)"
    using countersD(2) [OF queue_invD(1) [OF inv]] by (auto simp: cons_ok_def intro!: exI [of _ "qs_claims s"])
  then show ?thesis using inv_set_cons [OF inv, of "CClaim h" i] c_slot by auto
next
  case (c_assert i)
  then show ?thesis using deq_try_cases [OF queue_invD(1) [OF inv]] small by simp
next
  case (c_retry i h)
  then show ?thesis using inv_set_cons [OF inv, of CTry i] by (auto simp: cons_ok_def)
next
  case (c_claim i h q)
  then show ?thesis using inv_c_claim [OF inv c_claim(2,3)] small by auto
next
  case (c_load i h k p)
  then have "cons_ok w PT CT s (CCommit p h k)"
    using queue_invD(3) [OF inv, of i] deq_load_ok [OF inv c_load(2)] by (auto simp: cons_ok_def)
  then show ?thesis using inv_set_cons [OF inv, of "CCommit p h k" i] c_load by auto
next
  case (c_fault i h k)
  then show ?thesis using deq_load_ok [OF inv c_fault(2)] by simp
next
  case (c_commit i p h k q)
  then show ?thesis using inv_c_commit [OF inv c_commit(2,3)] small by auto
qed

lemma queue_step_log: "queue_step s s' \<Longrightarrow> length (qs_log s) \<le> length (qs_log s')"
  by (cases rule: queue_step.cases) auto

text \<open>A queue nobody uses, empty, with its counters at \<open>w\<close>.\<close>

definition idle_queue :: "nat \<Rightarrow> u32 \<Rightarrow> ptr list \<Rightarrow> queue" where
  "idle_queue order w d =
     \<lparr>q_prod_head = w, q_cons_tail = w, q_cons_head = w, q_prod_tail = w, q_d = d, q_order = order\<rparr>"

definition queue_start :: "queue \<Rightarrow> queue_sys" where
  "queue_start q =
     \<lparr>qs_q = q, qs_prod = (\<lambda>_. PIdle), qs_cons = (\<lambda>_. CIdle), qs_log = [], qs_claims = 0, qs_out = [], qs_failed = False\<rparr>"

lemma queue_start_inv:
  assumes "order \<le> 31" "length d = 2 ^ order"
  shows "queue_inv w 0 0 (queue_start (idle_queue order w d))"
  using assms by (simp add: queue_inv_def queue_start_def idle_queue_def counters_ok_def prod_ok_def cons_ok_def one_holder_def
      all_held_def at_def)

lemma queue_reachable_inv:
  assumes "queue_step\<^sup>*\<^sup>* (queue_start (idle_queue order w d)) s" "order \<le> 31" "length d = 2 ^ order" "length (qs_log s) < 2 ^ 32"
  shows "\<exists>PT CT. queue_inv w PT CT s"
  using assms(1,4)
proof (induction rule: rtranclp_induct)
  case base
  then show ?case using queue_start_inv [OF assms(2,3)] by blast
next
  case (step s s')
  then have "length (qs_log s) < 2 ^ 32" using queue_step_log [of s s'] by linarith
  then show ?case using step queue_inv_step by blast
qed

subsection \<open>Progress\<close>

text \<open>The thread that holds the oldest uncommitted slot can always finish.\<close>

lemma prod_can_commit:
  assumes inv: "queue_inv w PT CT s" and small: "length (qs_log s) < 2 ^ 32" and PT: "PT < length (qs_log s)"
  shows "\<exists>s'. queue_step\<^sup>*\<^sup>* s s' \<and> queue_inv w (Suc PT) CT s' \<and> qs_log s' = qs_log s \<and> qs_claims s' = qs_claims s"
proof -
  obtain j where j: "prod_slot (qs_prod s j) = Some (at w PT)" using queue_invD(6) [OF inv order_refl PT] by blast
  obtain s1 where s1: "queue_step\<^sup>*\<^sup>* s s1" "queue_inv w PT CT s1" "qs_log s1 = qs_log s" "qs_claims s1 = qs_claims s"
      "qs_prod s1 j = PCommit (at w PT)"
  proof (cases "qs_prod s j")
    case (PStore p h)
    obtain q where q: "enq_store h [p] (qs_q s) = Some q" using enq_store_ok [OF inv PStore] by auto
    let ?s = "set_prod j (PCommit h) (s\<lparr>qs_q := q\<rparr>)"
    have "queue_step s ?s" by (rule p_store [OF PStore q])
    moreover have "queue_inv w PT CT ?s" by (rule inv_p_store [OF inv PStore q small])
    ultimately show ?thesis using that [of ?s] PStore j by auto
  next
    case (PCommit h)
    with j inv show ?thesis using that [of s] by auto
  qed (use j in auto)
  have "q_prod_tail (qs_q s1) = at w PT" using queue_invD(1) [OF s1(2)] by (simp add: counters_ok_def)
  then obtain q where q: "enq_commit True 1 (at w PT) (qs_q s1) = Some q" by (simp add: enq_commit_def)
  have "queue_step s1 (set_prod j PIdle (s1\<lparr>qs_q := q\<rparr>))" by (rule p_commit [OF s1(5) q])
  moreover have "queue_inv w (Suc PT) CT (set_prod j PIdle (s1\<lparr>qs_q := q\<rparr>))"
    by (rule inv_p_commit [OF s1(2,5) q]) (use s1(3) small in simp)
  ultimately show ?thesis using s1 by (intro exI [of _ "set_prod j PIdle (s1\<lparr>qs_q := q\<rparr>)"]) auto
qed

lemma cons_can_commit:
  assumes inv: "queue_inv w PT CT s" and small: "length (qs_log s) < 2 ^ 32" and CT: "CT < qs_claims s"
  shows "\<exists>s'. queue_step\<^sup>*\<^sup>* s s' \<and> queue_inv w PT (Suc CT) s' \<and> qs_log s' = qs_log s \<and> qs_claims s' = qs_claims s"
proof -
  obtain j where j: "cons_slot (qs_cons s j) = Some (at w CT)" using queue_invD(7) [OF inv order_refl CT] by blast
  obtain s1 p k where s1: "queue_step\<^sup>*\<^sup>* s s1" "queue_inv w PT CT s1" "qs_log s1 = qs_log s" "qs_claims s1 = qs_claims s"
      "qs_cons s1 j = CCommit p (at w CT) k"
  proof (cases "qs_cons s j")
    case (CLoad h k)
    let ?p = "qs_log s ! k"
    let ?s = "set_cons j (CCommit ?p h k) s"
    have l: "deq_load h 1 (qs_q s) = Some [?p]" by (rule deq_load_ok [OF inv CLoad])
    have "cons_ok w PT CT s (CCommit ?p h k)" using queue_invD(3) [OF inv, of j] CLoad by (simp add: cons_ok_def)
    then have "queue_inv w PT CT ?s" using inv_set_cons [OF inv] CLoad by simp
    moreover have "queue_step s ?s" by (rule c_load [OF CLoad l])
    ultimately show ?thesis using that [of ?s ?p k] CLoad j by auto
  next
    case (CCommit p h k)
    with j inv show ?thesis using that [of s p k] by auto
  qed (use j in auto)
  have "q_cons_tail (qs_q s1) = at w CT" using queue_invD(1) [OF s1(2)] by (simp add: counters_ok_def)
  then obtain q where q: "deq_commit True 1 (at w CT) (qs_q s1) = Some q" by (simp add: deq_commit_def)
  let ?s = "set_cons j CIdle (s1\<lparr>qs_q := q, qs_out := qs_out s1 @ [(k, p)]\<rparr>)"
  have "queue_step s1 ?s" by (rule c_commit [OF s1(5) q])
  moreover have "queue_inv w PT (Suc CT) ?s" by (rule inv_c_commit [OF s1(2,5) q]) (use s1(3) small in simp)
  ultimately show ?thesis using s1 by (intro exI [of _ ?s]) auto
qed

lemma queue_drain:
  assumes "queue_inv w PT CT s" "length (qs_log s) < 2 ^ 32"
  shows "\<exists>s'. queue_step\<^sup>*\<^sup>* s s' \<and> queue_inv w (length (qs_log s)) (qs_claims s) s' \<and> qs_log s' = qs_log s \<and> qs_claims s' = qs_claims s"
  using assms
proof (induction "(length (qs_log s) - PT) + (qs_claims s - CT)" arbitrary: s PT CT rule: less_induct)
  case less
  note cs = countersD [OF queue_invD(1) [OF less.prems(1)]]
  have rest: ?case
    if s1: "queue_step\<^sup>*\<^sup>* s s1" "queue_inv w PT1 CT1 s1" "qs_log s1 = qs_log s" "qs_claims s1 = qs_claims s"
      and lt: "(length (qs_log s) - PT1) + (qs_claims s - CT1) < (length (qs_log s) - PT) + (qs_claims s - CT)" for s1 PT1 CT1
    using less.hyps [of s1 PT1 CT1] s1 lt less.prems(2) by (auto intro: rtranclp_trans)
  show ?case
  proof (cases "PT < length (qs_log s)")
    case True
    then show ?thesis using prod_can_commit [OF less.prems True] rest [of _ "Suc PT" CT] by auto
  next
    case False
    then have PT: "PT = length (qs_log s)" using cs by simp
    show ?thesis
    proof (cases "CT < qs_claims s")
      case True
      then show ?thesis using cons_can_commit [OF less.prems True] rest [of _ PT "Suc CT"] by auto
    next
      case False
      then have "CT = qs_claims s" using cs by simp
      then show ?thesis using less.prems(1) PT by blast
    qed
  qed
qed

lemma queue_inv_out:
  assumes "queue_inv w PT CT s"
  shows "length (qs_out s) = CT" "map snd (qs_out s) = take CT (qs_log s)" "map fst (qs_out s) = [0..<CT]"
proof -
  note o = queue_invD(9) [OF assms] and cs = countersD [OF queue_invD(1) [OF assms]]
  show "length (qs_out s) = CT" "map fst (qs_out s) = [0..<CT]" unfolding o by (simp_all add: comp_def)
  have "map snd (qs_out s) = map ((!) (qs_log s)) [0..<CT]" unfolding o by simp
  then show "map snd (qs_out s) = take CT (qs_log s)" using cs by (intro nth_equalityI) auto
qed

section \<open>One thread\<close>

text \<open>A queue at rest that holds \<open>items\<close>, after \<open>m\<close> dequeues.\<close>

definition holds :: "u32 \<Rightarrow> nat \<Rightarrow> ptr list \<Rightarrow> queue \<Rightarrow> bool" where
  "holds w m items q \<longleftrightarrow>
     q_prod_head q = at w (m + length items) \<and> q_prod_tail q = at w (m + length items) \<and>
     q_cons_head q = at w m \<and> q_cons_tail q = at w m \<and>
     length items \<le> 2 ^ q_order q \<and> q_order q \<le> 31 \<and> length (q_d q) = 2 ^ q_order q \<and>
     (\<forall>j < length items. q_d q ! slot (q_order q) w (m + j) = items ! j)"

datatype queue_op = QEnqueue bool ptr | QDequeue bool

fun queue_do :: "queue_op \<Rightarrow> queue \<Rightarrow> (queue \<times> ptr) option" where
  "queue_do (QEnqueue multi p) q =
     map_option (\<lambda>(q, b). (q, of_bool b)) (if multi then enqueue q p else enqueue_single q p)"
| "queue_do (QDequeue multi) q = (if multi then dequeue q else dequeue_single q)"

fun queue_run :: "queue_op list \<Rightarrow> queue \<Rightarrow> (queue \<times> ptr list) option" where
  "queue_run [] q = Some (q, [])"
| "queue_run (op # ops) q = do {
     (q, r) \<leftarrow> queue_do op q;
     (q, rs) \<leftarrow> queue_run ops q;
     Some (q, r # rs)
   }"

text \<open>The same operations on a list of at most \<open>n\<close> items.\<close>

fun fifo_do :: "nat \<Rightarrow> queue_op \<Rightarrow> ptr list \<Rightarrow> ptr list \<times> ptr" where
  "fifo_do n (QEnqueue multi p) xs =
     (if p = INVALID_ADDRESS \<or> length xs = n then (xs, 0) else (xs @ [p], 1))"
| "fifo_do n (QDequeue multi) [] = ([], INVALID_ADDRESS)"
| "fifo_do n (QDequeue multi) (x # xs) = (xs, x)"

fun fifo_run :: "nat \<Rightarrow> queue_op list \<Rightarrow> ptr list \<Rightarrow> ptr list \<times> ptr list" where
  "fifo_run n [] xs = (xs, [])"
| "fifo_run n (op # ops) xs =
     (let (xs, r) = fifo_do n op xs; (xs, rs) = fifo_run n ops xs in (xs, r # rs))"

lemma holds_enqueue:
  assumes q: "holds w m items q" and p: "p \<noteq> INVALID_ADDRESS"
  shows "if length items = 2 ^ q_order q then enqueue_common q p [p] multi = Some (q, False)
    else \<exists>q'. enqueue_common q p [p] multi = Some (q', True) \<and> holds w m (items @ [p]) q' \<and> q_order q' = q_order q"
proof -
  let ?n = "m + length items" and ?o = "q_order q"
  have c: "q_prod_head q = at w ?n" "q_prod_tail q = at w ?n" "q_cons_tail q = at w m" "?o \<le> 31" "length (q_d q) = 2 ^ ?o"
      "length items \<le> 2 ^ ?o"
    using q by (auto simp: holds_def)
  note sz = size_unat [OF c(4)]
  have "unat (q_prod_head q - q_cons_tail q) = length items"
    using at_diff [of m ?n w] c(1,3,6) sz(2) by simp
  then have tr: "enq_try q = Some (if length items = 2 ^ ?o then No_slot else Slot (at w ?n))"
    unfolding enq_try_def word_unat_eq_iff word_less_nat_alt sz(1) using c by auto
  have idx: "queue_idx q (at w ?n) = slot ?o w ?n" by (rule queue_idx_at [OF c(4)])
  have sl: "slot ?o w ?n < length (q_d q)" using slot_less c(5) by simp
  let ?q = "q\<lparr>q_prod_head := at w (Suc ?n), q_d := (q_d q)[slot ?o w ?n := p], q_prod_tail := at w (Suc ?n)\<rparr>"
  have "enqueue_common q p [p] multi = (if length items = 2 ^ ?o then Some (q, False) else Some (?q, True))"
    using p tr c(1,2) sl idx at_Suc [of w ?n]
    by (simp add: enqueue_common_def power_of_2_def enq_claim_def enq_store_def enq_commit_def queue_idx_def
        upd_conv_take_nth_drop)
  moreover have "holds w m (items @ [p]) ?q" if ne: "length items \<noteq> 2 ^ ?o"
  proof -
    have "(q_d q)[slot ?o w ?n := p] ! slot ?o w (m + j) = (items @ [p]) ! j" if "j < Suc (length items)" for j
    proof (cases "j = length items")
      case True
      then show ?thesis using sl by simp
    next
      case False
      then have j: "j < length items" using that by simp
      have "slot ?o w ?n \<noteq> slot ?o w (m + j)" using slot_eq [of ?o w ?n "m + j"] j c(6) ne by auto
      then show ?thesis using q j by (simp add: holds_def nth_append)
    qed
    then show ?thesis using q ne by (simp add: holds_def)
  qed
  ultimately show ?thesis by auto
qed

lemma holds_dequeue:
  assumes q: "holds w m items q"
  shows "case items of
      [] \<Rightarrow> dequeue_common q [0] multi = Some (q, [INVALID_ADDRESS])
    | x # xs \<Rightarrow> \<exists>q'. dequeue_common q [0] multi = Some (q', [x]) \<and> holds w (Suc m) xs q' \<and> q_order q' = q_order q"
proof -
  let ?n = "m + length items" and ?o = "q_order q"
  have c: "q_cons_head q = at w m" "q_cons_tail q = at w m" "q_prod_tail q = at w ?n" "?o \<le> 31" "length (q_d q) = 2 ^ ?o"
      "length items \<le> 2 ^ ?o"
    using q by (auto simp: holds_def)
  note sz = size_unat [OF c(4)]
  have d: "unat (q_prod_tail q - q_cons_head q) = length items" using at_diff [of m ?n w] c(1,3,6) sz(2) by simp
  have "unat (t - h) = 0 \<longleftrightarrow> h = t" for t h :: u32 by (auto simp: unat_eq_0)
  then have "q_cons_head q = q_prod_tail q \<longleftrightarrow> items = []" using d by (metis length_0_conv)
  then have tr: "deq_try q = Some (if items = [] then No_slot else Slot (at w m))"
    unfolding deq_try_def word_le_nat_alt d sz(1) using c by auto
  have idx: "queue_idx q (at w m) = slot ?o w m" by (rule queue_idx_at [OF c(4)])
  have sl: "slot ?o w m < length (q_d q)" using slot_less c(5) by simp
  show ?thesis
  proof (cases items)
    case Nil
    with tr show ?thesis by (simp add: dequeue_common_def power_of_2_def)
  next
    case (Cons x xs)
    let ?q = "q\<lparr>q_cons_head := at w (Suc m), q_cons_tail := at w (Suc m)\<rparr>"
    have "q_d q ! slot ?o w m = x" using q Cons by (auto simp: holds_def dest!: spec [of _ 0])
    then have "take 1 (drop (slot ?o w m) (q_d q)) = [x]" using sl by (simp add: take_Suc hd_drop_conv_nth)
    then have "dequeue_common q [0] multi = Some (?q, [x])"
      using tr Cons c(1,2) sl idx at_Suc [of w m]
      by (simp add: dequeue_common_def power_of_2_def deq_claim_def deq_load_def deq_commit_def queue_idx_def)
    moreover have "holds w (Suc m) xs ?q" using q Cons by (fastforce simp: holds_def)
    ultimately show ?thesis using Cons by simp
  qed
qed

lemma queue_do_spec:
  assumes "holds w m items q"
  shows "\<exists>q' m'. queue_do op q = Some (q', snd (fifo_do (2 ^ q_order q) op items)) \<and>
     holds w m' (fst (fifo_do (2 ^ q_order q) op items)) q' \<and> q_order q' = q_order q"
proof (cases op)
  case (QEnqueue multi p)
  show ?thesis
  proof (cases "p = INVALID_ADDRESS")
    case True
    with QEnqueue assms show ?thesis by (auto simp: enqueue_def enqueue_single_def enqueue_common_def)
  next
    case False
    with QEnqueue assms holds_enqueue [OF assms False, of multi] show ?thesis
      by (auto simp: enqueue_def enqueue_single_def split: if_splits)
  qed
next
  case (QDequeue multi)
  with assms holds_dequeue [OF assms, of multi] show ?thesis
    by (cases items) (auto simp: dequeue_def dequeue_single_def split: if_splits)
qed

lemma queue_run_spec:
  assumes "holds w m items q"
  shows "\<exists>q' m'. queue_run ops q = Some (q', snd (fifo_run (2 ^ q_order q) ops items)) \<and>
     holds w m' (fst (fifo_run (2 ^ q_order q) ops items)) q'"
  using assms
proof (induction ops arbitrary: q m items)
  case (Cons op ops)
  obtain q1 m1 where s: "queue_do op q = Some (q1, snd (fifo_do (2 ^ q_order q) op items))"
      "holds w m1 (fst (fifo_do (2 ^ q_order q) op items)) q1" "q_order q1 = q_order q"
    using queue_do_spec [OF Cons.prems] by blast
  from Cons.IH [OF s(2)] s show ?case by (auto simp: case_prod_unfold Let_def)
qed auto

lemma unat_widen: "unat (ucast x :: u64) = unat x" for x :: u32
proof -
  have "unat x < 2 ^ 32" using unsigned_less [of x, where ?'a = nat] by simp
  then have "unat x < 2 ^ 64" by simp
  then show ?thesis by (simp add: unsigned_ucast_eq take_bit_nat_eq_self)
qed

section \<open>Properties\<close>

text \<open>C2: The queue for many producers and consumers, in every interleaving of their accesses, from any value of its
  counters and for fewer than \<open>2\<^sup>3\<^sup>2\<close> enqueued items: no assertion fails and no memory outside the queue is
  accessed; the items that dequeues return are, in the order of their commits, the first items enqueued, in
  the order of their claims, each exactly once; never more items are in the queue than it has slots; and when no
  operation is under way its length is the number of items enqueued and not dequeued.\<close>

theorem queue_fifo:
  assumes "order \<le> 31" "length d = 2 ^ order" "queue_step\<^sup>*\<^sup>* (queue_start (idle_queue order w d)) s"
    "length (qs_log s) < 2 ^ 32"
  shows "\<not> qs_failed s \<and> map snd (qs_out s) = take (length (qs_out s)) (qs_log s) \<and>
     map fst (qs_out s) = [0..<length (qs_out s)] \<and>
     length (qs_log s) \<le> length (qs_out s) + 2 ^ q_order (qs_q s) \<and>
     ((\<forall>i. prod_slot (qs_prod s i) = None \<and> cons_slot (qs_cons s i) = None) \<longrightarrow>
        unat (queue_length (qs_q s)) = length (qs_log s) - length (qs_out s))"
proof -
  obtain PT CT where inv: "queue_inv w PT CT s" using queue_reachable_inv [OF assms(3,1,2,4)] by blast
  note C = queue_invD(1) [OF inv] and cs = countersD [OF queue_invD(1) [OF inv]] and o = queue_inv_out [OF inv]
  have "unat (queue_length (qs_q s)) = length (qs_log s) - length (qs_out s)"
    if idle: "\<forall>i. prod_slot (qs_prod s i) = None \<and> cons_slot (qs_cons s i) = None"
  proof -
    have "PT = length (qs_log s)" using queue_invD(6) [OF inv, of PT] idle cs(3) by (cases "PT < length (qs_log s)") auto
    moreover have "CT = qs_claims s" using queue_invD(7) [OF inv, of CT] idle cs(1) by (cases "CT < qs_claims s") auto
    moreover have "unat (at w PT - at w (qs_claims s)) = PT - qs_claims s" using cs assms(4) by (intro at_diff) auto
    ultimately show ?thesis using C o(1) by (simp add: queue_length_def counters_ok_def unat_widen)
  qed
  with C cs o show ?thesis by (simp add: counters_ok_def)
qed

text \<open>A queue of two slots whose counters are about to wrap around.\<close>

definition two_slots :: queue_sys where
  "two_slots = queue_start (idle_queue 1 (- 1) [0, 0])"

theorem queue_fifo_witness:
  "\<exists>s. queue_step\<^sup>*\<^sup>* two_slots s \<and> qs_log s = [7] \<and> \<not> qs_failed s \<and>
     map snd (qs_out s) = take (length (qs_out s)) (qs_log s)"
proof -
  let ?s1 = "set_prod 0 (PTry 7) two_slots"
  let ?s2 = "set_prod 0 (PClaim 7 (- 1)) ?s1"
  let ?s3 = "set_prod 0 (PStore 7 (- 1)) (?s2\<lparr>qs_q := (qs_q ?s2)\<lparr>q_prod_head := 0\<rparr>, qs_log := qs_log ?s2 @ [7]\<rparr>)"
  have "queue_step two_slots ?s1"
    by (rule p_start) (simp_all add: two_slots_def queue_start_def INVALID_ADDRESS_def)
  moreover have "queue_step ?s1 ?s2"
    by (rule p_slot [where p = 7])
       (simp_all add: two_slots_def queue_start_def idle_queue_def enq_try_def queue_size_def)
  moreover have "queue_step ?s2 ?s3"
    by (rule p_claim) (simp_all add: two_slots_def queue_start_def idle_queue_def enq_claim_def)
  ultimately have r: "queue_step\<^sup>*\<^sup>* two_slots ?s3" by (meson rtranclp.rtrancl_into_rtrancl rtranclp.rtrancl_refl)
  have "qs_log ?s3 = [7]" by (simp add: two_slots_def queue_start_def)
  with r queue_fifo [of 1 "[0, 0]" "- 1" ?s3] show ?thesis unfolding two_slots_def [symmetric] by auto
qed



text \<open>C33: For one thread the queue is a bounded list: any sequence of \<^verbatim>\<open>enqueue\<close>, \<^verbatim>\<open>enqueue_single\<close>, \<^verbatim>\<open>dequeue\<close> and
  \<^verbatim>\<open>dequeue_single\<close> on a new queue returns, never waits, and answers as the list does, however often the counters
  wrap around.\<close>

theorem queue_refines_fifo:
  assumes "allocate_queue mem sz = Some q" "sz \<le> 2 ^ 31"
  shows "\<exists>q'. queue_run ops q = Some (q', snd (fifo_run (2 ^ find_order sz) ops []))"
proof -
  have q: "q = queue_init (find_order sz)" "0 < sz" using assms(1) by (auto simp: allocate_queue_def Let_def split: if_splits)
  have "2 ^ find_order sz < 2 * sz" using find_order_bounds [OF q(2)] by simp
  then have "(2 :: nat) ^ find_order sz < 2 ^ 32" using assms(2) by simp
  then have "find_order sz < 32" by (rule power_less_imp_less_exp [rotated]) simp
  then have "holds 0 0 [] q" by (simp add: q(1) queue_init_def holds_def at_def)
  moreover have "q_order q = find_order sz" by (simp add: q(1) queue_init_def)
  ultimately show ?thesis using queue_run_spec [of 0 0 "[]" q ops] by auto
qed

theorem queue_refines_fifo_witness:
  "\<exists>q q'. allocate_queue (\<lambda>_. True) 2 = Some q \<and>
     queue_run [QEnqueue True 5, QEnqueue False 6, QEnqueue True 7, QDequeue True, QDequeue False, QDequeue True] q =
       Some (q', [1, 1, 0, 5, 6, INVALID_ADDRESS])"
proof -
  have o: "find_order 2 = 1" by (simp add: find_order_def msb.simps)
  obtain q where q: "allocate_queue (\<lambda>_. True) 2 = Some q" by (simp add: allocate_queue_def Let_def)
  from queue_refines_fifo [OF q, of "[QEnqueue True 5, QEnqueue False 6, QEnqueue True 7, QDequeue True, QDequeue False, QDequeue True]"] q o
  show ?thesis by (auto simp: INVALID_ADDRESS_def)
qed


end
