(* ===== verification/Ringbuf.thy ===== *)
theory Ringbuf
  imports Bitmap
begin

text \<open>
  \<^verbatim>\<open>kernel/src/runtime/ringbuf.c\<close> and \<^verbatim>\<open>ringbuf.h\<close>: byte buffers whose contents wrap around.

  A ring buffer is a \<^verbatim>\<open>buffer\<close> whose offsets \<^verbatim>\<open>start\<close> and \<^verbatim>\<open>end\<close> only ever grow and are reduced modulo the length, a
  power of two, when they are used. They are 64-bit words here, because \<^verbatim>\<open>ringbuf_unconsume\<close> may take \<^verbatim>\<open>start\<close>
  below zero and the code relies on the wrap-around. The heap of the buffer is an argument of the operations
  that allocate.
\<close>

section \<open>Data\<close>

record 'c ringbuf =
  rb_start :: u64
  rb_end :: u64
  rb_length :: nat
  rb_contents :: "'c list"

definition ringbuf_length :: "'c ringbuf \<Rightarrow> nat" where
  "ringbuf_length b = unat (rb_end b - rb_start b)"

definition allocate_ringbuf :: "'c heap \<Rightarrow> nat \<Rightarrow> 'c ringbuf option" where
  "allocate_ringbuf h len =
     map_option (\<lambda>c. \<lparr>rb_start = 0, rb_end = 0, rb_length = 2 ^ find_order len, rb_contents = c\<rparr>) (h (2 ^ find_order len))"

definition ringbuf_produce :: "'c ringbuf \<Rightarrow> nat \<Rightarrow> 'c ringbuf" where
  "ringbuf_produce b len = b\<lparr>rb_end := rb_end b + of_nat len\<rparr>"

definition ringbuf_consume :: "'c ringbuf \<Rightarrow> nat \<Rightarrow> 'c ringbuf" where
  "ringbuf_consume b len = b\<lparr>rb_start := rb_start b + of_nat len\<rparr>"

definition ringbuf_unconsume :: "'c ringbuf \<Rightarrow> nat \<Rightarrow> 'c ringbuf" where
  "ringbuf_unconsume b len = b\<lparr>rb_start := rb_start b - of_nat len\<rparr>"

definition ringbuf_space :: "'c ringbuf \<Rightarrow> nat" where
  "ringbuf_space b = rb_length b - ringbuf_length b"

section \<open>Operations\<close>

definition ring_index :: "'c ringbuf \<Rightarrow> u64 \<Rightarrow> nat" where
  "ring_index b off = unat (off AND of_nat (rb_length b - 1))"

definition ringbuf_write_at :: "'c ringbuf \<Rightarrow> u64 \<Rightarrow> 'c list \<Rightarrow> 'c ringbuf option" where
  "ringbuf_write_at b dest_offset src = do {
     let dest = ring_index b dest_offset;
     let avail = min (length src) (rb_length b - dest);
     c \<leftarrow> memcpy_to (rb_contents b) dest (take avail src);
     c \<leftarrow> (if avail < length src then memcpy_to c 0 (drop avail src) else Some c);
     Some (b\<lparr>rb_contents := c\<rparr>)
   }"

text \<open>\<^verbatim>\<open>ringbuf_peek\<close>: the inner option is the refusal when the buffer holds too little.\<close>

definition ringbuf_peek :: "'c ringbuf \<Rightarrow> nat \<Rightarrow> 'c list option option" where
  "ringbuf_peek b len =
     (if ringbuf_length b < len then Some None
      else do {
        let start = ring_index b (rb_start b);
        let avail = min len (rb_length b - start);
        d \<leftarrow> mem_slice (rb_contents b) start avail;
        d' \<leftarrow> (if avail < len then mem_slice (rb_contents b) 0 (len - avail) else Some []);
        Some (Some (d @ d'))
      })"

definition ringbuf_read :: "'c ringbuf \<Rightarrow> nat \<Rightarrow> ('c ringbuf \<times> 'c list option) option" where
  "ringbuf_read b len = do {
     d \<leftarrow> ringbuf_peek b len;
     case d of None \<Rightarrow> Some (b, None) | Some d \<Rightarrow> Some (ringbuf_consume b len, Some d)
   }"

definition ringbuf_set_capacity :: "'c heap \<Rightarrow> 'c ringbuf \<Rightarrow> nat \<Rightarrow> ('c ringbuf \<times> nat) option" where
  "ringbuf_set_capacity h b len =
     (let len = (if len < ringbuf_length b then ringbuf_length b else len);
          len = 2 ^ find_order len
      in if len \<noteq> rb_length b then
           (case h len of
              None \<Rightarrow> Some (b, rb_length b)
            | Some new \<Rightarrow> do {
                d \<leftarrow> ringbuf_peek b (ringbuf_length b);
                new \<leftarrow> (case d of None \<Rightarrow> Some new | Some d \<Rightarrow> memcpy_to new 0 d);
                Some (b\<lparr>rb_length := len, rb_end := rb_end b - rb_start b, rb_start := 0, rb_contents := new\<rparr>, len)
              })
         else Some (b, len))"

definition ringbuf_extend :: "'c heap \<Rightarrow> 'c ringbuf \<Rightarrow> nat \<Rightarrow> ('c ringbuf \<times> bool) option" where
  "ringbuf_extend h b len =
     (if ringbuf_space b < len
      then let new_len = (if len \<le> rb_length b then 2 * rb_length b else 2 ^ (find_order len + 1))
           in map_option (\<lambda>(b, r). (b, r = new_len)) (ringbuf_set_capacity h b new_len)
      else Some (b, True))"

definition ringbuf_write :: "'c heap \<Rightarrow> 'c ringbuf \<Rightarrow> 'c list \<Rightarrow> ('c ringbuf \<times> bool) option" where
  "ringbuf_write h b src = do {
     (b, ok) \<leftarrow> ringbuf_extend h b (length src);
     if \<not> ok then Some (b, False)
     else do {
       b \<leftarrow> ringbuf_write_at b (rb_end b) src;
       Some (ringbuf_produce b (length src), True)
     }
   }"

definition ringbuf_memset :: "'c heap \<Rightarrow> 'c ringbuf \<Rightarrow> 'c \<Rightarrow> nat \<Rightarrow> ('c ringbuf \<times> bool) option" where
  "ringbuf_memset h b c len = do {
     (b, ok) \<leftarrow> ringbuf_extend h b len;
     if \<not> ok then Some (b, False)
     else do {
       let d = ring_index b (rb_end b);
       let avail = min len (rb_length b - d);
       s \<leftarrow> memcpy_to (rb_contents b) d (replicate avail c);
       s \<leftarrow> (if avail < len then memcpy_to s 0 (replicate (len - avail) c) else Some s);
       Some (ringbuf_produce (b\<lparr>rb_contents := s\<rparr>) len, True)
     }
   }"

definition ringbuf_overwrite :: "'c ringbuf \<Rightarrow> nat \<Rightarrow> 'c list \<Rightarrow> 'c ringbuf option" where
  "ringbuf_overwrite b offset src = ringbuf_write_at b (rb_start b + of_nat offset) src"

section \<open>The bytes of a ring buffer\<close>

definition ringbuf_wf :: "'c ringbuf \<Rightarrow> bool" where
  "ringbuf_wf b \<longleftrightarrow> (\<exists>k < 64. rb_length b = 2 ^ k) \<and> length (rb_contents b) = rb_length b \<and> ringbuf_length b \<le> rb_length b"

definition ring_at :: "'c ringbuf \<Rightarrow> nat \<Rightarrow> 'c" where
  "ring_at b i = rb_contents b ! ((unat (rb_start b) + i) mod rb_length b)"

definition ring_list :: "'c ringbuf \<Rightarrow> 'c list" where
  "ring_list b = map (ring_at b) [0..<ringbuf_length b]"

lemma ring_list_length [simp]: "length (ring_list b) = ringbuf_length b"
  by (simp add: ring_list_def)

lemma ring_list_nth [simp]: "i < ringbuf_length b \<Longrightarrow> ring_list b ! i = ring_at b i"
  by (simp add: ring_list_def)

lemma ring_index_mod:
  assumes "k < 64" "rb_length b = 2 ^ k"
  shows "ring_index b off = unat off mod rb_length b"
proof -
  have "(of_nat (2 ^ k - 1) :: u64) = mask k" by (simp add: mask_eq_exp_minus_1 of_nat_diff)
  then have "ring_index b off = unat (take_bit k off)" by (simp add: ring_index_def assms(2) take_bit_eq_mask)
  then show ?thesis by (simp add: assms(2) unsigned_take_bit_eq take_bit_nat_def)
qed

lemma unat_add_mod_length:
  fixes x :: u64
  assumes "k < 64"
  shows "unat (x + of_nat n) mod 2 ^ k = (unat x + n) mod 2 ^ k"
proof -
  have "unat (x + of_nat n) = (unat x + n) mod 2 ^ 64" by (simp add: unat_word_ariths unat_of_nat mod_add_right_eq)
  moreover have "(2 :: nat) ^ k dvd 2 ^ 64" using assms by (intro le_imp_power_dvd) simp
  ultimately show ?thesis by (simp only: mod_mod_cancel)
qed

lemma ring_wrap:
  fixes d L i :: nat
  assumes "d < L" "i < L"
  shows "(d + i) mod L = (if d + i < L then d + i else d + i - L)"
proof (cases "d + i < L")
  case False
  then have "(d + i) mod L = (d + i - L) mod L" by (simp add: le_mod_geq)
  with False assms show ?thesis by simp
qed simp

lemma ring_position:
  fixes x L i :: nat
  assumes "0 < L" "i < L"
  shows "(x + i) mod L = (if x mod L + i < L then x mod L + i else x mod L + i - L)"
proof -
  have "(x + i) mod L = (x mod L + i) mod L" by (simp add: mod_add_left_eq)
  moreover have "x mod L < L" using assms(1) by simp
  ultimately show ?thesis using ring_wrap [of "x mod L" L i] assms(2) by simp
qed

text \<open>The effect of the two copies of \<^verbatim>\<open>ringbuf_write_at\<close> on the cells, by their distance from the place written.\<close>

definition ring_put :: "nat \<Rightarrow> 'c list \<Rightarrow> 'c list \<Rightarrow> 'c list option" where
  "ring_put d src C = do {
     let avail = min (length src) (length C - d);
     c \<leftarrow> memcpy_to C d (take avail src);
     if avail < length src then memcpy_to c 0 (drop avail src) else Some c
   }"

lemma ring_put_spec:
  assumes d: "d < length C" and n: "length src \<le> length C"
  shows "\<exists>c. ring_put d src C = Some c \<and> length c = length C \<and>
     (\<forall>i < length C. c ! ((d + i) mod length C) = (if i < length src then src ! i else C ! ((d + i) mod length C)))"
proof -
  let ?L = "length C" and ?n = "length src"
  have pos: "(d + i) mod ?L = (if d + i < ?L then d + i else d + i - ?L)" if "i < ?L" for i
    by (rule ring_wrap [OF d that])
  show ?thesis
  proof (cases "?n \<le> ?L - d")
    case True
    then have "ring_put d src C = Some (take d C @ src @ drop (d + ?n) C)" using d by (simp add: ring_put_def Let_def)
    moreover have "(take d C @ src @ drop (d + ?n) C) ! ((d + i) mod ?L) = (if i < ?n then src ! i else C ! ((d + i) mod ?L))"
      if "i < ?L" for i
      unfolding pos [OF that] using d True that by (auto simp: nth_append)
    ultimately show ?thesis using d True by auto
  next
    case False
    let ?a = "?L - d"
    let ?c = "drop ?a src @ drop (?n - ?a) (take d C @ take ?a src)"
    have a: "min ?n ?a = ?a" "?a < ?n" using False by auto
    have "ring_put d src C = Some ?c" using d n a by (simp add: ring_put_def Let_def)
    moreover have "?c ! ((d + i) mod ?L) = (if i < ?n then src ! i else C ! ((d + i) mod ?L))" if "i < ?L" for i
      unfolding pos [OF that] using d n a that by (auto simp: nth_append min_def)
    ultimately show ?thesis using d n a by auto
  qed
qed

lemma write_at_put:
  assumes "ringbuf_wf b"
  shows "ringbuf_write_at b off src =
     map_option (\<lambda>c. b\<lparr>rb_contents := c\<rparr>) (ring_put (unat off mod rb_length b) src (rb_contents b))"
proof -
  obtain k where "k < 64" "rb_length b = 2 ^ k" "length (rb_contents b) = rb_length b" using assms by (auto simp: ringbuf_wf_def)
  then show ?thesis
    by (simp add: ringbuf_write_at_def ring_put_def ring_index_mod map_conv_bind_option Let_def comp_def)
qed

lemma ringbuf_peek_spec:
  assumes wf: "ringbuf_wf b"
  shows "ringbuf_peek b len = Some (if ringbuf_length b < len then None else Some (take len (ring_list b)))"
proof (cases "ringbuf_length b < len")
  case True
  then show ?thesis by (simp add: ringbuf_peek_def)
next
  case False
  obtain k where k: "k < 64" "rb_length b = 2 ^ k" and L: "length (rb_contents b) = rb_length b" "ringbuf_length b \<le> rb_length b"
    using wf by (auto simp: ringbuf_wf_def)
  let ?L = "rb_length b" and ?C = "rb_contents b"
  let ?d = "unat (rb_start b) mod ?L"
  have d: "?d < ?L" using k(2) by simp
  have len: "len \<le> ?L" using False L(2) by simp
  have take: "take len (ring_list b) = map (ring_at b) [0..<len]" using False by (simp add: ring_list_def take_map take_upt)
  have "ring_at b i = (if ?d + i < ?L then ?C ! (?d + i) else ?C ! (?d + i - ?L))" if "i < len" for i
    unfolding ring_at_def using ring_position [of ?L i "unat (rb_start b)"] that len d by simp
  then have "map (ring_at b) [0..<len] =
      take (min len (?L - ?d)) (drop ?d ?C) @ (if min len (?L - ?d) < len then take (len - min len (?L - ?d)) ?C else [])"
    using L(1) d len by (intro nth_equalityI) (auto simp: nth_append min_def add.commute)
  with False take d L(1) len show ?thesis
    by (auto simp: ringbuf_peek_def ring_index_mod [OF k] Let_def)
qed

lemma ringbuf_write_at_spec:
  assumes wf: "ringbuf_wf b" and p: "p + length src \<le> rb_length b"
  shows "\<exists>c. ringbuf_write_at b (rb_start b + of_nat p) src = Some (b\<lparr>rb_contents := c\<rparr>) \<and> length c = rb_length b \<and>
     (\<forall>i < rb_length b. c ! ((unat (rb_start b) + i) mod rb_length b) =
        (if p \<le> i \<and> i < p + length src then src ! (i - p) else ring_at b i))"
proof -
  let ?L = "rb_length b" and ?s = "unat (rb_start b)"
  obtain k where k: "k < 64" "?L = 2 ^ k" and C: "length (rb_contents b) = ?L" using wf by (auto simp: ringbuf_wf_def)
  let ?d = "unat (rb_start b + of_nat p) mod ?L"
  have d: "?d = (?s + p) mod ?L" using unat_add_mod_length [OF k(1)] k(2) by simp
  have "?d < length (rb_contents b)" "length src \<le> length (rb_contents b)" using p C k(2) by simp_all
  from ring_put_spec [OF this] obtain c
    where c: "ring_put ?d src (rb_contents b) = Some c" "length c = ?L" and
      put: "i < ?L \<Longrightarrow> c ! ((?d + i) mod ?L) = (if i < length src then src ! i else rb_contents b ! ((?d + i) mod ?L))" for i
    unfolding C by blast
  have "c ! ((?s + i) mod ?L) = (if p \<le> i \<and> i < p + length src then src ! (i - p) else ring_at b i)" if i: "i < ?L" for i
  proof -
    let ?j = "if p \<le> i then i - p else ?L - p + i"
    have j: "?j < ?L" "?j < length src \<longleftrightarrow> p \<le> i \<and> i < p + length src" using i p by auto
    have "(?d + ?j) mod ?L = (?s + p + ?j) mod ?L" unfolding d by (simp add: mod_add_left_eq)
    also have "\<dots> = (?s + i) mod ?L"
    proof (cases "p \<le> i")
      case False
      then have "?s + p + ?j = ?s + i + ?L" using p by simp
      then show ?thesis by (simp only: mod_add_self2)
    qed simp
    finally have e: "(?d + ?j) mod ?L = (?s + i) mod ?L" .
    show ?thesis using put [OF j(1)] j(2) unfolding e by (auto simp: ring_at_def)
  qed
  with c show ?thesis by (auto simp: write_at_put [OF wf])
qed

lemma ringbuf_end: "rb_end b = rb_start b + of_nat (ringbuf_length b)"
  by (simp add: ringbuf_length_def)

lemma ringbuf_produce_length:
  assumes "ringbuf_wf b" "ringbuf_length b + n \<le> rb_length b"
  shows "ringbuf_length (ringbuf_produce b n) = ringbuf_length b + n"
proof -
  obtain k where "k < 64" "rb_length b = 2 ^ k" using assms(1) by (auto simp: ringbuf_wf_def)
  then have "rb_length b < 2 ^ 64" by (metis power_strict_increasing_iff one_less_numeral_iff semiring_norm(76))
  then have "ringbuf_length b + n < 2 ^ 64" using assms(2) by (rule le_less_trans [rotated])
  moreover have "rb_end (ringbuf_produce b n) - rb_start (ringbuf_produce b n) = of_nat (ringbuf_length b + n)"
    by (simp add: ringbuf_length_def ringbuf_produce_def)
  ultimately show ?thesis
    unfolding ringbuf_length_def [of "ringbuf_produce b n"] by (simp add: unat_of_nat del: of_nat_add)
qed

lemma ringbuf_append_spec:
  assumes wf: "ringbuf_wf b" and fits: "length src \<le> ringbuf_space b"
  shows "ensures (ringbuf_write_at b (rb_end b) src) (\<lambda>b'.
     ringbuf_wf (ringbuf_produce b' (length src)) \<and> ring_list (ringbuf_produce b' (length src)) = ring_list b @ src)"
proof -
  let ?L = "rb_length b" and ?n = "ringbuf_length b"
  have n: "?n + length src \<le> ?L" using fits wf by (auto simp: ringbuf_space_def ringbuf_wf_def)
  from ringbuf_write_at_spec [OF wf n] obtain c
    where c: "ringbuf_write_at b (rb_end b) src = Some (b\<lparr>rb_contents := c\<rparr>)" "length c = ?L" and
      at: "i < ?L \<Longrightarrow> c ! ((unat (rb_start b) + i) mod ?L) = (if ?n \<le> i \<and> i < ?n + length src then src ! (i - ?n) else ring_at b i)" for i
    unfolding ringbuf_end [symmetric] by blast
  let ?b = "ringbuf_produce (b\<lparr>rb_contents := c\<rparr>) (length src)"
  have len: "ringbuf_length ?b = ?n + length src"
    using ringbuf_produce_length [OF wf n] by (simp add: ringbuf_produce_def ringbuf_length_def)
  then have "ringbuf_wf ?b" using wf n c(2) by (simp add: ringbuf_wf_def ringbuf_produce_def)
  moreover have "ring_list ?b = ring_list b @ src"
  proof (rule nth_equalityI)
    fix i assume "i < length (ring_list ?b)"
    then have i: "i < ?n + length src" by (simp add: len)
    then have "ring_list ?b ! i = c ! ((unat (rb_start b) + i) mod ?L)"
      by (simp add: len) (simp add: ring_at_def ringbuf_produce_def)
    with at [of i] i n show "ring_list ?b ! i = (ring_list b @ src) ! i" by (simp add: nth_append ring_list_def)
  qed (simp add: len)
  ultimately show ?thesis by (simp add: c(1))
qed

lemma ringbuf_overwrite_spec:
  assumes wf: "ringbuf_wf b" and p: "p + length src \<le> ringbuf_length b"
  shows "ensures (ringbuf_overwrite b p src) (\<lambda>b'. ringbuf_wf b' \<and>
     ring_list b' = take p (ring_list b) @ src @ drop (p + length src) (ring_list b))"
proof -
  let ?L = "rb_length b" and ?n = "ringbuf_length b"
  have n: "?n \<le> ?L" using wf by (simp add: ringbuf_wf_def)
  then have "p + length src \<le> ?L" using p by simp
  from ringbuf_write_at_spec [OF wf this] obtain c
    where c: "ringbuf_overwrite b p src = Some (b\<lparr>rb_contents := c\<rparr>)" "length c = ?L" and
      at: "i < ?L \<Longrightarrow> c ! ((unat (rb_start b) + i) mod ?L) = (if p \<le> i \<and> i < p + length src then src ! (i - p) else ring_at b i)" for i
    unfolding ringbuf_overwrite_def by blast
  let ?b = "b\<lparr>rb_contents := c\<rparr>"
  have len: "ringbuf_length ?b = ?n" by (simp add: ringbuf_length_def)
  have "ring_list ?b = take p (ring_list b) @ src @ drop (p + length src) (ring_list b)"
  proof (rule nth_equalityI)
    fix i assume "i < length (ring_list ?b)"
    then have i: "i < ?n" by (simp add: len)
    then have "ring_list ?b ! i = c ! ((unat (rb_start b) + i) mod ?L)" by (simp add: ring_list_def len ring_at_def)
    with at [of i] i n p show "ring_list ?b ! i = (take p (ring_list b) @ src @ drop (p + length src) (ring_list b)) ! i"
      by (auto simp: nth_append ring_list_def)
  qed (use p in \<open>simp add: len\<close>)
  moreover have "ringbuf_wf ?b" using wf c(2) by (simp add: ringbuf_wf_def len)
  ultimately show ?thesis by (simp add: c(1))
qed

lemma ringbuf_consume_spec:
  assumes wf: "ringbuf_wf b" and n: "n \<le> ringbuf_length b"
  shows "ringbuf_wf (ringbuf_consume b n)" "ring_list (ringbuf_consume b n) = drop n (ring_list b)"
proof -
  let ?b = "ringbuf_consume b n"
  obtain k where k: "k < 64" "rb_length b = 2 ^ k" using wf by (auto simp: ringbuf_wf_def)
  have e: "rb_end ?b - rb_start ?b = of_nat (ringbuf_length b - n)"
    using n by (simp add: ringbuf_consume_def of_nat_diff) (simp add: ringbuf_length_def)
  have "ringbuf_length b < 2 ^ 64" using unsigned_less [of "rb_end b - rb_start b", where ?'a = nat] by (simp add: ringbuf_length_def)
  then have len: "ringbuf_length ?b = ringbuf_length b - n" unfolding ringbuf_length_def [of ?b] e by (simp add: unat_of_nat)
  then show "ringbuf_wf ?b" using wf by (auto simp: ringbuf_wf_def ringbuf_consume_def)
  have at: "ring_at ?b i = ring_at b (n + i)" for i
  proof -
    have "(unat (rb_start b + of_nat n) + i) mod 2 ^ k = (unat (rb_start b + of_nat n) mod 2 ^ k + i) mod 2 ^ k"
      by (simp add: mod_add_left_eq)
    also have "\<dots> = (unat (rb_start b) + (n + i)) mod 2 ^ k"
      unfolding unat_add_mod_length [OF k(1)] by (simp add: mod_add_left_eq add.assoc)
    finally show ?thesis by (simp add: ring_at_def ringbuf_consume_def k(2))
  qed
  show "ring_list ?b = drop n (ring_list b)"
    by (rule nth_equalityI) (use n in \<open>simp_all add: ring_list_def len at\<close>)
qed

lemma ringbuf_unconsume_consume [simp]: "ringbuf_unconsume (ringbuf_consume b n) n = b"
  by (simp add: ringbuf_unconsume_def ringbuf_consume_def)

section \<open>Growing the buffer\<close>

lemma find_order_power [simp]: "find_order (2 ^ k) = k"
proof -
  have "2 ^ k \<le> (2 :: nat) ^ find_order (2 ^ k)" "(2 :: nat) ^ find_order (2 ^ k) < 2 ^ Suc k"
    using find_order_bounds [of "2 ^ k"] by simp_all
  then have "k \<le> find_order (2 ^ k)" "find_order (2 ^ k) < Suc k"
    by (simp_all only: power_increasing_iff power_strict_increasing_iff one_less_numeral_iff semiring_norm)
  then show ?thesis by simp
qed

lemma ringbuf_set_capacity_spec:
  assumes wf: "ringbuf_wf b" and h: "heap_ok h" and order: "find_order (max len (ringbuf_length b)) < 64"
  shows "ensures (ringbuf_set_capacity h b len) (\<lambda>(b', r). ringbuf_wf b' \<and> ring_list b' = ring_list b \<and> r = rb_length b' \<and>
     (r = 2 ^ find_order (max len (ringbuf_length b)) \<or> b' = b \<and> h (2 ^ find_order (max len (ringbuf_length b))) = None))"
proof -
  let ?m = "max len (ringbuf_length b)"
  let ?L = "2 ^ find_order ?m :: nat"
  have m: "(if len < ringbuf_length b then ringbuf_length b else len) = ?m" by (simp add: max_def)
  show ?thesis
  proof (cases "?L = rb_length b \<or> h ?L = None")
    case True
    then show ?thesis using wf by (auto simp: ringbuf_set_capacity_def m Let_def)
  next
    case False
    then obtain new where new: "h ?L = Some new" by auto
    then have len: "length new = ?L" using h by (simp add: heap_ok_def)
    have "ringbuf_length b \<le> ?L" if "ringbuf_length b \<noteq> 0"
      using find_order_bounds(1) [of ?m] that by simp
    then have fits: "ringbuf_length b \<le> ?L" by (cases "ringbuf_length b = 0") auto
    let ?b = "b\<lparr>rb_length := ?L, rb_end := rb_end b - rb_start b, rb_start := 0,
      rb_contents := ring_list b @ drop (ringbuf_length b) new\<rparr>"
    have run: "ringbuf_set_capacity h b len = Some (?b, ?L)"
      using False new len fits by (simp add: ringbuf_set_capacity_def m Let_def ringbuf_peek_spec [OF wf])
    have n: "ringbuf_length ?b = ringbuf_length b" by (simp add: ringbuf_length_def)
    have "ringbuf_wf ?b" using order fits len by (auto simp: ringbuf_wf_def n)
    moreover have "ring_list ?b = ring_list b"
    proof (rule nth_equalityI)
      fix i assume "i < length (ring_list ?b)"
      then have i: "i < ringbuf_length ?b" "i < ringbuf_length b" by (simp_all add: n)
      have "ring_at ?b i = ring_at b i"
        unfolding ring_at_def [of ?b] using i(2) fits by (simp add: nth_append)
      then show "ring_list ?b ! i = ring_list b ! i" unfolding ring_list_nth [OF i(1)] ring_list_nth [OF i(2)] .
    qed (simp add: n)
    ultimately show ?thesis by (simp add: run)
  qed
qed

lemma ringbuf_extend_spec:
  assumes wf: "ringbuf_wf b" and h: "heap_ok h" and small: "ringbuf_length b + len < 2 ^ 60"
  shows "ensures (ringbuf_extend h b len) (\<lambda>(b', ok). ringbuf_wf b' \<and> ring_list b' = ring_list b \<and>
     (ok \<longrightarrow> len \<le> ringbuf_space b') \<and> (heap_grants h \<longrightarrow> ok))"
proof (cases "ringbuf_space b < len")
  case False
  then show ?thesis using wf by (simp add: ringbuf_extend_def)
next
  case True
  obtain k where k: "rb_length b = 2 ^ k" and le: "ringbuf_length b \<le> rb_length b" using wf by (auto simp: ringbuf_wf_def)
  define j where "j = (if len \<le> rb_length b then k + 1 else find_order len + 1)"
  have new: "(if len \<le> rb_length b then 2 * rb_length b else 2 ^ (find_order len + 1)) = (2 :: nat) ^ j"
    by (simp add: j_def k)
  have room: "ringbuf_length b + len \<le> 2 ^ j" "rb_length b < 2 ^ j" "(2 :: nat) ^ j < 4 * (ringbuf_length b + len)"
  proof -
    have "ringbuf_length b + len \<le> 2 ^ j \<and> rb_length b < 2 ^ j \<and> (2 :: nat) ^ j < 4 * (ringbuf_length b + len)"
    proof (cases "len \<le> rb_length b")
      case True
      then show ?thesis using le \<open>ringbuf_space b < len\<close> by (auto simp: j_def k ringbuf_space_def)
    next
      case False
      then show ?thesis using le find_order_bounds [of len] by (auto simp: j_def)
    qed
    then show "ringbuf_length b + len \<le> 2 ^ j" "rb_length b < 2 ^ j" "(2 :: nat) ^ j < 4 * (ringbuf_length b + len)" by auto
  qed
  have "(2 :: nat) ^ j < 2 ^ 62" using room(3) small by simp
  then have j: "j < 64" by (simp only: power_strict_increasing_iff)
  have m: "max (2 ^ j) (ringbuf_length b) = 2 ^ j" using room(1) by simp
  obtain b' r where run: "ringbuf_set_capacity h b (2 ^ j) = Some (b', r)" and
    b': "ringbuf_wf b'" "ring_list b' = ring_list b" "r = rb_length b'" "r = 2 ^ j \<or> b' = b \<and> h (2 ^ j) = None"
    using ringbuf_set_capacity_spec [OF wf h, of "2 ^ j"] j by (auto simp: m elim!: ensuresE)
  have "ringbuf_length b' = ringbuf_length b" using arg_cong [OF b'(2), of length] by simp
  moreover have "ringbuf_extend h b len = Some (b', r = 2 ^ j)" using True by (simp add: ringbuf_extend_def new run)
  moreover have "r = 2 ^ j" if "heap_grants h" using b'(4) that unfolding heap_grants_def by blast
  ultimately show ?thesis using b' room by (auto simp: ringbuf_space_def)
qed

lemma ringbuf_write_spec:
  assumes wf: "ringbuf_wf b" and h: "heap_ok h" and small: "ringbuf_length b + length src < 2 ^ 60"
  shows "ensures (ringbuf_write h b src) (\<lambda>(b', ok). ringbuf_wf b' \<and>
     ring_list b' = (if ok then ring_list b @ src else ring_list b) \<and> (heap_grants h \<longrightarrow> ok))"
proof -
  obtain b1 ok where ext: "ringbuf_extend h b (length src) = Some (b1, ok)" and
    b1: "ringbuf_wf b1" "ring_list b1 = ring_list b" "ok \<longrightarrow> length src \<le> ringbuf_space b1" "heap_grants h \<longrightarrow> ok"
    using ringbuf_extend_spec [OF wf h small] by (auto elim!: ensuresE)
  show ?thesis
  proof (cases ok)
    case True
    then show ?thesis using ringbuf_append_spec [OF b1(1), of src] b1
      by (auto simp: ringbuf_write_def ext elim!: ensuresE)
  qed (use b1 in \<open>simp add: ringbuf_write_def ext\<close>)
qed

text \<open>Filling is writing a constant string.\<close>

lemma ringbuf_memset_write: "ringbuf_memset h b c len = ringbuf_write h b (replicate len c)"
proof (cases "ringbuf_extend h b len")
  case (Some r)
  then show ?thesis
    by (cases r) (auto simp: ringbuf_memset_def ringbuf_write_def ringbuf_write_at_def Let_def cong: if_cong)
qed (simp add: ringbuf_memset_def ringbuf_write_def)

lemma ringbuf_read_spec:
  assumes "ringbuf_wf b"
  shows "ringbuf_read b len =
     Some (if ringbuf_length b < len then (b, None) else (ringbuf_consume b len, Some (take len (ring_list b))))"
  by (simp add: ringbuf_read_def ringbuf_peek_spec [OF assms])

section \<open>Sequences of operations\<close>

datatype 'c ring_op =
    Ring_write "'c list"
  | Ring_memset 'c nat
  | Ring_read nat
  | Ring_peek nat
  | Ring_overwrite nat "'c list"
  | Ring_set_capacity nat

datatype 'c ring_result =
    Ring_accepted bool
  | Ring_bytes "'c list option"
  | Ring_none

text \<open>One call by a client. Overwriting is only for bytes that are in the buffer: its callers keep the offset they overwrite inside it.\<close>

fun ring_step :: "'c heap \<Rightarrow> 'c ringbuf \<Rightarrow> 'c ring_op \<Rightarrow> ('c ringbuf \<times> 'c ring_result) option" where
  "ring_step h b (Ring_write src) = map_option (\<lambda>(b, ok). (b, Ring_accepted ok)) (ringbuf_write h b src)"
| "ring_step h b (Ring_memset c n) = map_option (\<lambda>(b, ok). (b, Ring_accepted ok)) (ringbuf_memset h b c n)"
| "ring_step h b (Ring_read n) = map_option (\<lambda>(b, r). (b, Ring_bytes r)) (ringbuf_read b n)"
| "ring_step h b (Ring_peek n) = map_option (\<lambda>r. (b, Ring_bytes r)) (ringbuf_peek b n)"
| "ring_step h b (Ring_overwrite off src) =
     (if off + length src \<le> ringbuf_length b then map_option (\<lambda>b. (b, Ring_none)) (ringbuf_overwrite b off src)
      else Some (b, Ring_none))"
| "ring_step h b (Ring_set_capacity n) = map_option (\<lambda>(b, r). (b, Ring_none)) (ringbuf_set_capacity h b n)"

fun ring_run :: "'c heap \<Rightarrow> 'c ringbuf \<Rightarrow> 'c ring_op list \<Rightarrow> ('c ringbuf \<times> 'c ring_result list) option" where
  "ring_run h b [] = Some (b, [])"
| "ring_run h b (op # ops) = do {
     (b, r) \<leftarrow> ring_step h b op;
     (b, rs) \<leftarrow> ring_run h b ops;
     Some (b, r # rs)
   }"

text \<open>
  The specification is a list of bytes. A write may be refused, when the heap has no block, and then
  changes nothing: the list follows the answer the client saw. Any other answer is determined by the list,
  and \<^term>\<open>None\<close> says that an answer is wrong.
\<close>

fun byte_step :: "'c list \<Rightarrow> 'c ring_op \<Rightarrow> 'c ring_result \<Rightarrow> 'c list option" where
  "byte_step l (Ring_write src) (Ring_accepted ok) = Some (if ok then l @ src else l)"
| "byte_step l (Ring_memset c n) (Ring_accepted ok) = Some (if ok then l @ replicate n c else l)"
| "byte_step l (Ring_read n) (Ring_bytes r) =
     (if length l < n then if r = None then Some l else None
      else if r = Some (take n l) then Some (drop n l) else None)"
| "byte_step l (Ring_peek n) (Ring_bytes r) =
     (if r = (if length l < n then None else Some (take n l)) then Some l else None)"
| "byte_step l (Ring_overwrite off src) Ring_none =
     Some (if off + length src \<le> length l then take off l @ src @ drop (off + length src) l else l)"
| "byte_step l (Ring_set_capacity n) Ring_none = Some l"
| "byte_step l op r = None"

fun byte_run :: "'c list \<Rightarrow> 'c ring_op list \<Rightarrow> 'c ring_result list \<Rightarrow> 'c list option" where
  "byte_run l [] [] = Some l"
| "byte_run l (op # ops) (r # rs) = do { l \<leftarrow> byte_step l op r; byte_run l ops rs }"
| "byte_run l _ _ = None"

fun op_bytes :: "'c ring_op \<Rightarrow> nat" where
  "op_bytes (Ring_write src) = length src"
| "op_bytes (Ring_memset c n) = n"
| "op_bytes (Ring_set_capacity n) = n"
| "op_bytes _ = 0"

lemma find_order_small:
  assumes "n < 2 ^ 60"
  shows "find_order n < 64"
proof (cases "n = 0")
  case True
  then show ?thesis by (simp add: find_order_def)
next
  case False
  then have "(2 :: nat) ^ find_order n < 2 ^ 61" using find_order_bounds(2) [of n] assms by simp
  then have "find_order n < 61" by (simp only: power_strict_increasing_iff one_less_numeral_iff semiring_norm)
  then show ?thesis by simp
qed

lemma ring_step_spec:
  assumes wf: "ringbuf_wf b" and h: "heap_ok h" and small: "ringbuf_length b + op_bytes op < 2 ^ 60"
  shows "ensures (ring_step h b op) (\<lambda>(b', r). ringbuf_wf b' \<and> byte_step (ring_list b) op r = Some (ring_list b') \<and>
     ringbuf_length b' \<le> ringbuf_length b + op_bytes op \<and> (heap_grants h \<longrightarrow> r \<noteq> Ring_accepted False))"
proof -
  have wr: "ensures (ringbuf_write h b src) (\<lambda>(b', ok). ringbuf_wf b' \<and>
      ring_list b' = (if ok then ring_list b @ src else ring_list b) \<and> ringbuf_length b' \<le> ringbuf_length b + length src \<and>
      (heap_grants h \<longrightarrow> ok))" if n: "op_bytes op = length src" for src
  proof -
    obtain b' ok where "ringbuf_write h b src = Some (b', ok)" "ringbuf_wf b'" "heap_grants h \<longrightarrow> ok" and
      l: "ring_list b' = (if ok then ring_list b @ src else ring_list b)"
      using ringbuf_write_spec [OF wf h, of src] small n by (auto elim!: ensuresE)
    moreover have "ringbuf_length b' \<le> ringbuf_length b + length src"
      using arg_cong [OF l, of length] by (cases ok) simp_all
    ultimately show ?thesis by simp
  qed
  show ?thesis
  proof (cases op)
    case (Ring_write src)
    then show ?thesis using wr [of src] by (auto elim!: ensuresE)
  next
    case (Ring_memset c n)
    then show ?thesis using wr [of "replicate n c"] by (auto simp: ringbuf_memset_write elim!: ensuresE)
  next
    case (Ring_read n)
    have "ringbuf_length (ringbuf_consume b n) \<le> ringbuf_length b" if "n \<le> ringbuf_length b"
      using arg_cong [OF ringbuf_consume_spec(2) [OF wf that], of length] by simp
    then show ?thesis using wf Ring_read
      by (auto simp: ringbuf_read_spec [OF wf] ringbuf_consume_spec [OF wf])
  next
    case (Ring_peek n)
    then show ?thesis using wf by (simp add: ringbuf_peek_spec [OF wf])
  next
    case (Ring_overwrite off src)
    show ?thesis
    proof (cases "off + length src \<le> ringbuf_length b")
      case True
      obtain b' where b': "ringbuf_overwrite b off src = Some b'" "ringbuf_wf b'" and
        l: "ring_list b' = take off (ring_list b) @ src @ drop (off + length src) (ring_list b)"
        using ringbuf_overwrite_spec [OF wf True] by (auto elim!: ensuresE)
      have "ringbuf_length b' = ringbuf_length b" using arg_cong [OF l, of length] True by simp
      then show ?thesis using b' l True by (simp add: Ring_overwrite)
    qed (simp add: Ring_overwrite wf)
  next
    case (Ring_set_capacity n)
    then have "find_order (max n (ringbuf_length b)) < 64" using small by (intro find_order_small) simp
    from ringbuf_set_capacity_spec [OF wf h this] obtain b' r where b': "ringbuf_set_capacity h b n = Some (b', r)" "ringbuf_wf b'" "ring_list b' = ring_list b"
      by (auto elim!: ensuresE)
    moreover have "ringbuf_length b' = ringbuf_length b" using arg_cong [OF b'(3), of length] by simp
    ultimately show ?thesis by (simp add: Ring_set_capacity)
  qed
qed

text \<open>C15: a ring buffer is a queue of bytes. Whatever the calls a client makes (writing, filling, reading, peeking,
  overwriting bytes in the buffer, changing the capacity) and wherever the contents wrap, every call
  returns without touching memory outside the buffer, every answer is the one the list of bytes gives, the
  bytes left are those of the list, and no write is refused by a heap that always has a block. The bytes
  held and asked for together stay below 2 to the 60, so that doubling the capacity cannot overflow.
\<close>

theorem ringbuf_refines_bytes:
  assumes "ringbuf_wf b" "heap_ok h" "ringbuf_length b + sum_list (map op_bytes ops) < 2 ^ 60"
  shows "\<exists>b' rs. ring_run h b ops = Some (b', rs) \<and> ringbuf_wf b' \<and> byte_run (ring_list b) ops rs = Some (ring_list b') \<and>
     (heap_grants h \<longrightarrow> Ring_accepted False \<notin> set rs)"
  using assms
proof (induction ops arbitrary: b)
  case (Cons op ops)
  have small: "ringbuf_length b + op_bytes op + sum_list (map op_bytes ops) < 2 ^ 60" using Cons.prems(3) by simp
  then have "ringbuf_length b + op_bytes op < 2 ^ 60" by (rule le_less_trans [rotated]) simp
  from ring_step_spec [OF Cons.prems(1,2) this] obtain b1 r where step: "ring_step h b op = Some (b1, r)" "ringbuf_wf b1" "byte_step (ring_list b) op r = Some (ring_list b1)"
      "ringbuf_length b1 \<le> ringbuf_length b + op_bytes op" "heap_grants h \<longrightarrow> r \<noteq> Ring_accepted False"
    by (auto elim!: ensuresE)
  have "ringbuf_length b1 + sum_list (map op_bytes ops) < 2 ^ 60" using small step(4) by (rule_tac le_less_trans) simp_all
  then obtain b' rs where "ring_run h b1 ops = Some (b', rs)" "ringbuf_wf b'" "byte_run (ring_list b1) ops rs = Some (ring_list b')"
      "heap_grants h \<longrightarrow> Ring_accepted False \<notin> set rs"
    using Cons.IH [OF step(2) Cons.prems(2)] by blast
  with step show ?case by auto
qed simp

text \<open>The offsets of this buffer of four bytes are about to wrap around 2 to the 64.\<close>

definition wrapping_ring :: "u8 ringbuf" where
  "wrapping_ring = \<lparr>rb_start = - 2, rb_end = 1, rb_length = 4, rb_contents = [3, 0, 1, 2]\<rparr>"

theorem ringbuf_refines_bytes_witness:
  "ringbuf_wf wrapping_ring \<and> heap_ok (zero_heap :: u8 heap) \<and>
   ringbuf_length wrapping_ring + sum_list (map op_bytes [Ring_read 1, Ring_write [4, 5, 6], Ring_read 5]) < 2 ^ 60 \<and>
   (\<exists>b' rs. ring_run zero_heap wrapping_ring [Ring_read 1, Ring_write [4, 5, 6], Ring_read 5] = Some (b', rs) \<and> ringbuf_wf b' \<and>
      byte_run (ring_list wrapping_ring) [Ring_read 1, Ring_write [4, 5, 6], Ring_read 5] rs = Some (ring_list b') \<and>
      (heap_grants (zero_heap :: u8 heap) \<longrightarrow> Ring_accepted False \<notin> set rs))"
proof -
  have wf: "ringbuf_wf wrapping_ring"
    by (auto simp: ringbuf_wf_def wrapping_ring_def ringbuf_length_def intro!: exI [of _ 2])
  have h: "heap_ok (zero_heap :: u8 heap)" by simp
  have small: "ringbuf_length wrapping_ring + sum_list (map op_bytes [Ring_read 1, Ring_write [4, 5, 6], Ring_read 5]) < 2 ^ 60"
    by (simp add: wrapping_ring_def ringbuf_length_def)
  show ?thesis using ringbuf_refines_bytes [OF wf h small] wf h small by blast
qed

end
