(* ===== verification/Calendar.thy ===== *)
theory Calendar
  imports Prelude
begin

text \<open>
  \<^verbatim>\<open>kernel/src/unix/mktime.c\<close>: seconds since 1970 and dates.

  A C \<^verbatim>\<open>int\<close> is an integer, and \<open>c_int\<close> checks the result of each operation that may leave its 32 bits: signed
  overflow has no defined result, and \<open>None\<close> is that outcome. The narrow fields of \<^verbatim>\<open>struct tm\<close> are words.
\<close>

section \<open>Data\<close>

definition c_int :: "int \<Rightarrow> int option" where
  "c_int x = (if - (2 ^ 31) \<le> x \<and> x < 2 ^ 31 then Some x else None)"

record tm =
  tm_year :: int
  tm_mon :: u8
  tm_mday :: u8
  tm_hour :: u8
  tm_min :: u8
  tm_sec :: u8

definition days_in_month :: "int \<Rightarrow> int" where
  "days_in_month m =
     (if m = 2 then 28 else if m = 4 \<or> m = 6 \<or> m = 9 \<or> m = 11 then 30 else 31)"

definition is_leap_year :: "int \<Rightarrow> bool" where
  "is_leap_year year =
     (if year AND 3 \<noteq> 0 then False
      else if year mod 100 \<noteq> 0 then True else year mod 400 = 0)"

section \<open>From dates to seconds\<close>

text \<open>The loop over the years from \<open>i\<close> on, counting leap days.\<close>

function leap_loop :: "int \<Rightarrow> int \<Rightarrow> int \<Rightarrow> int option" where
  "leap_loop i year days =
     (if i < year then do {
        days \<leftarrow> (if is_leap_year (1900 + i) then c_int (days + 1) else Some days);
        leap_loop (i + 1) year days
      } else Some days)"
  by pat_completeness auto
termination by (relation "measure (\<lambda>(i, year, _). nat (year - i))") auto

declare leap_loop.simps [simp del]

text \<open>The loop over the months from \<open>i\<close> on.\<close>

function month_days_loop :: "int \<Rightarrow> int \<Rightarrow> int \<Rightarrow> int option" where
  "month_days_loop i mon days =
     (if i < mon then do {
        days \<leftarrow> c_int (days + days_in_month (i + 1));
        month_days_loop (i + 1) mon days
      } else Some days)"
  by pat_completeness auto
termination by (relation "measure (\<lambda>(i, mon, _). nat (mon - i))") auto

declare month_days_loop.simps [simp del]

definition mktime :: "tm \<Rightarrow> int option" where
  "mktime t = do {
     y \<leftarrow> c_int (tm_year t - 70);
     days \<leftarrow> c_int (365 * y);
     days \<leftarrow> leap_loop 70 (tm_year t) days;
     days \<leftarrow> (if is_leap_year (1900 + tm_year t) \<and> uint (tm_mon t) \<ge> 2 then c_int (days + 1) else Some days);
     days \<leftarrow> month_days_loop 0 (uint (tm_mon t)) days;
     days \<leftarrow> c_int (days + (uint (tm_mday t) - 1));
     v \<leftarrow> c_int (days * 24);
     v \<leftarrow> c_int (v + uint (tm_hour t));
     v \<leftarrow> c_int (v * 60);
     v \<leftarrow> c_int (v + uint (tm_min t));
     v \<leftarrow> c_int (v * 60);
     c_int (v + uint (tm_sec t))
   }"

section \<open>From seconds to dates\<close>

definition days_in_year :: "int \<Rightarrow> int" where
  "days_in_year y = (if is_leap_year (1900 + y) then 366 else 365)"

lemma days_in_year_pos [simp]: "0 < days_in_year y"
  by (simp add: days_in_year_def)

text \<open>The years and then the months are counted off the days. Neither counter can leave its type: the days are
  less than 2 to the 31, and those left of a year reach at most December.\<close>

function year_loop :: "int \<Rightarrow> int \<Rightarrow> int \<times> int" where
  "year_loop year days =
     (if days \<ge> days_in_year year then year_loop (year + 1) (days - days_in_year year) else (year, days))"
  by pat_completeness auto
termination by (relation "measure (\<lambda>(_, days). nat days)") (auto simp: days_in_year_def split: if_splits)

declare year_loop.simps [simp del]

definition month_length :: "bool \<Rightarrow> u8 \<Rightarrow> int" where
  "month_length leap mon = days_in_month (uint mon + 1) + (if mon = 1 \<and> leap then 1 else 0)"

lemma month_length_pos [simp]: "0 < month_length leap mon"
  by (simp add: month_length_def days_in_month_def)

function month_loop :: "bool \<Rightarrow> u8 \<Rightarrow> int \<Rightarrow> u8 \<times> int" where
  "month_loop leap mon days =
     (if days \<ge> month_length leap mon then month_loop leap (mon + 1) (days - month_length leap mon) else (mon, days))"
  by pat_completeness auto
termination by (relation "measure (\<lambda>(_, _, days). nat days)") (auto simp: month_length_def days_in_month_def split: if_splits)

declare month_loop.simps [simp del]

definition gmtime_r :: "u64 \<Rightarrow> tm option" where
  "gmtime_r timep = do {
     let days = sint (ucast (timep div (24 * 60 * 60)) :: 32 word);
     p \<leftarrow> c_int (days * (24 * 60 * 60));
     let seconds = timep - of_int p;
     let (year, days) = year_loop 70 days;
     let (mon, days) = month_loop (is_leap_year (1900 + year)) 0 days;
     let hour = (ucast (seconds div (60 * 60)) :: u8);
     let seconds = seconds - ucast hour * (60 * 60);
     let mn = (ucast (seconds div 60) :: u8);
     let sec = (ucast (seconds - ucast mn * 60) :: u8);
     Some \<lparr>tm_year = year, tm_mon = mon, tm_mday = of_int (1 + days), tm_hour = hour, tm_min = mn, tm_sec = sec\<rparr>
   }"

section \<open>Dates\<close>

definition valid_tm :: "tm \<Rightarrow> bool" where
  "valid_tm t \<longleftrightarrow> 70 \<le> tm_year t \<and> tm_mon t < 12 \<and>
     1 \<le> uint (tm_mday t) \<and> uint (tm_mday t) \<le> month_length (is_leap_year (1900 + tm_year t)) (tm_mon t) \<and>
     tm_hour t < 24 \<and> tm_min t < 60 \<and> tm_sec t < 60"

text \<open>Days from the start of year \<open>a\<close> to the start of year \<open>b\<close>, and from the start of a year to that of a month.\<close>

definition days_between :: "int \<Rightarrow> int \<Rightarrow> int" where
  "days_between a b = (\<Sum>y \<in> {a..<b}. days_in_year y)"

definition days_before :: "bool \<Rightarrow> nat \<Rightarrow> int" where
  "days_before leap m = (\<Sum>i < m. month_length leap (of_nat i))"

lemma days_between_self [simp]: "b \<le> a \<Longrightarrow> days_between a b = 0"
  by (simp add: days_between_def)

lemma days_between_step: "a < b \<Longrightarrow> days_between a b = days_in_year a + days_between (a + 1) b"
proof -
  assume "a < b"
  then have "{a..<b} = insert a {a + 1..<b}" by auto
  then show ?thesis by (simp add: days_between_def)
qed

lemma days_between_nonneg [simp]: "0 \<le> days_between a b"
  by (simp add: days_between_def sum_nonneg less_imp_le)

lemma year_loop_counts:
  assumes "a \<le> y" "0 \<le> d" "d < days_in_year y"
  shows "year_loop a (days_between a y + d) = (y, d)"
  using assms
proof (induction "nat (y - a)" arbitrary: a)
  case 0
  then show ?case by (subst year_loop.simps) simp
next
  case (Suc n)
  then have "a < y" by simp
  then have s: "days_between a y = days_in_year a + days_between (a + 1) y" by (rule days_between_step)
  have "year_loop (a + 1) (days_between (a + 1) y + d) = (y, d)" using Suc \<open>a < y\<close> by (intro Suc.hyps(1)) auto
  moreover have "days_in_year a \<le> days_between a y + d" using s Suc.prems(2) days_between_nonneg [of "a + 1" y] by linarith
  ultimately show ?case by (subst year_loop.simps) (simp add: s)
qed

lemma year_loop_spec:
  assumes "0 \<le> days" "year_loop a days = (y, d)"
  shows "a \<le> y \<and> 0 \<le> d \<and> d < days_in_year y \<and> days = days_between a y + d"
  using assms
proof (induction a days rule: year_loop.induct)
  case (1 a days)
  show ?case
  proof (cases "days_in_year a \<le> days")
    case True
    then have "year_loop (a + 1) (days - days_in_year a) = (y, d)" using "1.prems"(2) by (simp add: year_loop.simps [of a days])
    from "1.IH" [OF True _ this] True show ?thesis by (auto simp: days_between_step)
  next
    case False
    then show ?thesis using "1.prems" by (simp add: year_loop.simps [of a days])
  qed
qed

lemma days_before_Suc [simp]: "days_before leap (Suc m) = days_before leap m + month_length leap (of_nat m)"
  by (simp add: days_before_def)

lemma days_before_0 [simp]: "days_before leap 0 = 0"
  by (simp add: days_before_def)

lemma days_before_mono: "a \<le> b \<Longrightarrow> days_before leap a \<le> days_before leap b"
  unfolding days_before_def by (rule sum_mono2) (auto simp: less_imp_le)

text \<open>The twelve months make up the year.\<close>

lemma days_before_year: "days_before (is_leap_year (1900 + y)) 12 = days_in_year y"
  by (simp add: days_before_def lessThan_nat_numeral lessThan_Suc month_length_def days_in_month_def days_in_year_def)

lemma month_loop_counts:
  assumes "a \<le> m" "m < 12" "0 \<le> d" "d < month_length leap (of_nat m)"
  shows "month_loop leap (of_nat a) (days_before leap m - days_before leap a + d) = (of_nat m, d)"
  using assms
proof (induction "m - a" arbitrary: a)
  case 0
  then show ?case by (subst month_loop.simps) simp
next
  case (Suc n)
  then have "a < m" by simp
  have "month_loop leap (of_nat (Suc a)) (days_before leap m - days_before leap (Suc a) + d) = (of_nat m, d)"
    using Suc \<open>a < m\<close> by (intro Suc.hyps(1)) auto
  moreover have "month_length leap (of_nat a) \<le> days_before leap m - days_before leap a + d"
    using days_before_mono [of "Suc a" m leap] \<open>a < m\<close> Suc.prems(3) by simp
  ultimately show ?case by (subst month_loop.simps) (simp add: algebra_simps)
qed

text \<open>Every day of the year lies in one of the months.\<close>

lemma month_exists:
  assumes "0 \<le> days" "days < days_before leap n"
  shows "\<exists>m < n. days_before leap m \<le> days \<and> days < days_before leap (Suc m)"
  using assms(2)
proof (induction n)
  case (Suc n)
  show ?case
  proof (cases "days < days_before leap n")
    case True
    then show ?thesis using Suc.IH by (meson less_Suc_eq)
  next
    case False
    then show ?thesis using Suc.prems by (intro exI [of _ n]) auto
  qed
qed (use assms(1) in simp)

lemma month_loop_spec:
  assumes "0 \<le> days" "days < days_in_year y" "month_loop (is_leap_year (1900 + y)) 0 days = (mon, d)"
  shows "mon < 12 \<and> 0 \<le> d \<and> d < month_length (is_leap_year (1900 + y)) mon \<and>
     days = days_before (is_leap_year (1900 + y)) (unat mon) + d"
proof -
  let ?l = "is_leap_year (1900 + y)"
  obtain m where m: "m < 12" "days_before ?l m \<le> days" "days < days_before ?l (Suc m)"
    using month_exists [OF assms(1), of ?l 12] assms(2) by (auto simp: days_before_year)
  then have "month_loop ?l 0 days = (of_nat m, days - days_before ?l m)"
    using month_loop_counts [of 0 m "days - days_before ?l m" ?l] by simp
  moreover have "unat (of_nat m :: u8) = m" using m(1) by (subst unat_of_nat) simp
  ultimately show ?thesis using assms(3) m by (auto simp: word_less_nat_alt)
qed

section \<open>The value of a date\<close>

definition day_number :: "tm \<Rightarrow> int" where
  "day_number t = days_between 70 (tm_year t) + days_before (is_leap_year (1900 + tm_year t)) (unat (tm_mon t)) + (uint (tm_mday t) - 1)"

definition seconds_of :: "tm \<Rightarrow> int" where
  "seconds_of t = ((day_number t * 24 + uint (tm_hour t)) * 60 + uint (tm_min t)) * 60 + uint (tm_sec t)"

text \<open>Checks of growing values come down to the check of the last one.\<close>

lemma c_int_chain:
  assumes "0 \<le> x" "x \<le> y" "x < 2 ^ 31 \<Longrightarrow> f x = c_int y"
  shows "Option.bind (c_int x) f = c_int y"
  using assms by (auto simp: c_int_def)

lemma leap_loop_eq:
  assumes "i \<le> year" "0 \<le> days" "days < 2 ^ 31"
  shows "leap_loop i year days = c_int (days + (days_between i year - 365 * (year - i)))"
  using assms
proof (induction "nat (year - i)" arbitrary: i days)
  case 0
  then show ?case by (subst leap_loop.simps) (simp add: c_int_def)
next
  case (Suc n)
  have lt: "i < year" using Suc.hyps(2) Suc.prems(1) by simp
  have grow: "365 * (year - (i + 1)) \<le> days_between (i + 1) year"
    using sum_bounded_below [of "{i + 1..<year}" 365 days_in_year] lt
    by (simp add: days_between_def days_in_year_def mult.commute)
  show ?case
  proof (cases "is_leap_year (1900 + i)")
    case True
    then have "leap_loop i year days = Option.bind (c_int (days + 1)) (leap_loop (i + 1) year)"
      using lt by (subst leap_loop.simps) simp
    also have "\<dots> = c_int (days + (days_between i year - 365 * (year - i)))"
    proof (rule c_int_chain)
      assume "days + 1 < 2 ^ 31"
      then have "leap_loop (i + 1) year (days + 1) = c_int (days + 1 + (days_between (i + 1) year - 365 * (year - (i + 1))))"
        using Suc lt by (intro Suc.hyps(1)) auto
      then show "leap_loop (i + 1) year (days + 1) = c_int (days + (days_between i year - 365 * (year - i)))"
        using True lt by (simp add: days_between_step days_in_year_def algebra_simps)
    qed (use Suc.prems True lt grow in \<open>simp_all add: days_between_step days_in_year_def\<close>)
    finally show ?thesis .
  next
    case False
    have "leap_loop (i + 1) year days = c_int (days + (days_between (i + 1) year - 365 * (year - (i + 1))))"
      using Suc lt by (intro Suc.hyps(1)) auto
    then show ?thesis using False lt
      by (subst leap_loop.simps) (simp add: days_between_step days_in_year_def algebra_simps)
  qed
qed

lemma month_days_loop_eq:
  assumes "i \<le> m" "0 \<le> days" "days < 2 ^ 31"
  shows "month_days_loop (int i) (int m) days = c_int (days + (\<Sum>j \<in> {i..<m}. days_in_month (int j + 1)))"
  using assms
proof (induction "m - i" arbitrary: i days)
  case 0
  then show ?case by (subst month_days_loop.simps) (simp add: c_int_def)
next
  case (Suc n)
  then have lt: "i < m" by simp
  have split: "(\<Sum>j \<in> {i..<m}. days_in_month (int j + 1)) =
      days_in_month (int i + 1) + (\<Sum>j \<in> {Suc i..<m}. days_in_month (int j + 1))"
    using lt by (simp add: sum.atLeast_Suc_lessThan)
  have pos: "0 \<le> days_in_month x" for x by (simp add: days_in_month_def)
  have "month_days_loop (int i) (int m) days =
      Option.bind (c_int (days + days_in_month (int i + 1))) (month_days_loop (int (Suc i)) (int m))"
    using lt by (subst month_days_loop.simps) (simp add: add.commute)
  also have "\<dots> = c_int (days + (\<Sum>j \<in> {i..<m}. days_in_month (int j + 1)))"
    unfolding split
  proof (rule c_int_chain)
    assume "days + days_in_month (int i + 1) < 2 ^ 31"
    then have "month_days_loop (int (Suc i)) (int m) (days + days_in_month (int i + 1)) =
        c_int (days + days_in_month (int i + 1) + (\<Sum>j \<in> {Suc i..<m}. days_in_month (int j + 1)))"
      using Suc lt pos by (intro Suc.hyps(1)) auto
    then show "month_days_loop (int (Suc i)) (int m) (days + days_in_month (int i + 1)) =
        c_int (days + (days_in_month (int i + 1) + (\<Sum>j \<in> {Suc i..<m}. days_in_month (int j + 1))))" by (simp add: add.assoc)
  qed (use Suc.prems pos in \<open>simp_all add: sum_nonneg\<close>)
  finally show ?case .
qed

lemma month_days_sum:
  assumes "m \<le> 12"
  shows "(\<Sum>j < m. days_in_month (int j + 1)) = days_before leap m - (if leap \<and> 2 \<le> m then 1 else 0)"
  using assms
proof (induction m)
  case (Suc m)
  have u: "uint (of_nat m :: u8) = int m" using Suc.prems by (simp add: uint_nat unat_of_nat)
  have "(of_nat m :: u8) = 1 \<longleftrightarrow> m = 1" using u by (metis of_nat_1 of_nat_eq_iff uint_1)
  then show ?case using Suc u by (auto simp: month_length_def)
qed simp

lemma valid_tmD:
  assumes "valid_tm t"
  shows "70 \<le> tm_year t" "unat (tm_mon t) < 12" "1 \<le> uint (tm_mday t)" "uint (tm_hour t) < 24" "uint (tm_min t) < 60" "uint (tm_sec t) < 60"
proof -
  show "unat (tm_mon t) < 12" using assms by (simp add: valid_tm_def word_less_nat_alt)
qed (use assms in \<open>auto simp: valid_tm_def word_less_def\<close>)

lemma clock_chain:
  assumes "0 \<le> d" "0 \<le> h" "0 \<le> m" "0 \<le> s"
  shows "do { v \<leftarrow> c_int (d * 24); v \<leftarrow> c_int (v + h); v \<leftarrow> c_int (v * 60); v \<leftarrow> c_int (v + m); v \<leftarrow> c_int (v * 60); c_int (v + s) } =
     c_int (((d * 24 + h) * 60 + m) * 60 + s)"
  using assms by (intro c_int_chain) simp_all

lemma day_bounds:
  fixes y A B c d S :: int
  assumes "365 * (y - 70) \<le> A" "0 \<le> c" "c \<le> B" "70 \<le> y" "1 \<le> d" "A + B + (d - 1) \<le> S"
  shows "0 \<le> y - 70" "y - 70 \<le> S" "0 \<le> 365 * (y - 70)" "365 * (y - 70) \<le> S" "0 \<le> A" "A \<le> S" "0 \<le> A + c" "A + c \<le> S"
    "0 \<le> A + B" "A + B \<le> S" "0 \<le> A + B + (d - 1)"
  using assms by simp_all

lemma mktime_eq:
  assumes v: "valid_tm t"
  shows "mktime t = c_int (seconds_of t)"
proof -
  let ?y = "tm_year t" and ?m = "unat (tm_mon t)" and ?l = "is_leap_year (1900 + tm_year t)"
  let ?A = "days_between 70 ?y" and ?B = "days_before ?l ?m" and ?c = "if ?l \<and> 2 \<le> ?m then 1 else 0 :: int"
  let ?D = "day_number t" and ?S = "seconds_of t"
  note V = valid_tmD [OF v]
  have grow: "365 * (?y - 70) \<le> ?A"
    using sum_bounded_below [of "{70..<?y}" 365 days_in_year] V(1)
    by (simp add: days_between_def days_in_year_def mult.commute)
  have c: "?c \<le> ?B"
    using month_days_sum [of ?m ?l] sum_nonneg [of "{..< ?m}" "\<lambda>j. days_in_month (int j + 1)"] V(2)
    by (simp add: days_in_month_def)
  have D: "?D = ?A + ?B + (uint (tm_mday t) - 1)" by (simp add: day_number_def)
  have B: "0 \<le> ?c" "0 \<le> ?B" using c by (auto split: if_splits)
  have D0: "0 \<le> ?D" unfolding D using B V(3) days_between_nonneg [of 70 ?y] by linarith
  have "0 \<le> uint (tm_hour t)" "0 \<le> uint (tm_min t)" "0 \<le> uint (tm_sec t)" by simp_all
  then have S: "?D \<le> ?S" unfolding seconds_of_def distrib_right mult.assoc using D0 by simp
  have years: "leap_loop 70 ?y (365 * (?y - 70)) = c_int ?A" if "365 * (?y - 70) < 2 ^ 31"
    using leap_loop_eq [of 70 ?y "365 * (?y - 70)"] that V(1) by simp
  have extra: "(if ?l \<and> 2 \<le> uint (tm_mon t) then c_int (?A + 1) else Some ?A) = c_int (?A + ?c)" if "?A < 2 ^ 31"
  proof -
    have "2 \<le> uint (tm_mon t) \<longleftrightarrow> 2 \<le> ?m" using uint_nat [of "tm_mon t"] by linarith
    moreover have "- (2 ^ 31) \<le> ?A" by (rule order_trans [OF _ days_between_nonneg]) simp
    ultimately show ?thesis using that by (simp add: c_int_def)
  qed
  have months: "month_days_loop 0 (uint (tm_mon t)) (?A + ?c) = c_int (?A + ?B)" if "?A + ?c < 2 ^ 31"
    using month_days_loop_eq [of 0 ?m "?A + ?c"] month_days_sum [of ?m ?l] that V(2) by (simp add: lessThan_atLeast0)
  have clock: "do { v \<leftarrow> c_int (?D * 24); v \<leftarrow> c_int (v + uint (tm_hour t)); v \<leftarrow> c_int (v * 60); v \<leftarrow> c_int (v + uint (tm_min t));
      v \<leftarrow> c_int (v * 60); c_int (v + uint (tm_sec t)) } = c_int ?S"
    unfolding seconds_of_def using D0 by (intro clock_chain) simp_all
  note le = day_bounds [OF grow B(1) c V(1,3) S [unfolded D]]
  show ?thesis
    unfolding mktime_def
    by (rule c_int_chain [OF le(1,2)], rule c_int_chain [OF le(3,4)], simp only: years, rule c_int_chain [OF le(5,6)],
        simp only: extra, rule c_int_chain [OF le(7,8)], simp only: months, rule c_int_chain [OF le(9,10)],
        simp only: D [symmetric], rule c_int_chain [OF D0 S], rule clock)
qed

section \<open>The date of a value\<close>

lemma sint_small:
  fixes w :: "32 word"
  assumes "unat w < 2 ^ 31"
  shows "sint w = int (unat w)"
proof -
  have "uint w < 2 ^ 31" unfolding uint_nat of_nat_less_numeral_power_cancel_iff by (rule assms)
  moreover have "- (2 ^ 31) \<le> uint w" by (rule order_trans [of _ 0]) simp_all
  ultimately have "signed_take_bit 31 (uint w) = uint w" by (intro signed_take_bit_int_eq_self)
  then show ?thesis by (simp add: sint_uint)
qed

text \<open>Counting a unit of \<open>k\<close> off a number of seconds.\<close>

lemma split_off:
  fixes w k :: u64
  assumes "0 < unat k" "unat w div unat k < 256"
  shows "(ucast (w div k) :: u8) = of_nat (unat w div unat k)" "unat (w - ucast (ucast (w div k) :: u8) * k) = unat w mod unat k"
proof -
  have "of_nat (unat (w div k)) = (ucast (w div k) :: u8)" by simp
  then show "(ucast (w div k) :: u8) = of_nat (unat w div unat k)" by (simp only: unat_div)
  have u: "unat (ucast (ucast (w div k) :: u8) :: u64) = unat w div unat k"
    using assms(2) by (simp add: unat_div unsigned_ucast_eq unsigned_take_bit_eq take_bit_nat_def)
  have "unat w div unat k * unat k \<le> unat w" "unat w < 2 ^ 64" using unsigned_less [of w, where ?'a = nat] by simp_all
  then have "unat w div unat k * unat k < 2 ^ 64" by (rule le_less_trans)
  then have m: "unat (ucast (ucast (w div k) :: u8) * k) = unat w div unat k * unat k" by (simp add: unat_word_ariths u)
  then have "ucast (ucast (w div k) :: u8) * k \<le> w" by (simp add: word_le_nat_alt)
  then show "unat (w - ucast (ucast (w div k) :: u8) * k) = unat w mod unat k"
    by (simp add: unat_sub m minus_div_mult_eq_mod)
qed

text \<open>The fields, by plain division.\<close>

lemma gmtime_r_eq:
  assumes n: "unat timep < 2 ^ 31"
  shows "gmtime_r timep =
    (let (year, days) = year_loop 70 (int (unat timep div 86400));
         (mon, days) = month_loop (is_leap_year (1900 + year)) 0 days
     in Some \<lparr>tm_year = year, tm_mon = mon, tm_mday = of_int (1 + days), tm_hour = of_nat (unat timep mod 86400 div 3600),
          tm_min = of_nat (unat timep mod 3600 div 60), tm_sec = of_nat (unat timep mod 60)\<rparr>)"
proof -
  let ?n = "unat timep"
  let ?d = "?n div 86400" and ?r = "?n mod 86400"
  have u: "unat (ucast (timep div 86400) :: 32 word) = ?d"
    using n by (simp add: unat_div unsigned_ucast_eq take_bit_nat_def)
  then have days: "sint (ucast (timep div 86400) :: 32 word) = int ?d"
    using sint_small [of "ucast (timep div 86400)"] n unfolding u by simp
  have le: "?d * 86400 \<le> ?n" by simp
  then have p: "c_int (int ?d * 86400) = Some (int (?d * 86400))"
    using n by (simp add: c_int_def)
  define w where "w = timep - of_nat ?d * 86400"
  have "unat (of_nat (?d * 86400) :: u64) = ?d * 86400" using le n by (subst unat_of_nat) simp
  then have of: "unat (of_nat ?d * 86400 :: u64) = ?d * 86400" by simp
  have w: "unat w = ?r" unfolding w_def by (subst unat_sub) (use of le in \<open>simp_all add: word_le_nat_alt minus_div_mult_eq_mod\<close>)
  define v where "v = w - ucast (ucast (w div 3600) :: u8) * 3600"
  have h: "(ucast (w div 3600) :: u8) = of_nat (?r div 3600)" and v: "unat v = ?n mod 3600"
    using split_off [of 3600 w] unfolding v_def by (simp_all add: w mod_mod_cancel)
  have m: "(ucast (v div 60) :: u8) = of_nat (?n mod 3600 div 60)" and z: "unat (v - ucast (ucast (v div 60) :: u8) * 60) = ?n mod 60"
    using split_off [of 60 v] by (simp_all add: v mod_mod_cancel)
  have s: "(ucast (v - ucast (ucast (v div 60) :: u8) * 60) :: u8) = of_nat (?n mod 60)"
    unfolding z [symmetric] by simp
  show ?thesis
    unfolding gmtime_r_def Let_def by (simp add: days p h m s [unfolded m] flip: w_def v_def [unfolded h])
qed

text \<open>Hours, minutes and seconds as digits.\<close>

lemma clock_digits:
  fixes n :: nat
  shows "n mod 86400 div 3600 = n div 60 div 60 mod 24" "n mod 3600 div 60 = n div 60 mod 60" "n div 86400 = n div 60 div 60 div 24"
proof -
  have digit: "n mod (b * c) div b = n div b mod c" if "0 < b" for b c :: nat
    using that by (simp add: mod_mult2_eq)
  show "n mod 86400 div 3600 = n div 60 div 60 mod 24" "n mod 3600 div 60 = n div 60 mod 60"
    using digit [of 3600 24] digit [of 60 60] by (simp_all add: div_mult2_eq [symmetric])
qed (simp add: div_mult2_eq [symmetric])

lemma seconds_fields:
  fixes n :: nat
  shows "int n = ((int (n div 86400) * 24 + int (n mod 86400 div 3600)) * 60 + int (n mod 3600 div 60)) * 60 + int (n mod 60)"
proof -
  have "((n div 60 div 60 div 24 * 24 + n div 60 div 60 mod 24) * 60 + n div 60 mod 60) * 60 + n mod 60 = n"
    by (simp only: div_mult_mod_eq)
  then have "((n div 86400 * 24 + n mod 86400 div 3600) * 60 + n mod 3600 div 60) * 60 + n mod 60 = n" unfolding clock_digits .
  from arg_cong [OF this, of int] show ?thesis by simp
qed

lemma seconds_unique:
  fixes D h m s n :: nat
  assumes n: "((D * 24 + h) * 60 + m) * 60 + s = n" and "h < 24" "m < 60" "s < 60"
  shows "n div 86400 = D" "n mod 86400 div 3600 = h" "n mod 3600 div 60 = m" "n mod 60 = s"
proof -
  have digit: "(q * c + r) div c = q" "(q * c + r) mod c = r" if "r < c" for q c r :: nat
    using that by simp_all
  note digits = digit [OF assms(4)] digit [OF assms(3)] digit [OF assms(2)]
  show "n div 86400 = D" "n mod 86400 div 3600 = h" "n mod 3600 div 60 = m" "n mod 60 = s"
    unfolding clock_digits n [symmetric] digits by (rule refl)+
qed

lemma uint_of_nat_u8: "n < 256 \<Longrightarrow> uint (of_nat n :: u8) = int n"
  by (simp add: uint_nat unat_of_nat)

lemma gmtime_r_spec:
  assumes n: "unat timep < 2 ^ 31"
  shows "\<exists>t. gmtime_r timep = Some t \<and> valid_tm t \<and> seconds_of t = int (unat timep)"
proof -
  let ?n = "unat timep"
  obtain year days where Y: "year_loop 70 (int (?n div 86400)) = (year, days)" by fastforce
  let ?l = "is_leap_year (1900 + year)"
  obtain mon d where M: "month_loop ?l 0 days = (mon, d)" by fastforce
  have y: "70 \<le> year" "0 \<le> days" "days < days_in_year year" "int (?n div 86400) = days_between 70 year + days"
    using year_loop_spec [OF _ Y] by auto
  have m: "mon < 12" "0 \<le> d" "d < month_length ?l mon" "days = days_before ?l (unat mon) + d"
    using month_loop_spec [OF y(2,3) M] by auto
  have len: "month_length ?l mon \<le> 31" by (simp add: month_length_def days_in_month_def)
  have day: "uint (of_int (1 + d) :: u8) = 1 + d"
    using m(2,3) len by (subst uint_word_of_int) (simp add: take_bit_int_eq_self)
  have small: "?n mod 86400 div 3600 < 24" "?n mod 3600 div 60 < 60" "?n mod 60 < 60" unfolding clock_digits by simp_all
  let ?t = "\<lparr>tm_year = year, tm_mon = mon, tm_mday = of_int (1 + d), tm_hour = of_nat (?n mod 86400 div 3600),
    tm_min = of_nat (?n mod 3600 div 60), tm_sec = of_nat (?n mod 60)\<rparr>"
  have run: "gmtime_r timep = Some ?t" unfolding gmtime_r_eq [OF n] Y prod.case Let_def M ..
  have fields: "uint (tm_hour ?t) = int (?n mod 86400 div 3600)" "uint (tm_min ?t) = int (?n mod 3600 div 60)"
      "uint (tm_sec ?t) = int (?n mod 60)"
    unfolding tm.simps by (rule uint_of_nat_u8; use small in simp)+
  have "day_number ?t = int (?n div 86400)" unfolding day_number_def tm.simps day y(4) m(4) by simp
  then have "seconds_of ?t = int ?n" unfolding seconds_of_def fields by (simp only: seconds_fields [symmetric])
  moreover have "valid_tm ?t"
    using y(1) m(1,2,3) small unfolding valid_tm_def word_less_def fields tm.simps day
    by (simp add: uint_of_nat_u8)
  ultimately show ?thesis using run by blast
qed

text \<open>A value determines its date.\<close>

lemma seconds_of_inj:
  assumes v: "valid_tm t" and n: "seconds_of t = int (unat timep)" "unat timep < 2 ^ 31"
  shows "gmtime_r timep = Some t"
proof -
  let ?n = "unat timep" and ?y = "tm_year t" and ?m = "unat (tm_mon t)"
  let ?l = "is_leap_year (1900 + ?y)"
  note V = valid_tmD [OF v]
  let ?d = "uint (tm_mday t) - 1"
  have d: "0 \<le> ?d" "?d < month_length ?l (tm_mon t)" using v by (simp_all add: valid_tm_def)
  have D: "day_number t = days_between 70 ?y + (days_before ?l ?m + ?d)" by (simp add: day_number_def)
  have "days_before ?l (Suc ?m) \<le> days_before ?l 12" using V(2) by (intro days_before_mono) simp
  then have in_year: "0 \<le> days_before ?l ?m + ?d" "days_before ?l ?m + ?d < days_in_year ?y"
    using d days_before_mono [of 0 ?m ?l] by (simp_all add: days_before_year)
  then have D0: "0 \<le> day_number t" using D days_between_nonneg [of 70 ?y] by linarith
  have "int (((nat (day_number t) * 24 + unat (tm_hour t)) * 60 + unat (tm_min t)) * 60 + unat (tm_sec t)) = int ?n"
    using n(1) D0 by (simp add: seconds_of_def)
  then have eq: "((nat (day_number t) * 24 + unat (tm_hour t)) * 60 + unat (tm_min t)) * 60 + unat (tm_sec t) = ?n"
    by (simp only: of_nat_eq_iff)
  have "unat (tm_hour t) < 24" "unat (tm_min t) < 60" "unat (tm_sec t) < 60"
    using v by (simp_all add: valid_tm_def word_less_nat_alt)
  note f = seconds_unique [OF eq this]
  have "int (?n div 86400) = days_between 70 ?y + (days_before ?l ?m + ?d)" using f(1) D D0 by simp
  then have Y: "year_loop 70 (int (?n div 86400)) = (?y, days_before ?l ?m + ?d)"
    using year_loop_counts [OF V(1) in_year] by simp
  have M: "month_loop ?l 0 (days_before ?l ?m + ?d) = (tm_mon t, ?d)"
    using month_loop_counts [of 0 ?m ?d ?l] V(2) d by simp
  show ?thesis
    unfolding gmtime_r_eq [OF n(2)] Y prod.case Let_def M f(2-4) by simp
qed

section \<open>The Gregorian calendar\<close>

text \<open>The calendar itself, apart from the code: the leap years, the lengths of the months, and the days since the start of
  1970 in closed form (477 leap days come before that).\<close>

definition leap :: "int \<Rightarrow> bool" where
  "leap y \<longleftrightarrow> 4 dvd y \<and> (100 dvd y \<longrightarrow> 400 dvd y)"

definition month_table :: "bool \<Rightarrow> int list" where
  "month_table l = [31, if l then 29 else 28, 31, 30, 31, 30, 31, 31, 30, 31, 30, 31]"

definition gregorian :: "tm \<Rightarrow> bool" where
  "gregorian t \<longleftrightarrow> 1970 \<le> 1900 + tm_year t \<and> unat (tm_mon t) < 12 \<and> 1 \<le> uint (tm_mday t) \<and>
     uint (tm_mday t) \<le> month_table (leap (1900 + tm_year t)) ! unat (tm_mon t) \<and>
     unat (tm_hour t) < 24 \<and> unat (tm_min t) < 60 \<and> unat (tm_sec t) < 60"

definition leap_days :: "int \<Rightarrow> int" where
  "leap_days y = (y - 1) div 4 - (y - 1) div 100 + (y - 1) div 400 - 477"

definition epoch_seconds :: "tm \<Rightarrow> int" where
  "epoch_seconds t =
     (let y = 1900 + tm_year t;
          days = 365 * (y - 1970) + leap_days y + sum_list (take (unat (tm_mon t)) (month_table (leap y))) + (uint (tm_mday t) - 1)
      in 86400 * days + 3600 * uint (tm_hour t) + 60 * uint (tm_min t) + uint (tm_sec t))"

lemma is_leap_year_leap: "is_leap_year y \<longleftrightarrow> leap y"
proof -
  have "y AND 3 = take_bit 2 y" by (simp add: take_bit_eq_mask mask_eq_exp_minus_1)
  then have "y AND 3 = y mod 4" by (simp add: take_bit_eq_mod)
  then show ?thesis by (auto simp: is_leap_year_def leap_def dvd_eq_mod_eq_0)
qed

lemma month_length_table:
  assumes "m < 12"
  shows "month_length l (of_nat m) = month_table l ! m"
proof -
  have "m = 0 \<or> m = 1 \<or> m = 2 \<or> m = 3 \<or> m = 4 \<or> m = 5 \<or> m = 6 \<or> m = 7 \<or> m = 8 \<or> m = 9 \<or> m = 10 \<or> m = 11"
    using assms by presburger
  then show ?thesis by (auto simp: month_length_def days_in_month_def month_table_def)
qed

lemma days_before_table: "m \<le> 12 \<Longrightarrow> days_before l m = sum_list (take m (month_table l))"
proof (induction m)
  case (Suc m)
  moreover have "m < length (month_table l)" using Suc.prems by (simp add: month_table_def)
  ultimately show ?case by (simp add: month_length_table take_Suc_conv_app_nth)
qed simp

lemma div_step:
  fixes y k :: int
  assumes "0 < k"
  shows "y div k = (y - 1) div k + of_bool (k dvd y)"
proof -
  have "(y - 1) div k = (if k dvd y then y div k - 1 else y div k)"
  proof (cases "k dvd y")
    case True
    then obtain q where "y = k * q" by blast
    moreover have "(k * q - 1) div k = q - 1"
      by (rule int_div_pos_eq [of _ _ _ "k - 1"]) (use assms in \<open>simp_all add: algebra_simps\<close>)
    ultimately show ?thesis using assms by simp
  next
    case False
    then have "0 < y mod k" using assms by (metis dvd_eq_mod_eq_0 pos_mod_sign order_le_less)
    moreover have "y - 1 = k * (y div k) + (y mod k - 1)" by (simp add: algebra_simps)
    moreover have "y mod k - 1 < k" using pos_mod_bound [OF assms, of y] by linarith
    ultimately have "(y - 1) div k = y div k" by (intro int_div_pos_eq [of _ _ _ "y mod k - 1"]) simp_all
    then show ?thesis using False by simp
  qed
  then show ?thesis by simp
qed

lemma leap_days_step: "leap_days (y + 1) = leap_days y + of_bool (leap y)"
proof -
  have "(100 :: int) dvd y \<Longrightarrow> 4 dvd y" "(400 :: int) dvd y \<Longrightarrow> 100 dvd y" by (auto intro: dvd_trans [rotated])
  then have "of_bool (leap y) = (of_bool (4 dvd y) - of_bool (100 dvd y) + of_bool (400 dvd y) :: int)"
    unfolding leap_def of_bool_def by presburger
  moreover have "y div 4 = (y - 1) div 4 + of_bool (4 dvd y)" "y div 100 = (y - 1) div 100 + of_bool (100 dvd y)"
    "y div 400 = (y - 1) div 400 + of_bool (400 dvd y)" by (rule div_step; simp)+
  ultimately show ?thesis unfolding leap_days_def add_diff_cancel_right' by linarith
qed

lemma days_between_closed:
  assumes "70 \<le> y"
  shows "days_between 70 y = 365 * (y - 70) + leap_days (1900 + y)"
  using assms
proof (induction y rule: int_ge_induct)
  case base
  show ?case by (simp add: leap_days_def)
next
  case (step y)
  have "{70..<y + 1} = insert y {70..<y}" using step.hyps by auto
  then have "days_between 70 (y + 1) = days_in_year y + days_between 70 y" by (simp add: days_between_def)
  then show ?case using step leap_days_step [of "1900 + y"]
    by (simp add: days_in_year_def is_leap_year_leap add.commute add.left_commute)
qed

lemma gregorian_valid: "gregorian t \<longleftrightarrow> valid_tm t"
proof (cases "unat (tm_mon t) < 12")
  case True
  then have "month_length (leap (1900 + tm_year t)) (tm_mon t) = month_table (leap (1900 + tm_year t)) ! unat (tm_mon t)"
    using month_length_table [of "unat (tm_mon t)"] by simp
  then show ?thesis using True by (auto simp: gregorian_def valid_tm_def is_leap_year_leap word_less_nat_alt)
qed (simp add: gregorian_def valid_tm_def word_less_nat_alt)

lemma epoch_seconds_of:
  assumes "gregorian t"
  shows "epoch_seconds t = seconds_of t"
proof -
  have "70 \<le> tm_year t" "unat (tm_mon t) \<le> 12" using assms by (simp_all add: gregorian_def)
  then have "day_number t = 365 * (1900 + tm_year t - 1970) + leap_days (1900 + tm_year t) +
      sum_list (take (unat (tm_mon t)) (month_table (leap (1900 + tm_year t)))) + (uint (tm_mday t) - 1)"
    by (simp add: day_number_def days_between_closed days_before_table is_leap_year_leap)
  then show ?thesis by (simp add: epoch_seconds_def seconds_of_def Let_def algebra_simps)
qed

text \<open>C10: Up to the end of the 31 bits, in January 2038, the two conversions are those of the Gregorian calendar: \<^verbatim>\<open>gmtime_r\<close>
  returns the date at that number of seconds since the start of 1970 (by the closed formula for leap days,
  with months and days in their bounds), and it is the one and only date that \<^verbatim>\<open>mktime\<close> takes back to the same
  number.\<close>

theorem gmtime_r_mktime:
  assumes "unat timep < 2 ^ 31"
  shows "\<exists>t. gmtime_r timep = Some t \<and> gregorian t \<and> epoch_seconds t = int (unat timep) \<and>
     (\<forall>t'. gregorian t' \<and> mktime t' = Some (int (unat timep)) \<longleftrightarrow> t' = t)"
proof -
  have ok: "c_int (int (unat timep)) = Some (int (unat timep))"
    using assms unfolding c_int_def of_nat_less_numeral_power_cancel_iff by (simp add: order_trans [of _ 0])
  obtain t where t: "gmtime_r timep = Some t" "valid_tm t" "seconds_of t = int (unat timep)"
    using gmtime_r_spec [OF assms] by blast
  have "t' = t" if "valid_tm t'" "mktime t' = Some (int (unat timep))" for t'
  proof -
    have "c_int (seconds_of t') = Some (int (unat timep))" using that by (simp add: mktime_eq)
    then have "seconds_of t' = int (unat timep)" by (simp add: c_int_def split: if_splits)
    then show ?thesis using seconds_of_inj [OF that(1) _ assms] t(1) by simp
  qed
  moreover have "mktime t = Some (int (unat timep))" using mktime_eq [OF t(2)] by (simp only: t(3) ok)
  ultimately show ?thesis using t epoch_seconds_of unfolding gregorian_valid by metis
qed

theorem gmtime_r_mktime_witness:
  "unat (951782400 :: u64) < 2 ^ 31 \<and>
   (\<exists>t. gmtime_r 951782400 = Some t \<and> gregorian t \<and> epoch_seconds t = int (unat (951782400 :: u64)) \<and>
     (\<forall>t'. gregorian t' \<and> mktime t' = Some (int (unat (951782400 :: u64))) \<longleftrightarrow> t' = t))"
  using gmtime_r_mktime [of 951782400] by simp

text \<open>C40: From the first day after that one on, for as long as the count of days fits, \<^verbatim>\<open>gmtime_r\<close> overflows: it
  takes the days times the seconds of a day in an \<^verbatim>\<open>int\<close>.\<close>

theorem gmtime_r_overflows:
  assumes "24856 * 86400 \<le> unat timep" "unat timep < 2 ^ 31 * 86400"
  shows "gmtime_r timep = None"
proof -
  have d: "24856 \<le> unat timep div 86400" "unat timep div 86400 < 2 ^ 31"
    using div_le_mono [OF assms(1), of 86400] less_mult_imp_div_less [OF assms(2)] by simp_all
  have u: "unat (ucast (timep div 86400) :: 32 word) = unat timep div 86400"
    using d(2) by (simp add: unat_div unsigned_ucast_eq take_bit_nat_def)
  then have "sint (ucast (timep div 86400) :: 32 word) = int (unat timep div 86400)"
    using sint_small [of "ucast (timep div 86400)"] d(2) unfolding u by simp
  then show ?thesis using d(1) by (simp add: gmtime_r_def c_int_def Let_def)
qed

theorem gmtime_r_overflows_witness:
  "24856 * 86400 \<le> unat (2147558400 :: u64) \<and> unat (2147558400 :: u64) < 2 ^ 31 * 86400 \<and> gmtime_r 2147558400 = None"
  using gmtime_r_overflows [of 2147558400] by simp

end
