(* ===== verification/Sha256.thy ===== *)
theory Sha256
  imports Buffer
begin

text \<open>
  \<^verbatim>\<open>kernel/src/runtime/sha256.c\<close>: the SHA-256 digest of a buffer.

  The context absorbs bytes into a block of 64 and compresses each block when it is full; the final step
  pads. The lemmas bring this down to the standard's definition: the padded message is cut into blocks and
  the compression function folded over them, with the message schedule as a recurrence and rotations as the
  library's.
\<close>

unbundle bit_operations_syntax

section \<open>The words of a round\<close>

definition ROTRIGHT :: "u32 \<Rightarrow> nat \<Rightarrow> u32" where
  "ROTRIGHT a b = drop_bit b a OR push_bit (32 - b) a"

definition CH :: "u32 \<Rightarrow> u32 \<Rightarrow> u32 \<Rightarrow> u32" where
  "CH x y z = (x AND y) XOR (NOT x AND z)"

definition MAJ :: "u32 \<Rightarrow> u32 \<Rightarrow> u32 \<Rightarrow> u32" where
  "MAJ x y z = (x AND y) XOR (x AND z) XOR (y AND z)"

definition EP0 :: "u32 \<Rightarrow> u32" where
  "EP0 x = ROTRIGHT x 2 XOR ROTRIGHT x 13 XOR ROTRIGHT x 22"

definition EP1 :: "u32 \<Rightarrow> u32" where
  "EP1 x = ROTRIGHT x 6 XOR ROTRIGHT x 11 XOR ROTRIGHT x 25"

definition SIG0 :: "u32 \<Rightarrow> u32" where
  "SIG0 x = ROTRIGHT x 7 XOR ROTRIGHT x 18 XOR drop_bit 3 x"

definition SIG1 :: "u32 \<Rightarrow> u32" where
  "SIG1 x = ROTRIGHT x 17 XOR ROTRIGHT x 19 XOR drop_bit 10 x"

definition sha256_k :: "u32 list" where
  "sha256_k = concat [
    [0x428a2f98,0x71374491,0xb5c0fbcf,0xe9b5dba5,0x3956c25b,0x59f111f1,0x923f82a4,0xab1c5ed5],
    [0xd807aa98,0x12835b01,0x243185be,0x550c7dc3,0x72be5d74,0x80deb1fe,0x9bdc06a7,0xc19bf174],
    [0xe49b69c1,0xefbe4786,0x0fc19dc6,0x240ca1cc,0x2de92c6f,0x4a7484aa,0x5cb0a9dc,0x76f988da],
    [0x983e5152,0xa831c66d,0xb00327c8,0xbf597fc7,0xc6e00bf3,0xd5a79147,0x06ca6351,0x14292967],
    [0x27b70a85,0x2e1b2138,0x4d2c6dfc,0x53380d13,0x650a7354,0x766a0abb,0x81c2c92e,0x92722c85],
    [0xa2bfe8a1,0xa81a664b,0xc24b8b70,0xc76c51a3,0xd192e819,0xd6990624,0xf40e3585,0x106aa070],
    [0x19a4c116,0x1e376c08,0x2748774c,0x34b0bcb5,0x391c0cb3,0x4ed8aa4a,0x5b9cca4f,0x682e6ff3],
    [0x748f82ee,0x78a5636f,0x84c87814,0x8cc70208,0x90befffa,0xa4506ceb,0xbef9a3f7,0xc67178f2]]"

section \<open>The context\<close>

record sha256_ctx =
  sc_data :: "u8 list"
  sc_datalen :: nat
  sc_bitlen :: u64
  sc_state :: "u32 list"

definition load_word :: "u8 list \<Rightarrow> nat \<Rightarrow> u32" where
  "load_word data j =
     push_bit 24 (ucast (data ! j)) OR push_bit 16 (ucast (data ! (j + 1))) OR
     push_bit 8 (ucast (data ! (j + 2))) OR ucast (data ! (j + 3))"

definition extend_schedule :: "u32 list \<Rightarrow> nat \<Rightarrow> u32 list" where
  "extend_schedule m i = m @ [SIG1 (m ! (i - 2)) + m ! (i - 7) + SIG0 (m ! (i - 15)) + m ! (i - 16)]"

definition schedule :: "u8 list \<Rightarrow> u32 list" where
  "schedule data = foldl extend_schedule (map (\<lambda>i. load_word data (4 * i)) [0..<16]) [16..<64]"

type_synonym sha_vars = "u32 \<times> u32 \<times> u32 \<times> u32 \<times> u32 \<times> u32 \<times> u32 \<times> u32"

fun sha_round :: "u32 list \<Rightarrow> sha_vars \<Rightarrow> nat \<Rightarrow> sha_vars" where
  "sha_round m (a, b, c, d, e, f, g, h) i =
     (let t1 = h + EP1 e + CH e f g + sha256_k ! i + m ! i;
          t2 = EP0 a + MAJ a b c
      in (t1 + t2, a, b, c, d + t1, e, f, g))"

definition sha256_transform :: "sha256_ctx \<Rightarrow> u8 list \<Rightarrow> sha256_ctx" where
  "sha256_transform ctx data =
     (let m = schedule data;
          s = sc_state ctx;
          (a, b, c, d, e, f, g, h) =
            foldl (sha_round m) (s ! 0, s ! 1, s ! 2, s ! 3, s ! 4, s ! 5, s ! 6, s ! 7) [0..<64]
      in ctx\<lparr>sc_state := [s ! 0 + a, s ! 1 + b, s ! 2 + c, s ! 3 + d, s ! 4 + e, s ! 5 + f, s ! 6 + g, s ! 7 + h]\<rparr>)"

text \<open>\<^verbatim>\<open>sha256_init\<close> leaves the block as it finds it on the stack.\<close>

definition sha256_init :: "u8 list \<Rightarrow> sha256_ctx" where
  "sha256_init junk =
     \<lparr>sc_data = junk, sc_datalen = 0, sc_bitlen = 0,
      sc_state = [0x6a09e667, 0xbb67ae85, 0x3c6ef372, 0xa54ff53a, 0x510e527f, 0x9b05688c, 0x1f83d9ab, 0x5be0cd19]\<rparr>"

definition sha256_byte :: "sha256_ctx \<Rightarrow> u8 \<Rightarrow> sha256_ctx option" where
  "sha256_byte ctx x =
     (if sc_datalen ctx < length (sc_data ctx) then
        let ctx = ctx\<lparr>sc_data := (sc_data ctx)[sc_datalen ctx := x], sc_datalen := sc_datalen ctx + 1\<rparr>
        in Some (if sc_datalen ctx = 64
                 then (sha256_transform ctx (sc_data ctx))\<lparr>sc_bitlen := sc_bitlen ctx + 512, sc_datalen := 0\<rparr>
                 else ctx)
      else None)"

text \<open>The loop index has 32 bits and the length has 64: from 2 to the 32 bytes on the loop has no end, which is \<open>None\<close>.\<close>

partial_function (option) sha256_update_loop :: "u8 list \<Rightarrow> u64 \<Rightarrow> u32 \<Rightarrow> sha256_ctx \<Rightarrow> sha256_ctx option" where
  "sha256_update_loop data len i ctx =
     (if ucast i < len then do {
        x \<leftarrow> (if unat i < length data then Some (data ! unat i) else None);
        ctx \<leftarrow> sha256_byte ctx x;
        sha256_update_loop data len (i + 1) ctx
      } else Some ctx)"

declare sha256_update_loop.simps [code]

definition sha256_update :: "sha256_ctx \<Rightarrow> u8 list \<Rightarrow> u64 \<Rightarrow> sha256_ctx option" where
  "sha256_update ctx data len = sha256_update_loop data len 0 ctx"

text \<open>The loops that clear the rest of the block, from \<open>i\<close> up to \<open>n\<close>.\<close>

function clear_to :: "nat \<Rightarrow> nat \<Rightarrow> u8 list \<Rightarrow> u8 list" where
  "clear_to i n data = (if i < n then clear_to (i + 1) n (data[i := 0]) else data)"
  by pat_completeness auto
termination by (relation "measure (\<lambda>(i, n, _). n - i)") auto

declare clear_to.simps [simp del]

definition store_bitlen :: "u64 \<Rightarrow> u8 list \<Rightarrow> u8 list" where
  "store_bitlen n data =
     data[63 := ucast n, 62 := ucast (drop_bit 8 n), 61 := ucast (drop_bit 16 n), 60 := ucast (drop_bit 24 n),
          59 := ucast (drop_bit 32 n), 58 := ucast (drop_bit 40 n), 57 := ucast (drop_bit 48 n), 56 := ucast (drop_bit 56 n)]"

definition hash_bytes :: "u32 list \<Rightarrow> u8 list" where
  "hash_bytes state = concat (map (\<lambda>j. map (\<lambda>i. ucast (drop_bit (24 - i * 8) (state ! j) AND 0xff)) [0..<4]) [0..<8])"

definition sha256_final :: "sha256_ctx \<Rightarrow> u8 list" where
  "sha256_final ctx =
     (let i = sc_datalen ctx;
          data = (sc_data ctx)[i := 0x80];
          ctx = (if i < 56 then ctx\<lparr>sc_data := clear_to (i + 1) 56 data\<rparr>
                 else let data = clear_to (i + 1) 64 data;
                          ctx = sha256_transform (ctx\<lparr>sc_data := data\<rparr>) data
                      in ctx\<lparr>sc_data := replicate 56 0 @ drop 56 (sc_data ctx)\<rparr>);
          bitlen = sc_bitlen ctx + of_nat (sc_datalen ctx) * 8;
          ctx = ctx\<lparr>sc_bitlen := bitlen, sc_data := store_bitlen bitlen (sc_data ctx)\<rparr>;
          ctx = sha256_transform ctx (sc_data ctx)
      in hash_bytes (sc_state ctx))"

text \<open>\<^verbatim>\<open>sha256\<close>: the digest goes to the end of \<open>dest\<close>, which the assertion makes long enough.\<close>

definition sha256 :: "u8 heap \<Rightarrow> u8 list \<Rightarrow> bytebuf \<Rightarrow> bytebuf \<Rightarrow> bytebuf option" where
  "sha256 h junk dest source = do {
     (dest, ok) \<leftarrow> buffer_extend h dest 32;
     if \<not> ok then None
     else do {
       p \<leftarrow> buffer_ref source 0;
       data \<leftarrow> mem_slice (b_contents source) p (buffer_length source);
       c \<leftarrow> sha256_update (sha256_init junk) data (of_nat (buffer_length source));
       contents \<leftarrow> memcpy_to (b_contents dest) (b_end dest) (sha256_final c);
       buffer_produce (dest\<lparr>b_contents := contents\<rparr>) 32
     }
   }"

section \<open>The standard\<close>

definition Sigma0 :: "u32 \<Rightarrow> u32" where
  "Sigma0 x = word_rotr 2 x XOR word_rotr 13 x XOR word_rotr 22 x"

definition Sigma1 :: "u32 \<Rightarrow> u32" where
  "Sigma1 x = word_rotr 6 x XOR word_rotr 11 x XOR word_rotr 25 x"

definition sigma0 :: "u32 \<Rightarrow> u32" where
  "sigma0 x = word_rotr 7 x XOR word_rotr 18 x XOR drop_bit 3 x"

definition sigma1 :: "u32 \<Rightarrow> u32" where
  "sigma1 x = word_rotr 17 x XOR word_rotr 19 x XOR drop_bit 10 x"

text \<open>Word \<open>t\<close> of the message schedule; the first sixteen are the big-endian words of the block.\<close>

fun W :: "u8 list \<Rightarrow> nat \<Rightarrow> u32" where
  "W blk t =
     (if t < 16 then of_nat (foldl (\<lambda>v x. 256 * v + unat x) 0 (take 4 (drop (4 * t) blk)))
      else sigma1 (W blk (t - 2)) + W blk (t - 7) + sigma0 (W blk (t - 15)) + W blk (t - 16))"

declare W.simps [simp del]

text \<open>The working variables after \<open>t\<close> rounds, as a list.\<close>

fun working :: "u32 list \<Rightarrow> u8 list \<Rightarrow> nat \<Rightarrow> u32 list" where
  "working H blk 0 = H"
| "working H blk (Suc t) =
     (let v = working H blk t;
          t1 = v ! 7 + Sigma1 (v ! 4) + CH (v ! 4) (v ! 5) (v ! 6) + sha256_k ! t + W blk t;
          t2 = Sigma0 (v ! 0) + MAJ (v ! 0) (v ! 1) (v ! 2)
      in (t1 + t2) # v ! 0 # v ! 1 # v ! 2 # (v ! 3 + t1) # v ! 4 # v ! 5 # v ! 6 # [])"

definition compress :: "u32 list \<Rightarrow> u8 list \<Rightarrow> u32 list" where
  "compress H blk = map2 (+) H (working H blk 64)"

definition initial_hash :: "u32 list" where
  "initial_hash = [0x6a09e667, 0xbb67ae85, 0x3c6ef372, 0xa54ff53a, 0x510e527f, 0x9b05688c, 0x1f83d9ab, 0x5be0cd19]"

definition big_endian :: "nat \<Rightarrow> nat \<Rightarrow> u8 list" where
  "big_endian n v = map (\<lambda>i. of_nat (v div 256 ^ (n - 1 - i))) [0..<n]"

definition padded :: "u8 list \<Rightarrow> u8 list" where
  "padded msg = msg @ [0x80] @ replicate ((119 - length msg mod 64) mod 64) 0 @ big_endian 8 (8 * length msg)"

function blocks :: "u8 list \<Rightarrow> u8 list list" where
  "blocks xs = (if length xs < 64 then [] else take 64 xs # blocks (drop 64 xs))"
  by pat_completeness auto
termination by (relation "measure length") auto

declare blocks.simps [simp del]

definition digest :: "u8 list \<Rightarrow> u8 list" where
  "digest msg = concat (map (\<lambda>w. big_endian 4 (unat w)) (foldl compress initial_hash (blocks (padded msg))))"

text \<open>The constants are the leading fractional bits of the cube roots of the first 64 primes and of the square roots
  of the first 8.\<close>

definition primes :: "nat list" where
  "primes = [2, 3, 5, 7, 11, 13, 17, 19, 23, 29, 31, 37, 41, 43, 47, 53, 59, 61, 67, 71, 73, 79, 83, 89, 97, 101, 103, 107, 109,
    113, 127, 131, 137, 139, 149, 151, 157, 163, 167, 173, 179, 181, 191, 193, 197, 199, 211, 223, 227, 229, 233, 239, 241,
    251, 257, 263, 269, 271, 277, 281, 283, 293, 307, 311]"

definition root_bits :: "nat \<Rightarrow> nat \<Rightarrow> nat \<Rightarrow> bool" where
  "root_bits n p w \<longleftrightarrow> (\<exists>q. (q * 2 ^ 32 + w) ^ n \<le> p * 2 ^ (32 * n) \<and> p * 2 ^ (32 * n) < (q * 2 ^ 32 + w + 1) ^ n)"

lemma list_all2_root_bits:
  assumes "length qs = length ws"
    "list_all2 (\<lambda>p (q, w). (q * 2 ^ 32 + w) ^ n \<le> p * 2 ^ (32 * n) \<and> p * 2 ^ (32 * n) < (q * 2 ^ 32 + w + 1) ^ n) ps (zip qs ws)"
  shows "list_all2 (root_bits n) ps ws"
proof -
  have "list_all2 (\<lambda>p z. root_bits n p (snd z)) ps (zip qs ws)"
    using assms(2) by (rule list_all2_mono) (auto simp: root_bits_def)
  then have "list_all2 (root_bits n) ps (map snd (zip qs ws))" by (simp add: list_all2_map2)
  then show ?thesis using assms(1) by simp
qed

lemma sha256_k_roots: "list_all2 (root_bits 3) primes (map unat sha256_k)"
  by (rule list_all2_root_bits [where qs = "[1, 1, 1, 1, 2, 2, 2, 2, 2, 3, 3, 3, 3, 3, 3, 3, 3, 3, 4, 4, 4, 4, 4, 4, 4, 4, 4, 4, 4, 4, 5, 5, 5, 5, 5, 5, 5, 5, 5, 5, 5, 5, 5, 5, 5, 5, 5, 6, 6, 6, 6, 6, 6, 6, 6, 6, 6, 6, 6, 6, 6, 6, 6, 6]"])
    (simp_all add: primes_def sha256_k_def)

lemma initial_hash_roots: "list_all2 (root_bits 2) (take 8 primes) (map unat initial_hash)"
  by (rule list_all2_root_bits [where qs = "[1, 1, 2, 2, 3, 3, 4, 4]"])
    (simp_all add: primes_def initial_hash_def)

section \<open>One block\<close>

declare upt_rec_numeral [simp del]

lemma rotr_eq:
  assumes "0 < b" "b < 32"
  shows "ROTRIGHT a b = word_rotr b a"
proof (rule bit_word_eqI)
  fix n assume "n < LENGTH(32)"
  then have n: "n < 32" by simp
  have "(n + b) mod 32 = (if n + b < 32 then n + b else n + b - 32)" using n assms by (simp add: mod_if)
  then show "bit (ROTRIGHT a b) n \<longleftrightarrow> bit (word_rotr b a) n"
    using n assms by (auto simp: ROTRIGHT_def bit_or_iff bit_drop_bit_eq bit_push_bit_iff bit_word_rotr_iff add.commute
        dest: bit_imp_le_length)
qed

lemmas rotations = EP0_def EP1_def SIG0_def SIG1_def Sigma0_def Sigma1_def sigma0_def sigma1_def rotr_eq

lemma round_words: "EP0 = Sigma0" "EP1 = Sigma1" "SIG0 = sigma0" "SIG1 = sigma1"
  by (simp_all add: rotations fun_eq_iff)

lemma shift_in_byte: "(of_nat (256 * v + unat (x :: u8)) :: u32) = push_bit 8 (of_nat v) OR ucast x"
proof -
  have "(of_nat (256 * v + unat x) :: u32) = push_bit 8 (of_nat v) + ucast x"
    by (simp add: push_bit_eq_mult mult.commute)
  also have "\<dots> = push_bit 8 (of_nat v) OR ucast x"
    by (rule disjunctive_add) (auto simp: bit_push_bit_iff bit_ucast_iff dest: bit_imp_le_length)
  finally show ?thesis .
qed

lemma load_word_W:
  assumes "t < 16" "length blk = 64"
  shows "load_word blk (4 * t) = W blk t"
proof -
  have i: "4 * t + 3 < length blk" using assms by simp
  have "take 4 (drop (4 * t) blk) = [blk ! (4 * t), blk ! (4 * t + 1), blk ! (4 * t + 2), blk ! (4 * t + 3)]"
    using i by (intro nth_equalityI) (auto simp: less_Suc_eq numeral_eq_Suc)
  then have "W blk t = of_nat (256 * (256 * (256 * (256 * 0 + unat (blk ! (4 * t))) + unat (blk ! (4 * t + 1))) + unat (blk ! (4 * t + 2))) + unat (blk ! (4 * t + 3)))"
    using assms(1) by (subst W.simps) simp
  also have "\<dots> = load_word blk (4 * t)"
    unfolding shift_in_byte by (simp add: load_word_def push_bit_or or.assoc)
  finally show ?thesis by simp
qed

lemma schedule_W:
  assumes "length blk = 64"
  shows "schedule blk = map (W blk) [0..<64]"
proof -
  have "foldl extend_schedule (map (\<lambda>i. load_word blk (4 * i)) [0..<16]) [16..<n] = map (W blk) [0..<n]" if "16 \<le> n" for n
    using that
  proof (induction n rule: nat_induct_at_least)
    case base
    show ?case using assms by (simp add: load_word_W)
  next
    case (Suc n)
    have "W blk n = sigma1 (W blk (n - 2)) + W blk (n - 7) + sigma0 (W blk (n - 15)) + W blk (n - 16)"
      using Suc.hyps by (subst W.simps) simp
    then show ?case using Suc by (simp add: extend_schedule_def round_words)
  qed
  then show ?thesis unfolding schedule_def by simp
qed

definition vars :: "u32 list \<Rightarrow> sha_vars" where
  "vars v = (v ! 0, v ! 1, v ! 2, v ! 3, v ! 4, v ! 5, v ! 6, v ! 7)"

lemma rounds_working:
  assumes "length blk = 64" "n \<le> 64"
  shows "foldl (sha_round (schedule blk)) (vars H) [0..<n] = vars (working H blk n)"
  using assms(2)
proof (induction n)
  case (Suc n)
  then show ?case
    by (simp add: vars_def schedule_W [OF assms(1)] round_words Let_def)
qed simp

lemma working_length [simp]: "length H = 8 \<Longrightarrow> length (working H blk n) = 8"
  by (cases n) (simp_all add: Let_def)

lemma compress_length [simp]: "length H = 8 \<Longrightarrow> length (compress H blk) = 8"
  by (simp add: compress_def)

lemma initial_hash_length [simp]: "length initial_hash = 8"
  by (simp add: initial_hash_def)

lemma foldl_compress_length [simp]: "length H = 8 \<Longrightarrow> length (foldl compress H bs) = 8"
  by (induction bs arbitrary: H) simp_all

lemma list_8:
  assumes "length xs = 8"
  shows "xs = [xs ! 0, xs ! 1, xs ! 2, xs ! 3, xs ! 4, xs ! 5, xs ! 6, xs ! 7]"
  using assms by (intro nth_equalityI) (auto simp: less_Suc_eq numeral_eq_Suc)

lemma sha256_transform_compress:
  assumes "length (sc_state ctx) = 8" "length blk = 64"
  shows "sha256_transform ctx blk = ctx\<lparr>sc_state := compress (sc_state ctx) blk\<rparr>"
proof -
  let ?s = "sc_state ctx" and ?v = "working (sc_state ctx) blk 64"
  have "compress ?s blk = map2 (+) [?s ! 0, ?s ! 1, ?s ! 2, ?s ! 3, ?s ! 4, ?s ! 5, ?s ! 6, ?s ! 7]
      [?v ! 0, ?v ! 1, ?v ! 2, ?v ! 3, ?v ! 4, ?v ! 5, ?v ! 6, ?v ! 7]"
    unfolding compress_def using list_8 [OF assms(1)] list_8 [of ?v] assms(1) by simp
  then show ?thesis
    using rounds_working [OF assms(2), of 64 ?s] by (simp add: sha256_transform_def vars_def Let_def)
qed

section \<open>Absorbing bytes\<close>

lemma blocks_append:
  assumes "length p mod 64 = 0"
  shows "blocks (p @ q) = blocks p @ blocks q"
  using assms
proof (induction p rule: blocks.induct)
  case (1 p)
  show ?case
  proof (cases "length p < 64")
    case True
    then show ?thesis using "1.prems" by (simp add: blocks.simps [of "[]"])
  next
    case False
    then have "blocks (drop 64 p @ q) = blocks (drop 64 p) @ blocks q"
      using "1.prems" by (intro "1.IH") (simp_all add: le_mod_geq)
    then show ?thesis using False by (simp add: blocks.simps [of "p @ q"] blocks.simps [of p])
  qed
qed

lemma blocks_short [simp]: "length q < 64 \<Longrightarrow> blocks q = []"
  by (subst blocks.simps) simp

lemma blocks_one [simp]: "length q = 64 \<Longrightarrow> blocks q = [q]"
  by (subst blocks.simps) simp

text \<open>The context has absorbed \<open>p @ r\<close>: the blocks of \<open>p\<close> are in the state and \<open>r\<close> is in the block.\<close>

definition holds_message :: "u8 list \<Rightarrow> u8 list \<Rightarrow> sha256_ctx \<Rightarrow> bool" where
  "holds_message p r ctx \<longleftrightarrow>
     length (sc_data ctx) = 64 \<and> length (sc_state ctx) = 8 \<and> length p mod 64 = 0 \<and> length r < 64 \<and>
     sc_datalen ctx = length r \<and> take (length r) (sc_data ctx) = r \<and>
     sc_state ctx = foldl compress initial_hash (blocks p) \<and> sc_bitlen ctx = of_nat (8 * length p)"

definition absorbed :: "u8 list \<Rightarrow> sha256_ctx \<Rightarrow> bool" where
  "absorbed msg ctx \<longleftrightarrow> (\<exists>p r. msg = p @ r \<and> holds_message p r ctx)"

lemma absorbed_init: "length junk = 64 \<Longrightarrow> absorbed [] (sha256_init junk)"
  by (simp add: absorbed_def holds_message_def sha256_init_def initial_hash_def)

lemma take_update: "n < length xs \<Longrightarrow> take (Suc n) (xs[n := x]) = take n xs @ [x]"
  by (simp add: take_Suc_conv_app_nth)

lemma sha256_byte_spec:
  assumes "absorbed msg ctx"
  shows "ensures (sha256_byte ctx x) (absorbed (msg @ [x]))"
proof -
  obtain p r where msg: "msg = p @ r" and h: "holds_message p r ctx" using assms by (auto simp: absorbed_def)
  note H = h [unfolded holds_message_def]
  have len: "length (sc_data ctx) = 64" "length (sc_state ctx) = 8" "sc_datalen ctx = length r" "length r < 64" using H by simp_all
  let ?d = "(sc_data ctx)[length r := x]"
  have d: "take (Suc (length r)) ?d = r @ [x]" using H by (simp add: take_update)
  show ?thesis
  proof (cases "Suc (length r) = 64")
    case True
    then have blk: "?d = r @ [x]" using d H by simp
    let ?c = "ctx\<lparr>sc_data := r @ [x], sc_state := compress (sc_state ctx) (r @ [x]), sc_bitlen := sc_bitlen ctx + 512, sc_datalen := 0\<rparr>"
    have "sha256_byte ctx x = Some ?c"
      using len True blk by (simp add: sha256_byte_def sha256_transform_compress Let_def)
    moreover have "holds_message (p @ r @ [x]) [] ?c"
    proof -
      have "length (p @ r @ [x]) = length p + 64" "length (r @ [x]) = 64" using True by simp_all
      moreover have "blocks (p @ r @ [x]) = blocks p @ [r @ [x]]" using H True by (simp add: blocks_append)
      ultimately show ?thesis using H True by (simp add: holds_message_def algebra_simps del: length_append)
    qed
    ultimately show ?thesis unfolding absorbed_def msg by auto
  next
    case False
    then have "sha256_byte ctx x = Some (ctx\<lparr>sc_data := ?d, sc_datalen := length r + 1\<rparr>)"
      using H by (simp add: sha256_byte_def Let_def)
    moreover have "holds_message p (r @ [x]) (ctx\<lparr>sc_data := ?d, sc_datalen := length r + 1\<rparr>)"
      using H d False by (simp add: holds_message_def)
    ultimately show ?thesis unfolding absorbed_def msg by auto
  qed
qed

lemma sha256_update_loop_spec:
  assumes "length data < 2 ^ 32" "k \<le> length data" "absorbed (msg @ take k data) ctx"
  shows "ensures (sha256_update_loop data (of_nat (length data)) (of_nat k) ctx) (absorbed (msg @ data))"
  using assms(2,3)
proof (induction "length data - k" arbitrary: k ctx)
  case 0
  then have k: "k = length data" by simp
  have "unat (ucast (of_nat k :: u32) :: u64) = k" "unat (of_nat k :: u64) = k"
    using assms(1) k by (simp_all add: unsigned_ucast_eq unat_of_nat take_bit_nat_def)
  then have "\<not> ucast (of_nat k :: u32) < (of_nat (length data) :: u64)" by (simp add: k word_less_nat_alt)
  then show ?case using 0 k by (subst sha256_update_loop.simps) simp
next
  case (Suc n)
  then have k: "k < length data" by simp
  have u: "unat (of_nat k :: u32) = k" using k assms(1) by (subst unat_of_nat) simp
  have "unat (ucast (of_nat k :: u32) :: u64) = k" "unat (of_nat (length data) :: u64) = length data"
    using assms(1) k by (simp_all add: unsigned_ucast_eq unat_of_nat take_bit_nat_def)
  then have lt: "ucast (of_nat k :: u32) < (of_nat (length data) :: u64)" using k by (simp add: word_less_nat_alt)
  obtain c where c: "sha256_byte ctx (data ! k) = Some c" "absorbed (msg @ take (Suc k) data) c"
    using sha256_byte_spec [OF Suc.prems(2), of "data ! k"] k by (auto simp: take_Suc_conv_app_nth elim!: ensuresE)
  have "ensures (sha256_update_loop data (of_nat (length data)) (of_nat (Suc k)) c) (absorbed (msg @ data))"
    using Suc.hyps(2) k c(2) by (intro Suc.hyps(1)) auto
  then show ?case using lt u k c(1) by (subst sha256_update_loop.simps) (simp add: add.commute)
qed

section \<open>Padding\<close>

lemma clear_to_eq:
  assumes "i \<le> n" "n \<le> length data"
  shows "clear_to i n data = take i data @ replicate (n - i) 0 @ drop n data"
  using assms
proof (induction "n - i" arbitrary: i data)
  case 0
  then show ?case by (subst clear_to.simps) simp
next
  case (Suc m)
  then have i: "i < n" by simp
  have "clear_to (i + 1) n (data[i := 0]) = take (i + 1) (data[i := 0]) @ replicate (n - (i + 1)) 0 @ drop n (data[i := 0])"
    using Suc i by (intro Suc.hyps(1)) auto
  moreover have "replicate (n - i) 0 = 0 # replicate (n - (i + 1)) (0 :: u8)" using i by (simp add: Suc_diff_Suc flip: replicate_Suc)
  ultimately show ?case using i Suc.prems by (subst clear_to.simps) (simp add: take_update)
qed

lemma ucast_drop_bit:
  assumes "v < 2 ^ 64"
  shows "(ucast (drop_bit k (of_nat v :: u64)) :: u8) = of_nat (v div 2 ^ k)"
proof -
  have "unat (of_nat v :: u64) = v" using assms by (subst unat_of_nat) simp
  then show ?thesis
    by (simp add: word_unat_eq_iff unsigned_ucast_eq unsigned_drop_bit_eq unat_of_nat take_bit_nat_def drop_bit_nat_def)
qed

lemma store_bitlen_eq:
  assumes "length data = 64" "v < 2 ^ 64"
  shows "store_bitlen (of_nat v) data = take 56 data @ big_endian 8 v"
proof -
  have "data = take 56 data @ drop 56 data" by simp
  moreover have "drop 56 data = [drop 56 data ! 0, drop 56 data ! 1, drop 56 data ! 2, drop 56 data ! 3,
      drop 56 data ! 4, drop 56 data ! 5, drop 56 data ! 6, drop 56 data ! 7]"
    using assms(1) by (intro list_8) simp
  ultimately obtain a b c d e f g h where data: "data = take 56 data @ [a, b, c, d, e, f, g, h]" by metis
  have "length (take 56 data) = 56" using assms(1) by simp
  then show ?thesis
    using ucast_drop_bit [OF assms(2), of 0] ucast_drop_bit [OF assms(2)]
    by (subst data) (simp add: store_bitlen_def list_update_append big_endian_def upt_rec)
qed

lemma store_bitlen_append:
  "length A = 56 \<Longrightarrow> length B = 8 \<Longrightarrow> v < 2 ^ 64 \<Longrightarrow> store_bitlen (of_nat v) (A @ B) = A @ big_endian 8 v"
  by (simp add: store_bitlen_eq)

lemma ucast_low_byte: "(ucast (drop_bit k (w :: u32) AND 0xff) :: u8) = of_nat (unat w div 2 ^ k)"
proof -
  have "drop_bit k w AND 0xff = take_bit 8 (drop_bit k w)" by (simp add: take_bit_eq_mask mask_eq_exp_minus_1)
  moreover have "unat w mod 4294967296 = unat w" using unsigned_less [of w, where ?'a = nat] by simp
  ultimately show ?thesis
    by (simp add: word_unat_eq_iff unsigned_ucast_eq unsigned_drop_bit_eq unsigned_take_bit_eq unat_of_nat take_bit_nat_def
        drop_bit_nat_def)
qed

lemma hash_bytes_eq:
  assumes "length state = 8"
  shows "hash_bytes state = concat (map (\<lambda>w. big_endian 4 (unat w)) state)"
proof -
  have "map (\<lambda>i. ucast (drop_bit (24 - i * 8) w AND 0xff)) [0..<4] = big_endian 4 (unat w)" for w :: u32
    by (simp add: big_endian_def ucast_low_byte upt_rec)
  then have "hash_bytes state = concat (map (\<lambda>j. big_endian 4 (unat (state ! j))) [0..<8])"
    unfolding hash_bytes_def by simp
  also have "map (\<lambda>j. big_endian 4 (unat (state ! j))) [0..<8] = map (\<lambda>w. big_endian 4 (unat w)) (map ((!) state) [0..<length state])"
    using assms by simp
  finally show ?thesis by (simp only: map_nth)
qed

text \<open>The two shapes of the padding: the length fits the last block, or takes one more.\<close>

lemma padded_eq:
  assumes "length p mod 64 = 0" "length r < 64"
  shows "padded (p @ r) = p @ r @ [0x80] @ replicate (if length r < 56 then 55 - length r else 119 - length r) 0 @
     big_endian 8 (8 * length (p @ r))"
proof -
  have "length (p @ r) mod 64 = length r" using assms by (metis length_append mod_add_left_eq add_0 mod_less)
  then have "(119 - length (p @ r) mod 64) mod 64 = (if length r < 56 then 55 - length r else 119 - length r)"
    using assms(2) by (simp add: mod_if)
  then show ?thesis by (simp add: padded_def)
qed

lemma sha256_final_digest:
  assumes "absorbed msg ctx" "length msg < 2 ^ 61"
  shows "sha256_final ctx = digest msg"
proof -
  obtain p r where msg: "msg = p @ r" and h: "holds_message p r ctx" using assms(1) by (auto simp: absorbed_def)
  note H = h [unfolded holds_message_def]
  let ?n = "length r" and ?len = "8 * length msg" and ?S = "foldl compress initial_hash (blocks p)"
  have len: "length (sc_data ctx) = 64" "length (sc_state ctx) = 8" "sc_datalen ctx = ?n" "?n < 64" "take ?n (sc_data ctx) = r"
    "sc_state ctx = ?S" "length p mod 64 = 0" using H by simp_all
  have bitlen: "sc_bitlen ctx + of_nat ?n * 8 = of_nat ?len" using H by (simp add: msg)
  have small: "?len < 2 ^ 64" using assms(2) by simp
  have be: "length (big_endian 8 ?len) = 8" by (simp add: big_endian_def)
  have mark: "take (?n + 1) ((sc_data ctx)[?n := 0x80]) = r @ [0x80]" using len by (simp add: take_update)
  show ?thesis
  proof (cases "?n < 56")
    case True
    define A where "A = r @ [0x80] @ replicate (55 - ?n) 0"
    have A: "length A = 56" using True by (simp add: A_def)
    have "clear_to (?n + 1) 56 ((sc_data ctx)[?n := 0x80]) = A @ drop 56 (sc_data ctx)"
      using True len(1) by (simp add: clear_to_eq mark [simplified] A_def)
    moreover have "store_bitlen (of_nat ?len) (A @ drop 56 (sc_data ctx)) = A @ big_endian 8 ?len"
      using A len(1) small by (intro store_bitlen_append) simp_all
    ultimately have "sha256_final ctx = hash_bytes (compress ?S (A @ big_endian 8 ?len))"
      using True len(2,3,6) bitlen A be by (simp add: sha256_final_def Let_def sha256_transform_compress)
    moreover have "blocks (padded msg) = blocks p @ [A @ big_endian 8 ?len]"
      using True len(4,7) A be padded_eq [OF len(7,4)] by (simp add: msg blocks_append A_def)
    ultimately show ?thesis by (simp add: digest_def hash_bytes_eq)
  next
    case False
    define A where "A = r @ [0x80] @ replicate (63 - ?n) 0"
    have A: "length A = 64" using False len(4) by (simp add: A_def)
    have clear: "clear_to (?n + 1) 64 ((sc_data ctx)[?n := 0x80]) = A"
      using len(1,4) by (simp add: clear_to_eq mark [simplified] A_def)
    have "store_bitlen (of_nat ?len) (replicate 56 0 @ drop 56 A) = replicate 56 0 @ big_endian 8 ?len"
      using A small by (intro store_bitlen_append) simp_all
    then have "sha256_final ctx = hash_bytes (compress (compress ?S A) (replicate 56 0 @ big_endian 8 ?len))"
      using False len(2,3,6) bitlen A be by (simp add: sha256_final_def clear [simplified] Let_def sha256_transform_compress)
    moreover have "padded msg = p @ A @ replicate 56 0 @ big_endian 8 ?len"
    proof -
      have "119 - ?n = (63 - ?n) + 56" using len(4) by simp
      then have "replicate (119 - ?n) (0 :: u8) = replicate (63 - ?n) 0 @ replicate 56 0" by (simp only: replicate_add)
      then show ?thesis using False padded_eq [OF len(7,4)] by (simp add: msg A_def)
    qed
    then have "blocks (padded msg) = blocks p @ [A, replicate 56 0 @ big_endian 8 ?len]"
      using len(7) A be by (simp add: blocks_append)
    ultimately show ?thesis by (simp add: digest_def hash_bytes_eq)
  qed
qed

lemma digest_length: "length (digest msg) = 32"
proof -
  have "length (concat (map (\<lambda>w. big_endian 4 (unat w)) ws)) = 4 * length ws" for ws :: "u32 list"
    by (induction ws) (simp_all add: big_endian_def)
  then show ?thesis by (simp add: digest_def)
qed

text \<open>C4: The code computes SHA-256. For every source of less than 2 to the 32 bytes, whatever the stack holds, \<^verbatim>\<open>sha256\<close>
  returns and appends to the destination the digest that the standard defines: the message padded with a one
  bit, zeros and its length, cut into blocks of 64 bytes, and the compression function (its schedule given by
  the recurrence, its rotations by those of the library) folded over them from the initial hash.\<close>

theorem sha256_correct:
  assumes "buffer_wf dest" "buffer_wf source" "heap_ok h" "heap_grants h" "\<not> b_wrapped dest"
    and "length junk = 64" "length (blist source) < 2 ^ 32"
  shows "\<exists>dest'. sha256 h junk dest source = Some dest' \<and> buffer_wf dest' \<and> blist dest' = blist dest @ digest (blist source)"
proof -
  let ?src = "blist source"
  have len: "length ?src = buffer_length source" using assms(2) by (rule length_blist)
  obtain d where ext: "buffer_extend h dest 32 = Some (d, True)" and d: "buffer_wf d" "blist d = blist dest" "b_end d + 32 \<le> b_length d"
    using buffer_extend_spec [OF assms(1,3), of 32] buffer_extend_granted [OF assms(1,3-5), of 32] by (auto elim!: ensuresE)
  obtain p where src: "buffer_ref source 0 = Some p" "mem_slice (b_contents source) p (buffer_length source) = Some ?src"
    using assms(2) by (auto simp: buffer_ref_def buffer_wf_def mem_slice_def buffer_length_def blist_def drop_take)
  have "ensures (sha256_update_loop ?src (of_nat (length ?src)) (of_nat 0) (sha256_init junk)) (absorbed ([] @ ?src))"
    using assms(6,7) by (intro sha256_update_loop_spec) (simp_all add: absorbed_init)
  then obtain c where c: "sha256_update (sha256_init junk) ?src (of_nat (buffer_length source)) = Some c" "absorbed ?src c"
    by (auto simp: sha256_update_def len elim!: ensuresE)
  have "length ?src < 2 ^ 61" using assms(7) by simp
  then have fin: "sha256_final c = digest ?src" using c(2) sha256_final_digest by blast
  let ?b = "d\<lparr>b_contents := take (b_end d) (b_contents d) @ digest ?src @ drop (b_end d + 32) (b_contents d), b_end := b_end d + 32\<rparr>"
  have "sha256 h junk dest source = Some ?b"
    using d buffer_wf_start [OF d(1)] buffer_wfD [OF d(1)]
    by (simp add: sha256_def ext src c(1) fin memcpy_to_def digest_length buffer_produce_def)
  then show ?thesis using store_at_end [OF d(1), of "digest ?src"] d by (simp add: digest_length)
qed

lemma wrap_buffer_wf [simp]: "buffer_wf (wrap_buffer xs)" "blist (wrap_buffer xs) = xs"
  by (simp_all add: buffer_wf_def wrap_buffer_def blist_def)

theorem sha256_correct_witness:
  "\<exists>dest'. sha256 zero_heap (replicate 64 0) small_buffer (wrap_buffer [0x61, 0x62, 0x63]) = Some dest' \<and> buffer_wf dest' \<and>
     blist dest' = blist small_buffer @ digest (blist (wrap_buffer [0x61, 0x62, 0x63]))"
  using sha256_correct [of small_buffer "wrap_buffer [0x61, 0x62, 0x63]" zero_heap "replicate 64 0"] by simp

text \<open>The digest of \<^verbatim>\<open>abc\<close>, as in the standard's example.\<close>

lemma sha256_abc:
  "map_option sha256_final (sha256_update (sha256_init (replicate 64 0)) [0x61, 0x62, 0x63] 3) =
   Some [0xba, 0x78, 0x16, 0xbf, 0x8f, 0x01, 0xcf, 0xea, 0x41, 0x41, 0x40, 0xde, 0x5d, 0xae, 0x22, 0x23,
     0xb0, 0x03, 0x61, 0xa3, 0x96, 0x17, 0x7a, 0x9c, 0xb4, 0x10, 0xff, 0x61, 0xf2, 0x00, 0x15, 0xad]"
  by code_simp

declare upt_rec_numeral [simp]

end
