(* ===== verification/Linked_List.thy ===== *)
theory Linked_List
  imports Prelude
begin

text \<open>
  \<^verbatim>\<open>kernel/src/runtime/list.h\<close>: circular doubly linked lists threaded through the objects they hold.

  The links live in a store that maps addresses to addresses, so that the model has the aliasing of the code:
  a list and its members are nodes alike, and in a short list one node is reached in several ways. Following
  or writing a link of the null pointer, and a failed assertion, are \<open>None\<close>.
\<close>

section \<open>The store\<close>

record list_store =
  ls_prev :: "ptr \<Rightarrow> ptr"
  ls_next :: "ptr \<Rightarrow> ptr"

definition read_prev :: "list_store \<Rightarrow> ptr \<Rightarrow> ptr option" where
  "read_prev s p = (if p = 0 then None else Some (ls_prev s p))"

definition read_next :: "list_store \<Rightarrow> ptr \<Rightarrow> ptr option" where
  "read_next s p = (if p = 0 then None else Some (ls_next s p))"

definition write_prev :: "list_store \<Rightarrow> ptr \<Rightarrow> ptr \<Rightarrow> list_store option" where
  "write_prev s p v = (if p = 0 then None else Some (s\<lparr>ls_prev := (ls_prev s)(p := v)\<rparr>))"

definition write_next :: "list_store \<Rightarrow> ptr \<Rightarrow> ptr \<Rightarrow> list_store option" where
  "write_next s p v = (if p = 0 then None else Some (s\<lparr>ls_next := (ls_next s)(p := v)\<rparr>))"

lemmas store_defs = read_prev_def read_next_def write_prev_def write_next_def

section \<open>Operations\<close>

definition list_init :: "list_store \<Rightarrow> ptr \<Rightarrow> list_store option" where
  "list_init s head = do { s \<leftarrow> write_next s head head; write_prev s head head }"

definition list_init_member :: "list_store \<Rightarrow> ptr \<Rightarrow> list_store option" where
  "list_init_member s p = do { s \<leftarrow> write_next s p 0; write_prev s p 0 }"

definition list_empty :: "list_store \<Rightarrow> ptr \<Rightarrow> bool option" where
  "list_empty s head = do {
     n \<leftarrow> read_next s head;
     p \<leftarrow> read_prev s head;
     if (n = head) \<noteq> (p = head) then None else Some (n = head)
   }"

definition list_singular :: "list_store \<Rightarrow> ptr \<Rightarrow> bool option" where
  "list_singular s head = do {
     n \<leftarrow> read_next s head;
     p \<leftarrow> read_prev s head;
     Some (n \<noteq> head \<and> n = p)
   }"

definition list_get_next :: "list_store \<Rightarrow> ptr \<Rightarrow> ptr option" where
  "list_get_next s head = do { n \<leftarrow> read_next s head; Some (if n = head then 0 else n) }"

definition list_delete :: "list_store \<Rightarrow> ptr \<Rightarrow> list_store option" where
  "list_delete s p = do {
     b \<leftarrow> read_prev s p;
     n \<leftarrow> read_next s p;
     if b = 0 \<or> n = 0 then None
     else do {
       s \<leftarrow> write_next s b n;
       n \<leftarrow> read_next s p;
       b \<leftarrow> read_prev s p;
       s \<leftarrow> write_prev s n b;
       s \<leftarrow> write_next s p 0;
       write_prev s p 0
     }
   }"

definition list_inserted :: "list_store \<Rightarrow> ptr \<Rightarrow> bool option" where
  "list_inserted s p = do { n \<leftarrow> read_next s p; Some (n \<noteq> 0) }"

definition list_insert_after :: "list_store \<Rightarrow> ptr \<Rightarrow> ptr \<Rightarrow> list_store option" where
  "list_insert_after s pos new = do {
     s \<leftarrow> write_prev s new pos;
     n \<leftarrow> read_next s pos;
     s \<leftarrow> write_next s new n;
     n \<leftarrow> read_next s pos;
     s \<leftarrow> write_prev s n new;
     write_next s pos new
   }"

definition list_insert_before :: "list_store \<Rightarrow> ptr \<Rightarrow> ptr \<Rightarrow> list_store option" where
  "list_insert_before s pos new = do {
     b \<leftarrow> read_prev s pos;
     s \<leftarrow> write_prev s new b;
     s \<leftarrow> write_next s new pos;
     b \<leftarrow> read_prev s pos;
     s \<leftarrow> write_next s b new;
     write_prev s pos new
   }"

definition list_replace :: "list_store \<Rightarrow> ptr \<Rightarrow> ptr \<Rightarrow> list_store option" where
  "list_replace s old new = do {
     n \<leftarrow> read_next s old;
     s \<leftarrow> write_next s new n;
     n \<leftarrow> read_next s new;
     s \<leftarrow> write_prev s n new;
     b \<leftarrow> read_prev s old;
     s \<leftarrow> write_prev s new b;
     b \<leftarrow> read_prev s new;
     write_next s b new
   }"

definition list_begin :: "list_store \<Rightarrow> ptr \<Rightarrow> ptr option" where
  "list_begin s head = read_next s head"

definition list_end :: "ptr \<Rightarrow> ptr" where
  "list_end head = head"

definition list_push :: "list_store \<Rightarrow> ptr \<Rightarrow> ptr \<Rightarrow> list_store option" where
  "list_push s l elem = list_insert_after s (list_end l) elem"

definition list_pop :: "list_store \<Rightarrow> ptr \<Rightarrow> (list_store \<times> ptr) option" where
  "list_pop s l = do { first \<leftarrow> list_begin s l; s \<leftarrow> list_delete s first; Some (s, first) }"

definition list_push_back :: "list_store \<Rightarrow> ptr \<Rightarrow> ptr \<Rightarrow> list_store option" where
  "list_push_back s l elem = list_insert_before s (list_end l) elem"

definition list_pop_back :: "list_store \<Rightarrow> ptr \<Rightarrow> (list_store \<times> ptr) option" where
  "list_pop_back s l = do { b \<leftarrow> read_prev s (list_end l); s \<leftarrow> list_delete s b; Some (s, b) }"

text \<open>\<^verbatim>\<open>list_foreach\<close> and \<^verbatim>\<open>list_foreach_reverse\<close>: the nodes visited from \<open>e\<close> on. A list whose links do not lead back to its
  head is walked without end.\<close>

partial_function (option) list_foreach :: "list_store \<Rightarrow> ptr \<Rightarrow> ptr \<Rightarrow> ptr list option" where
  "list_foreach s l e = do {
     n \<leftarrow> read_next s e;
     if e = l then Some [] else do { es \<leftarrow> list_foreach s l n; Some (e # es) }
   }"

partial_function (option) list_foreach_reverse :: "list_store \<Rightarrow> ptr \<Rightarrow> ptr \<Rightarrow> ptr list option" where
  "list_foreach_reverse s l e = do {
     n \<leftarrow> read_prev s e;
     if e = l then Some [] else do { es \<leftarrow> list_foreach_reverse s l n; Some (e # es) }
   }"

partial_function (option) list_find_loop :: "list_store \<Rightarrow> ptr \<Rightarrow> ptr \<Rightarrow> ptr \<Rightarrow> bool option" where
  "list_find_loop s l elem e = do {
     n \<leftarrow> read_next s e;
     if e = l then Some False else if e = elem then Some True else list_find_loop s l elem n
   }"

declare list_foreach.simps [code] list_foreach_reverse.simps [code] list_find_loop.simps [code]

definition list_find :: "list_store \<Rightarrow> ptr \<Rightarrow> ptr \<Rightarrow> bool option" where
  "list_find s head elem = do { e \<leftarrow> list_begin s head; list_find_loop s head elem e }"

definition list_move :: "list_store \<Rightarrow> ptr \<Rightarrow> ptr \<Rightarrow> list_store option" where
  "list_move s dest src = do {
     e \<leftarrow> list_empty s src;
     if e then list_init s dest
     else do { s \<leftarrow> list_replace s src dest; list_init s src }
   }"

section \<open>Cycles in the store\<close>

fun chain :: "list_store \<Rightarrow> ptr list \<Rightarrow> bool" where
  "chain s (a # b # xs) \<longleftrightarrow> ls_next s a = b \<and> ls_prev s b = a \<and> chain s (b # xs)"
| "chain s _ \<longleftrightarrow> True"

definition cyc :: "list_store \<Rightarrow> ptr list \<Rightarrow> bool" where
  "cyc s c \<longleftrightarrow> c \<noteq> [] \<and> distinct c \<and> 0 \<notin> set c \<and> chain s (c @ [hd c])"

lemma chain_append: "chain s (xs @ a # ys) \<longleftrightarrow> chain s (xs @ [a]) \<and> chain s (a # ys)"
  by (induction s xs rule: chain.induct) (auto simp: neq_Nil_conv split: list.splits)

lemma chain_frame:
  assumes "\<forall>x \<in> set (butlast c). ls_next s' x = ls_next s x" "\<forall>x \<in> set (tl c). ls_prev s' x = ls_prev s x"
  shows "chain s' c \<longleftrightarrow> chain s c"
  using assms by (induction s c rule: chain.induct) auto

lemma cyc_rotate: "cyc s (xs @ ys) \<longleftrightarrow> cyc s (ys @ xs)"
proof (cases "xs = [] \<or> ys = []")
  case False
  then obtain x xs' y ys' where c: "xs = x # xs'" "ys = y # ys'" by (auto simp: neq_Nil_conv)
  have "chain s (x # xs' @ y # ys' @ [x]) \<longleftrightarrow> chain s (x # xs' @ [y]) \<and> chain s (y # ys' @ [x])"
    "chain s (y # ys' @ x # xs' @ [y]) \<longleftrightarrow> chain s (y # ys' @ [x]) \<and> chain s (x # xs' @ [y])"
    using chain_append [of s "x # xs'" y "ys' @ [x]"] chain_append [of s "y # ys'" x "xs' @ [y]"] by auto
  then show ?thesis by (auto simp: cyc_def c)
qed auto

lemma cyc_frame:
  assumes "\<forall>x \<in> set c. ls_next s' x = ls_next s x \<and> ls_prev s' x = ls_prev s x" "cyc s c"
  shows "cyc s' c"
proof -
  have "hd c \<in> set c" using assms(2) by (simp add: cyc_def)
  then have "set (butlast (c @ [hd c])) \<subseteq> set c" "set (tl (c @ [hd c])) \<subseteq> set c" by (auto dest: list.set_sel(2) simp: tl_append split: list.splits)
  then have "chain s' (c @ [hd c]) \<longleftrightarrow> chain s (c @ [hd c])" using assms(1) by (intro chain_frame) blast+
  then show ?thesis using assms(2) by (simp add: cyc_def)
qed

lemma cyc_Cons:
  "cyc s (a # xs) \<longleftrightarrow> distinct (a # xs) \<and> 0 \<notin> set (a # xs) \<and> ls_next s a = hd (xs @ [a]) \<and> ls_prev s (hd (xs @ [a])) = a \<and> chain s (xs @ [a])"
  by (cases xs) (auto simp: cyc_def)

text \<open>A node goes in after the first one of a cycle, which any of its nodes can be.\<close>

lemma list_insert_after_spec:
  assumes c: "cyc s (pos # xs)" and new: "new \<noteq> 0" "new \<notin> set (pos # xs)"
  shows "ensures (list_insert_after s pos new) (\<lambda>s'. cyc s' (pos # new # xs) \<and>
     (\<forall>x. x \<notin> set (pos # new # xs) \<longrightarrow> ls_next s' x = ls_next s x \<and> ls_prev s' x = ls_prev s x))"
proof -
  let ?n = "hd (xs @ [pos])"
  have n: "?n \<in> set (pos # xs)" by (cases xs) auto
  have C: "distinct (pos # xs)" "0 \<notin> set (pos # xs)" "ls_next s pos = ?n" "chain s (xs @ [pos])" using c by (simp_all add: cyc_Cons)
  have z: "pos \<noteq> 0" "?n \<noteq> 0" "?n \<noteq> new" using C(2) new n by (metis list.set_intros(1), metis, metis)
  let ?s = "s\<lparr>ls_prev := (ls_prev s)(new := pos, ?n := new), ls_next := (ls_next s)(new := ?n, pos := new)\<rparr>"
  have run: "list_insert_after s pos new = Some ?s"
    using z new C(3) by (simp add: list_insert_after_def store_defs fun_upd_twist)
  have "chain ?s (xs @ [pos])"
  proof -
    have "\<forall>x \<in> set (butlast (xs @ [pos])). ls_next ?s x = ls_next s x" using C(1) new by auto
    moreover have "\<forall>x \<in> set (tl (xs @ [pos])). ls_prev ?s x = ls_prev s x" using C(1) new by (cases xs) auto
    ultimately show ?thesis using C(4) chain_frame by blast
  qed
  then have "cyc ?s (pos # new # xs)" using C new z unfolding cyc_Cons by (cases xs) auto
  then show ?thesis unfolding run using n by auto
qed

text \<open>The last node of a cycle.\<close>

lemma cyc_last:
  assumes "cyc s (ys @ [b])"
  shows "cyc s (b # ys)" "ls_next s b = hd (ys @ [b])" "ls_prev s (hd (ys @ [b])) = b"
  using assms cyc_rotate [of s ys "[b]"] by (simp_all add: cyc_Cons)

lemma insert_before_after:
  assumes "ls_prev s pos = b" "ls_next s b = pos" "pos \<noteq> 0" "b \<noteq> 0" "new \<noteq> 0" "new \<noteq> pos" "new \<noteq> b"
  shows "list_insert_before s pos new = list_insert_after s b new"
  using assms by (simp add: list_insert_before_def list_insert_after_def store_defs)

lemma list_insert_before_spec:
  assumes c: "cyc s (pos # xs)" and new: "new \<noteq> 0" "new \<notin> set (pos # xs)"
  shows "ensures (list_insert_before s pos new) (\<lambda>s'. cyc s' (pos # xs @ [new]) \<and>
     (\<forall>x. x \<notin> set (pos # new # xs) \<longrightarrow> ls_next s' x = ls_next s x \<and> ls_prev s' x = ls_prev s x))"
proof -
  obtain ys b where b: "pos # xs = ys @ [b]" by (metis append_butlast_last_id list.distinct(1))
  then have L: "cyc s (b # ys)" "ls_next s b = pos" "ls_prev s pos = b" using c cyc_last [of s ys b] by (metis list.sel(1))+
  have set: "set (b # ys) = set (pos # xs)" unfolding b by auto
  have "pos \<in> set (pos # xs)" "b \<in> set (pos # xs)" "0 \<notin> set (pos # xs)" using c by (simp, simp add: b, simp add: cyc_def)
  then have z: "pos \<noteq> 0" "b \<noteq> 0" "new \<noteq> pos" "new \<noteq> b" using new(2) by metis+
  have rot: "cyc s' (b # new # ys) \<longleftrightarrow> cyc s' (pos # xs @ [new])" for s'
    using cyc_rotate [of s' "[b, new]" ys] b by (metis append_Cons append_assoc append_Nil)
  have "ensures (list_insert_after s b new) (\<lambda>s'. cyc s' (b # new # ys) \<and>
      (\<forall>x. x \<notin> set (b # new # ys) \<longrightarrow> ls_next s' x = ls_next s x \<and> ls_prev s' x = ls_prev s x))"
    using new(2) by (intro list_insert_after_spec [OF L(1) new(1)]) (simp only: set, simp)
  then show ?thesis
    unfolding insert_before_after [OF L(3,2) z(1,2) new(1) z(3,4)] rot
  proof (rule ensures_mono, safe)
    fix s' x assume "\<forall>x. x \<notin> set (b # new # ys) \<longrightarrow> ls_next s' x = ls_next s x \<and> ls_prev s' x = ls_prev s x" "x \<notin> set (pos # new # xs)"
    moreover have "set (b # new # ys) = set (pos # new # xs)" using set by auto
    ultimately show "ls_next s' x = ls_next s x" "ls_prev s' x = ls_prev s x" by blast+
  qed
qed

text \<open>The neighbours of a node with company.\<close>

lemma cyc_neighbours:
  assumes "cyc s (p # q # xs)"
  obtains ys b where "q # xs = ys @ [b]" "chain s (ys @ [b])" "ls_next s b = p" "ls_prev s p = b" "ls_next s p = q" "ls_prev s q = p"
proof -
  obtain ys b where b: "q # xs = ys @ [b]" by (metis append_butlast_last_id list.distinct(1))
  have "chain s (p # (q # xs) @ [p])" "ls_next s p = q" "ls_prev s q = p" using assms by (simp_all add: cyc_def)
  then have "chain s ((p # ys) @ b # [p])" unfolding b by simp
  then have "chain s (p # ys @ [b])" "ls_next s b = p" "ls_prev s p = b" using chain_append [of s "p # ys" b "[p]"] by auto
  moreover have "chain s (ys @ [b])" using \<open>chain s (p # ys @ [b])\<close> by (cases ys) auto
  ultimately show thesis using that b \<open>ls_next s p = q\<close> \<open>ls_prev s q = p\<close> by blast
qed

text \<open>The cycle is closed again from the last node to the first, whatever happens to nodes outside.\<close>

lemma cyc_close:
  assumes b: "chain s (ys @ [b])" "distinct (ys @ [b])" "0 \<notin> set (ys @ [b])" "a \<notin> set (ys @ [b])" "a \<noteq> 0"
    and s': "\<forall>x \<in> set ys. ls_next s' x = ls_next s x" "\<forall>x \<in> set (tl (ys @ [b])). ls_prev s' x = ls_prev s x"
  shows "ls_next s' b = hd (ys @ [b]) \<Longrightarrow> ls_prev s' (hd (ys @ [b])) = b \<Longrightarrow> cyc s' (ys @ [b])"
    "ls_next s' b = a \<Longrightarrow> ls_prev s' a = b \<Longrightarrow> ls_next s' a = hd (ys @ [b]) \<Longrightarrow> ls_prev s' (hd (ys @ [b])) = a \<Longrightarrow> cyc s' (a # ys @ [b])"
proof -
  have chain: "chain s' (ys @ [b])" using b(1) s' chain_frame [of "ys @ [b]" s' s] by simp
  then show "cyc s' (ys @ [b])" if "ls_next s' b = hd (ys @ [b])" "ls_prev s' (hd (ys @ [b])) = b"
    using that b(2,3) chain_append [of s' ys b "[hd (ys @ [b])]"] by (simp add: cyc_def)
  show "cyc s' (a # ys @ [b])"
    if "ls_next s' b = a" "ls_prev s' a = b" "ls_next s' a = hd (ys @ [b])" "ls_prev s' (hd (ys @ [b])) = a"
    using that chain b(2-5) chain_append [of s' ys b "[a]"] by (cases ys) (simp_all add: cyc_Cons)
qed

lemma list_delete_spec:
  assumes c: "cyc s (p # q # xs)"
  shows "ensures (list_delete s p) (\<lambda>s'. cyc s' (q # xs) \<and> ls_next s' p = 0 \<and> ls_prev s' p = 0 \<and>
     (\<forall>x. x \<notin> set (p # q # xs) \<longrightarrow> ls_next s' x = ls_next s x \<and> ls_prev s' x = ls_prev s x))"
proof -
  obtain ys b where b: "q # xs = ys @ [b]" "chain s (ys @ [b])" and n: "ls_next s b = p" "ls_prev s p = b" "ls_next s p = q" "ls_prev s q = p"
    using cyc_neighbours [OF c] .
  have D: "distinct (p # ys @ [b])" "0 \<notin> set (p # ys @ [b])" using c unfolding b(1) by (simp_all add: cyc_def)
  have q: "hd (ys @ [b]) = q" using b(1) by (metis list.sel(1))
  then have qs: "q \<in> set (ys @ [b])" using b(1) by (metis list.set_intros(1))
  have z: "p \<noteq> 0" "q \<noteq> 0" "b \<noteq> 0" "p \<noteq> q" "p \<noteq> b" using D qs by auto
  let ?s = "s\<lparr>ls_prev := (ls_prev s)(q := b, p := 0), ls_next := (ls_next s)(b := q, p := 0)\<rparr>"
  have run: "list_delete s p = Some ?s" using z n by (simp add: list_delete_def store_defs)
  have "\<forall>x \<in> set ys. ls_next ?s x = ls_next s x" using D(1) by auto
  moreover have "\<forall>x \<in> set (tl (ys @ [b])). ls_prev ?s x = ls_prev s x" using D(1) q by (cases ys) auto
  ultimately have "cyc ?s (ys @ [b])" using D q z by (intro cyc_close(1) [OF b(2), where a = p]) auto
  then show ?thesis unfolding run b(1) using qs z by auto
qed

lemma list_replace_spec:
  assumes c: "cyc s (old # q # xs)" and new: "new \<noteq> 0" "new \<notin> set (old # q # xs)"
  shows "ensures (list_replace s old new) (\<lambda>s'. cyc s' (new # q # xs) \<and>
     (\<forall>x. x \<notin> set (new # q # xs) \<longrightarrow> ls_next s' x = ls_next s x \<and> ls_prev s' x = ls_prev s x))"
proof -
  obtain ys b where b: "q # xs = ys @ [b]" "chain s (ys @ [b])" and n: "ls_next s b = old" "ls_prev s old = b" "ls_next s old = q" "ls_prev s q = old"
    using cyc_neighbours [OF c] .
  have D: "distinct (old # ys @ [b])" "0 \<notin> set (old # ys @ [b])" using c unfolding b(1) by (simp_all add: cyc_def)
  have q: "hd (ys @ [b]) = q" using b(1) by (metis list.sel(1))
  then have qs: "q \<in> set (ys @ [b])" using b(1) by (metis list.set_intros(1))
  have N: "new \<notin> set (ys @ [b])" "new \<noteq> old" using new(2) unfolding b(1) by auto
  have z: "old \<noteq> 0" "q \<noteq> 0" "b \<noteq> 0" "new \<noteq> q" "new \<noteq> b" "old \<noteq> q" using D N qs by auto
  let ?s = "s\<lparr>ls_prev := (ls_prev s)(q := new, new := b), ls_next := (ls_next s)(new := q, b := new)\<rparr>"
  have run: "list_replace s old new = Some ?s" using z n new(1) N(2) by (simp add: list_replace_def store_defs)
  have "\<forall>x \<in> set ys. ls_next ?s x = ls_next s x" using D(1) N by auto
  moreover have "\<forall>x \<in> set (tl (ys @ [b])). ls_prev ?s x = ls_prev s x" using D(1) N q by (cases ys) auto
  ultimately have "cyc ?s (new # ys @ [b])" using D q z N new(1) by (intro cyc_close(2) [OF b(2)]) auto
  then show ?thesis unfolding run b(1) using qs by auto
qed

lemma list_init_spec:
  assumes "h \<noteq> 0"
  shows "ensures (list_init s h) (\<lambda>s'. cyc s' [h] \<and>
     (\<forall>x. x \<noteq> h \<longrightarrow> ls_next s' x = ls_next s x \<and> ls_prev s' x = ls_prev s x))"
  using assms by (simp add: list_init_def store_defs cyc_def)

section \<open>Queries and walks\<close>

lemma cyc_head:
  assumes "cyc s (h # xs)"
  shows "h \<noteq> 0" "ls_next s h = hd (xs @ [h])" "ls_prev s h = last (h # xs)"
proof -
  show "h \<noteq> 0" "ls_next s h = hd (xs @ [h])" using assms by (simp_all add: cyc_Cons)
  show "ls_prev s h = last (h # xs)"
  proof (cases xs)
    case Nil
    then show ?thesis using assms by (simp add: cyc_Cons)
  next
    case (Cons q ys)
    then obtain zs b where "q # ys = zs @ [b]" "ls_prev s h = b" using cyc_neighbours [of s h q ys] assms by metis
    then show ?thesis using Cons by simp
  qed
qed

text \<open>The neighbours of the head tell an empty list and one with a single member.\<close>

lemma cyc_ends:
  assumes "cyc s (h # xs)"
  shows "ls_next s h = h \<longleftrightarrow> xs = []" "ls_prev s h = h \<longleftrightarrow> xs = []" "ls_next s h = ls_prev s h \<longleftrightarrow> length xs \<le> 1"
proof -
  have d: "distinct (h # xs)" using assms by (simp add: cyc_def)
  have "xs = [] \<or> hd xs \<in> set xs \<and> last xs \<in> set xs" by auto
  then show "ls_next s h = h \<longleftrightarrow> xs = []" "ls_prev s h = h \<longleftrightarrow> xs = []"
    using d unfolding cyc_head [OF assms] by (cases xs; auto)+
  show "ls_next s h = ls_prev s h \<longleftrightarrow> length xs \<le> 1"
  proof (cases xs)
    case (Cons q ys)
    moreover have "ys = [] \<or> last ys \<in> set ys" using last_in_set by blast
    ultimately show ?thesis using d unfolding cyc_head [OF assms] by auto
  qed (simp add: cyc_head [OF assms])
qed

lemma list_empty_spec: "cyc s (h # xs) \<Longrightarrow> list_empty s h = Some (xs = [])"
  by (simp add: list_empty_def store_defs cyc_ends cyc_head(1))

lemma list_singular_spec: "cyc s (h # xs) \<Longrightarrow> list_singular s h = Some (length xs = 1)"
  by (auto simp: list_singular_def store_defs cyc_ends cyc_head(1) le_Suc_eq)

lemma list_get_next_spec: "cyc s (h # xs) \<Longrightarrow> list_get_next s h = Some (if xs = [] then 0 else hd xs)"
  using cyc_ends(1) [of s h xs] cyc_head(1,2) [of s h xs] by (auto simp: list_get_next_def read_next_def hd_append)

lemma list_foreach_chain:
  assumes "chain s (xs @ [h])" "h \<notin> set xs" "0 \<notin> set (h # xs)"
  shows "list_foreach s h (hd (xs @ [h])) = Some xs" "list_find_loop s h e (hd (xs @ [h])) = Some (e \<in> set xs)"
proof -
  have "list_foreach s h (hd (xs @ [h])) = Some xs \<and> list_find_loop s h e (hd (xs @ [h])) = Some (e \<in> set xs)"
    using assms
  proof (induction xs)
    case Nil
    then show ?case by (simp add: list_foreach.simps [of s h h] list_find_loop.simps [of s h e h] store_defs)
  next
    case (Cons x xs)
    have "chain s (xs @ [h])" "ls_next s x = hd (xs @ [h])" using Cons.prems(1) by (cases xs; simp)+
    then show ?case using Cons
      by (auto simp: list_foreach.simps [of s h x] list_find_loop.simps [of s h e x] store_defs)
  qed
  then show "list_foreach s h (hd (xs @ [h])) = Some xs" "list_find_loop s h e (hd (xs @ [h])) = Some (e \<in> set xs)" by simp_all
qed

lemma list_foreach_spec:
  assumes "cyc s (h # xs)"
  shows "Option.bind (list_begin s h) (list_foreach s h) = Some xs" "list_find s h e = Some (e \<in> set xs)"
  using list_foreach_chain [of s xs h] assms by (simp_all add: cyc_Cons list_begin_def list_find_def store_defs)

lemma chain_last: "chain s (xs @ [a, b]) \<Longrightarrow> ls_prev s b = a"
  using chain_append [of s xs a "[b]"] by simp

lemma list_foreach_reverse_chain:
  assumes "chain s (h # xs)" "h \<notin> set xs" "0 \<notin> set (h # xs)"
  shows "list_foreach_reverse s h (last (h # xs)) = Some (rev xs)"
  using assms
proof (induction xs rule: rev_induct)
  case Nil
  then show ?case by (simp add: list_foreach_reverse.simps [of s h h] store_defs)
next
  case (snoc x xs)
  obtain ys b where b: "h # xs = ys @ [b]" by (metis append_butlast_last_id list.distinct(1))
  have "chain s (ys @ [b, x])" "chain s (h # xs)"
    using snoc.prems(1) chain_append [of s ys b "[x]"] b by (metis append.assoc append_Cons append_Nil)+
  then have "ls_prev s x = last (h # xs)" using chain_last b by (metis last_snoc)
  then show ?case using snoc \<open>chain s (h # xs)\<close> by (auto simp: list_foreach_reverse.simps [of s h x] store_defs)
qed

lemma list_foreach_reverse_spec:
  assumes "cyc s (h # xs)"
  shows "Option.bind (read_prev s h) (list_foreach_reverse s h) = Some (rev xs)"
proof -
  obtain ys b where b: "h # xs = ys @ [b]" by (metis append_butlast_last_id list.distinct(1))
  have "chain s ((h # xs) @ [h])" using assms by (simp add: cyc_def)
  then have "chain s (h # xs)" unfolding b using chain_append [of s ys b "[h]"] by simp
  then show ?thesis using assms list_foreach_reverse_chain [of s h xs] cyc_head [OF assms] by (simp add: cyc_def store_defs)
qed

section \<open>Lists that share the store\<close>

text \<open>What the store holds: the members of the list with each head. Every node is in one list at most.\<close>

type_synonym lists = "ptr \<Rightarrow> ptr list option"

definition nodes :: "lists \<Rightarrow> ptr \<Rightarrow> ptr set" where
  "nodes L h = (case L h of None \<Rightarrow> {} | Some xs \<Rightarrow> set (h # xs))"

definition lists_ok :: "list_store \<Rightarrow> lists \<Rightarrow> bool" where
  "lists_ok s L \<longleftrightarrow> (\<forall>h xs. L h = Some xs \<longrightarrow> cyc s (h # xs)) \<and> (\<forall>h h'. h \<noteq> h' \<longrightarrow> nodes L h \<inter> nodes L h' = {})"

definition is_free :: "lists \<Rightarrow> ptr \<Rightarrow> bool" where
  "is_free L e \<longleftrightarrow> e \<noteq> 0 \<and> (\<forall>h. e \<notin> nodes L h)"

lemma nodes_simps [simp]:
  "nodes (L(h \<mapsto> xs)) h = set (h # xs)" "nodes (L(h := None)) h = {}" "h' \<noteq> h \<Longrightarrow> nodes (L(h := v)) h' = nodes L h'"
  by (simp_all add: nodes_def)

lemma lists_okD: "lists_ok s L \<Longrightarrow> L h = Some xs \<Longrightarrow> cyc s (h # xs)"
  by (simp add: lists_ok_def)

lemma nodes_Some: "L h = Some xs \<Longrightarrow> nodes L h = set (h # xs)"
  by (simp add: nodes_def)

text \<open>A change that stays inside one list and free nodes leaves the other lists alone.\<close>

lemma lists_ok_update:
  assumes ok: "lists_ok s L" and c: "cyc s' (h # ys)" and own: "\<And>h'. h' \<noteq> h \<Longrightarrow> nodes L h' \<inter> set (h # ys) = {}"
    and same: "\<And>h' x. h' \<noteq> h \<Longrightarrow> x \<in> nodes L h' \<Longrightarrow> ls_next s' x = ls_next s x \<and> ls_prev s' x = ls_prev s x"
  shows "lists_ok s' (L(h \<mapsto> ys))"
  unfolding lists_ok_def
proof (intro conjI allI impI)
  fix h' xs assume L: "(L(h \<mapsto> ys)) h' = Some xs"
  show "cyc s' (h' # xs)"
  proof (cases "h' = h")
    case False
    with L have "L h' = Some xs" by simp
    then have "cyc s (h' # xs)" "\<forall>x \<in> set (h' # xs). ls_next s' x = ls_next s x \<and> ls_prev s' x = ls_prev s x"
      using ok same [OF False] by (auto simp: lists_ok_def nodes_def)
    then show ?thesis using cyc_frame by blast
  qed (use L c in simp)
next
  fix a b :: ptr assume "a \<noteq> b"
  then show "nodes (L(h \<mapsto> ys)) a \<inter> nodes (L(h \<mapsto> ys)) b = {}"
    using ok own [of a] own [of b] by (cases "a = h"; cases "b = h") (simp_all add: lists_ok_def, blast)
qed

lemma lists_ok_forget: "lists_ok s L \<Longrightarrow> lists_ok s (L(h := None))"
  unfolding lists_ok_def by (metis fun_upd_other fun_upd_same inf_bot_left inf_bot_right nodes_simps(2,3) option.distinct(1))

text \<open>The same for one list that takes in and gives up nodes.\<close>

lemma lists_ok_change:
  assumes ok: "lists_ok s L" and L: "L h = Some xs" and c: "cyc s' (h # ys)"
    and sub: "set (h # ys) \<subseteq> set (h # xs) \<union> F" and free: "\<forall>e \<in> F. is_free L e"
    and same: "\<forall>x. x \<notin> set (h # xs) \<union> F \<longrightarrow> ls_next s' x = ls_next s x \<and> ls_prev s' x = ls_prev s x"
  shows "lists_ok s' (L(h \<mapsto> ys))"
proof (rule lists_ok_update [OF ok c])
  fix h' assume "h' \<noteq> h"
  then have "nodes L h' \<inter> set (h # xs) = {}" using ok nodes_Some [of L h xs, OF L] unfolding lists_ok_def by metis
  moreover have "nodes L h' \<inter> F = {}" using free by (auto simp: is_free_def)
  ultimately have "nodes L h' \<inter> (set (h # xs) \<union> F) = {}" by blast
  then show "nodes L h' \<inter> set (h # ys) = {}" "\<And>x. x \<in> nodes L h' \<Longrightarrow> ls_next s' x = ls_next s x \<and> ls_prev s' x = ls_prev s x"
    using sub same by blast+
qed

section \<open>Clients\<close>

text \<open>Calls; where a call names only a member, the head of its list is given as well, for the specification.\<close>

datatype list_op =
    List_init ptr
  | List_push ptr ptr
  | List_push_back ptr ptr
  | List_insert_after ptr ptr ptr
  | List_insert_before ptr ptr ptr
  | List_delete ptr ptr
  | List_pop ptr
  | List_pop_back ptr
  | List_move ptr ptr
  | List_empty ptr
  | List_singular ptr
  | List_get_next ptr
  | List_find ptr ptr
  | List_foreach ptr
  | List_foreach_reverse ptr

datatype list_answer = Nothing | Node ptr | Truth bool | Nodes "ptr list"

fun list_do :: "list_store \<Rightarrow> list_op \<Rightarrow> (list_store \<times> list_answer) option" where
  "list_do s (List_init h) = do { s \<leftarrow> list_init s h; Some (s, Nothing) }"
| "list_do s (List_push h e) = do { s \<leftarrow> list_push s h e; Some (s, Nothing) }"
| "list_do s (List_push_back h e) = do { s \<leftarrow> list_push_back s h e; Some (s, Nothing) }"
| "list_do s (List_insert_after h p e) = do { s \<leftarrow> list_insert_after s p e; Some (s, Nothing) }"
| "list_do s (List_insert_before h p e) = do { s \<leftarrow> list_insert_before s p e; Some (s, Nothing) }"
| "list_do s (List_delete h p) = do { s \<leftarrow> list_delete s p; Some (s, Nothing) }"
| "list_do s (List_pop h) = do { (s, e) \<leftarrow> list_pop s h; Some (s, Node e) }"
| "list_do s (List_pop_back h) = do { (s, e) \<leftarrow> list_pop_back s h; Some (s, Node e) }"
| "list_do s (List_move d h) = do { s \<leftarrow> list_move s d h; Some (s, Nothing) }"
| "list_do s (List_empty h) = do { r \<leftarrow> list_empty s h; Some (s, Truth r) }"
| "list_do s (List_singular h) = do { r \<leftarrow> list_singular s h; Some (s, Truth r) }"
| "list_do s (List_get_next h) = do { r \<leftarrow> list_get_next s h; Some (s, Node r) }"
| "list_do s (List_find h e) = do { r \<leftarrow> list_find s h e; Some (s, Truth r) }"
| "list_do s (List_foreach h) = do { e \<leftarrow> list_begin s h; es \<leftarrow> list_foreach s h e; Some (s, Nodes es) }"
| "list_do s (List_foreach_reverse h) = do { e \<leftarrow> read_prev s h; es \<leftarrow> list_foreach_reverse s h e; Some (s, Nodes es) }"

fun list_run :: "list_store \<Rightarrow> list_op list \<Rightarrow> (list_store \<times> list_answer list) option" where
  "list_run s [] = Some (s, [])"
| "list_run s (op # ops) = do { (s, a) \<leftarrow> list_do s op; (s, as) \<leftarrow> list_run s ops; Some (s, a # as) }"

text \<open>The specification, on lists of members. \<open>None\<close> is a call its rules do not allow: a node goes into a list only
  when it is in none, and only a list that has members is popped.\<close>

fun put_after :: "ptr \<Rightarrow> ptr \<Rightarrow> ptr list \<Rightarrow> ptr list" where
  "put_after p e [] = []"
| "put_after p e (x # xs) = x # (if x = p then e # xs else put_after p e xs)"

fun put_before :: "ptr \<Rightarrow> ptr \<Rightarrow> ptr list \<Rightarrow> ptr list" where
  "put_before p e [] = []"
| "put_before p e (x # xs) = (if x = p then e # x # xs else x # put_before p e xs)"

fun lists_do :: "lists \<Rightarrow> list_op \<Rightarrow> (lists \<times> list_answer) option" where
  "lists_do L (List_init h) = (if is_free L h then Some (L(h \<mapsto> []), Nothing) else None)"
| "lists_do L (List_push h e) =
     (case L h of Some xs \<Rightarrow> if is_free L e then Some (L(h \<mapsto> e # xs), Nothing) else None | None \<Rightarrow> None)"
| "lists_do L (List_push_back h e) =
     (case L h of Some xs \<Rightarrow> if is_free L e then Some (L(h \<mapsto> xs @ [e]), Nothing) else None | None \<Rightarrow> None)"
| "lists_do L (List_insert_after h p e) =
     (case L h of
        Some xs \<Rightarrow> if p \<in> set xs \<and> is_free L e then Some (L(h \<mapsto> put_after p e xs), Nothing) else None
      | None \<Rightarrow> None)"
| "lists_do L (List_insert_before h p e) =
     (case L h of
        Some xs \<Rightarrow> if p \<in> set xs \<and> is_free L e then Some (L(h \<mapsto> put_before p e xs), Nothing) else None
      | None \<Rightarrow> None)"
| "lists_do L (List_delete h p) =
     (case L h of Some xs \<Rightarrow> if p \<in> set xs then Some (L(h \<mapsto> remove1 p xs), Nothing) else None | None \<Rightarrow> None)"
| "lists_do L (List_pop h) =
     (case L h of Some (x # xs) \<Rightarrow> Some (L(h \<mapsto> xs), Node x) | _ \<Rightarrow> None)"
| "lists_do L (List_pop_back h) =
     (case L h of Some (x # xs) \<Rightarrow> Some (L(h \<mapsto> butlast (x # xs)), Node (last (x # xs))) | _ \<Rightarrow> None)"
| "lists_do L (List_move d h) =
     (case L h of
        Some xs \<Rightarrow> if d \<noteq> h \<and> (is_free L d \<or> L d = Some []) then Some (L(d \<mapsto> xs, h \<mapsto> []), Nothing) else None
      | None \<Rightarrow> None)"
| "lists_do L (List_empty h) = map_option (\<lambda>xs. (L, Truth (xs = []))) (L h)"
| "lists_do L (List_singular h) = map_option (\<lambda>xs. (L, Truth (length xs = 1))) (L h)"
| "lists_do L (List_get_next h) = map_option (\<lambda>xs. (L, Node (if xs = [] then 0 else hd xs))) (L h)"
| "lists_do L (List_find h e) = map_option (\<lambda>xs. (L, Truth (e \<in> set xs))) (L h)"
| "lists_do L (List_foreach h) = map_option (\<lambda>xs. (L, Nodes xs)) (L h)"
| "lists_do L (List_foreach_reverse h) = map_option (\<lambda>xs. (L, Nodes (rev xs))) (L h)"

fun lists_run :: "lists \<Rightarrow> list_op list \<Rightarrow> (lists \<times> list_answer list) option" where
  "lists_run L [] = Some (L, [])"
| "lists_run L (op # ops) = do { (L, a) \<leftarrow> lists_do L op; (L, as) \<leftarrow> lists_run L ops; Some (L, a # as) }"

lemma put_after_split: "p \<notin> set ys \<Longrightarrow> put_after p e (ys @ p # zs) = ys @ p # e # zs"
  by (induction ys) auto

lemma put_before_split: "p \<notin> set ys \<Longrightarrow> put_before p e (ys @ p # zs) = ys @ e # p # zs"
  by (induction ys) auto

lemma remove1_split: "p \<notin> set ys \<Longrightarrow> remove1 p (ys @ p # zs) = ys @ zs"
  by (simp add: remove1_append)

text \<open>A node goes in between two neighbours, or comes out, anywhere in a list.\<close>

lemma insert_between:
  assumes ok: "lists_ok s L" and L: "L h = Some (ys @ zs)" and e: "is_free L e"
  shows "ys \<noteq> [] \<Longrightarrow> ensures (list_insert_after s (last ys) e) (\<lambda>s'. lists_ok s' (L(h \<mapsto> ys @ e # zs)))"
    "ys = [] \<Longrightarrow> ensures (list_insert_after s h e) (\<lambda>s'. lists_ok s' (L(h \<mapsto> ys @ e # zs)))"
    "zs \<noteq> [] \<Longrightarrow> ensures (list_insert_before s (hd zs) e) (\<lambda>s'. lists_ok s' (L(h \<mapsto> ys @ e # zs)))"
    "zs = [] \<Longrightarrow> ensures (list_insert_before s h e) (\<lambda>s'. lists_ok s' (L(h \<mapsto> ys @ e # zs)))"
proof -
  have c: "cyc s (h # ys @ zs)" using lists_okD [OF ok, of h] L by blast
  have new: "e \<noteq> 0" "e \<notin> set (h # ys @ zs)" using e nodes_Some [of L h, OF L] unfolding is_free_def by auto
  have change: "lists_ok s' (L(h \<mapsto> ys @ e # zs))"
    if "cyc s' (h # ys @ e # zs)" "\<forall>x. x \<notin> set (h # e # ys @ zs) \<longrightarrow> ls_next s' x = ls_next s x \<and> ls_prev s' x = ls_prev s x" for s'
    by (rule lists_ok_change [where F = "{e}", OF ok L that(1)]) (use e that(2) in auto)
  have after: "ensures (list_insert_after s p e) (\<lambda>s'. lists_ok s' (L(h \<mapsto> ys @ e # zs)))" if p: "h # ys = A @ [p]" for A p
  proof -
    have "cyc s (p # zs @ A)" using c cyc_rotate [of s "A" "p # zs"] p by (metis append.assoc append_Cons append_Nil)
    then have "ensures (list_insert_after s p e) (\<lambda>s'. cyc s' (p # e # zs @ A) \<and>
        (\<forall>x. x \<notin> set (p # e # zs @ A) \<longrightarrow> ls_next s' x = ls_next s x \<and> ls_prev s' x = ls_prev s x))"
      using new p by (intro list_insert_after_spec) (auto simp: Cons_eq_append_conv)
    then show ?thesis
    proof (rule ensures_mono)
      fix s' assume s': "cyc s' (p # e # zs @ A) \<and>
        (\<forall>x. x \<notin> set (p # e # zs @ A) \<longrightarrow> ls_next s' x = ls_next s x \<and> ls_prev s' x = ls_prev s x)"
      have "cyc s' (h # ys @ e # zs)" using s' cyc_rotate [of s' A "p # e # zs"] p by (metis append.assoc append_Cons append_Nil)
      moreover have "set (p # e # zs @ A) = set (h # e # ys @ zs)" using arg_cong [OF p, of set] by auto
      ultimately show "lists_ok s' (L(h \<mapsto> ys @ e # zs))" using s' by (intro change) auto
    qed
  qed
  show "ensures (list_insert_after s (last ys) e) (\<lambda>s'. lists_ok s' (L(h \<mapsto> ys @ e # zs)))" if "ys \<noteq> []"
    using that by (intro after [of "h # butlast ys"]) simp
  show "ensures (list_insert_after s h e) (\<lambda>s'. lists_ok s' (L(h \<mapsto> ys @ e # zs)))" if "ys = []"
    using that by (intro after [of "[]"]) simp
  have before: "ensures (list_insert_before s p e) (\<lambda>s'. lists_ok s' (L(h \<mapsto> ys @ e # zs)))" if p: "zs @ [h] = p # B" for p B
  proof -
    obtain A b where b: "h # ys = A @ [b]" by (metis append_butlast_last_id list.distinct(1))
    have "chain s ((h # ys) @ zs @ [h])" using c by (simp add: cyc_def)
    then have "chain s (A @ b # p # B)" unfolding b p by simp
    then have n: "ls_next s b = p" "ls_prev s p = b" using chain_append [of s A b "p # B"] by simp_all
    have "b \<in> set (h # ys)" "p \<in> set (zs @ [h])" unfolding b p by simp_all
    then have "p \<in> set (h # ys @ zs)" "b \<in> set (h # ys @ zs)" "0 \<notin> set (h # ys @ zs)" using c by (auto simp: cyc_def)
    then have "p \<noteq> 0" "b \<noteq> 0" "e \<noteq> p" "e \<noteq> b" using new(2) by metis+
    then show ?thesis using after [OF b] insert_before_after [OF n(2,1)] new(1) by simp
  qed
  show "ensures (list_insert_before s (hd zs) e) (\<lambda>s'. lists_ok s' (L(h \<mapsto> ys @ e # zs)))" if "zs \<noteq> []"
    using that by (intro before [of _ "tl zs @ [h]"]) simp
  show "ensures (list_insert_before s h e) (\<lambda>s'. lists_ok s' (L(h \<mapsto> ys @ e # zs)))" if "zs = []"
    using that by (intro before [of _ "[]"]) simp
qed

lemma delete_between:
  assumes ok: "lists_ok s L" and L: "L h = Some (ys @ p # zs)"
  shows "ensures (list_delete s p) (\<lambda>s'. lists_ok s' (L(h \<mapsto> ys @ zs)))"
proof -
  obtain q xs where q: "zs @ h # ys = q # xs" by (cases zs) auto
  have "cyc s (h # ys @ p # zs)" using lists_okD [OF ok, of h] L by blast
  then have "cyc s (p # zs @ h # ys)" using cyc_rotate [of s "h # ys" "p # zs"] by simp
  from list_delete_spec [OF this [unfolded q]] show ?thesis
  proof (rule ensures_mono)
    fix s' assume s': "cyc s' (q # xs) \<and> ls_next s' p = 0 \<and> ls_prev s' p = 0 \<and>
      (\<forall>x. x \<notin> set (p # q # xs) \<longrightarrow> ls_next s' x = ls_next s x \<and> ls_prev s' x = ls_prev s x)"
    have "cyc s' (h # ys @ zs)" using s' cyc_rotate [of s' zs "h # ys"] q by simp
    moreover have "set (p # q # xs) = set (h # ys @ p # zs)" unfolding q [symmetric] by auto
    ultimately show "lists_ok s' (L(h \<mapsto> ys @ zs))"
      using s' by (intro lists_ok_change [where F = "{}", OF ok L]) auto
  qed
qed

lemma init_free:
  assumes ok: "lists_ok s L" and h: "h \<noteq> 0" "\<And>h'. h' \<noteq> h \<Longrightarrow> h \<notin> nodes L h'"
  shows "ensures (list_init s h) (\<lambda>s'. lists_ok s' (L(h \<mapsto> [])))"
  using list_init_spec [OF h(1), of s]
proof (rule ensures_mono)
  fix s' assume "cyc s' [h] \<and> (\<forall>x. x \<noteq> h \<longrightarrow> ls_next s' x = ls_next s x \<and> ls_prev s' x = ls_prev s x)"
  then show "lists_ok s' (L(h \<mapsto> []))" using h(2) by (intro lists_ok_update [OF ok]) (auto, metis+)
qed

lemma list_move_spec:
  assumes ok: "lists_ok s L" and L: "L h = Some xs" and d: "d \<noteq> h" "is_free L d \<or> L d = Some []"
  shows "ensures (list_move s d h) (\<lambda>s'. lists_ok s' (L(d \<mapsto> xs, h \<mapsto> [])))"
proof -
  have c: "cyc s (h # xs)" using lists_okD [OF ok, of h] L by blast
  have dL: "d \<notin> nodes L h'" if "h' \<noteq> d" for h'
  proof (cases "is_free L d")
    case False
    then have "d \<in> nodes L d" using d(2) by (simp add: nodes_def)
    then show ?thesis using ok that unfolding lists_ok_def by blast
  qed (simp add: is_free_def)
  have d0: "d \<noteq> 0" using d(2) lists_okD [OF ok, of d "[]"] by (auto simp: is_free_def cyc_def)
  show ?thesis
  proof (cases xs)
    case Nil
    have "L(d \<mapsto> [], h \<mapsto> []) = L(d \<mapsto> [])" using L Nil d(1) by (auto simp: fun_eq_iff)
    then show ?thesis using init_free [OF ok d0 dL] Nil by (simp add: list_move_def list_empty_spec [OF c])
  next
    case (Cons q ys)
    have dn: "d \<notin> set (h # q # ys)" using dL [of h] d(1) nodes_Some [of L h, OF L] Cons by auto
    obtain s1 where s1: "list_replace s h d = Some s1" "cyc s1 (d # q # ys)"
        "\<forall>x. x \<notin> set (d # q # ys) \<longrightarrow> ls_next s1 x = ls_next s x \<and> ls_prev s1 x = ls_prev s x"
      using list_replace_spec [OF c [unfolded Cons] d0 dn] by (auto elim!: ensuresE)
    let ?L = "L(h := None)"
    have away: "nodes ?L h' \<inter> set (h # d # q # ys) = {}" if "h' \<noteq> d" for h'
    proof (cases "h' = h")
      case False
      then have "nodes L h' \<inter> set (h # q # ys) = {}"
        using ok nodes_Some [of L h, OF L] Cons unfolding lists_ok_def by metis
      then show ?thesis using dL [OF that] False by simp
    qed simp
    have "lists_ok s1 (?L(d \<mapsto> xs))"
      unfolding Cons
    proof (rule lists_ok_update [OF lists_ok_forget [OF ok] s1(2)])
      fix h' assume "h' \<noteq> d"
      with away show "nodes ?L h' \<inter> set (d # q # ys) = {}" by (metis disjoint_iff list.set_intros(2))
      then show "ls_next s1 x = ls_next s x \<and> ls_prev s1 x = ls_prev s x" if "x \<in> nodes ?L h'" for x
        using s1(3) that by blast
    qed
    moreover have "h \<notin> nodes (?L(d \<mapsto> xs)) h'" if "h' \<noteq> h" for h'
      using away [of h'] that c d(1) by (cases "h' = d") (auto simp: cyc_def)
    moreover have "h \<noteq> 0" using cyc_head(1) [OF c] .
    ultimately have "ensures (list_init s1 h) (\<lambda>s'. lists_ok s' (?L(d \<mapsto> xs, h \<mapsto> [])))" by (intro init_free) auto
    moreover have "?L(d \<mapsto> xs, h \<mapsto> []) = L(d \<mapsto> xs, h \<mapsto> [])" using d(1) by (auto simp: fun_eq_iff)
    ultimately show ?thesis using Cons by (simp add: list_move_def list_empty_spec [OF c] s1(1))
  qed
qed

lemma list_do_spec:
  assumes ok: "lists_ok s L" and spec: "lists_do L op = Some (L', a)"
  shows "\<exists>s'. list_do s op = Some (s', a) \<and> lists_ok s' L'"
proof -
  have cycle: "L h = Some xs \<Longrightarrow> cyc s (h # xs)" for h xs using lists_okD [OF ok, of h xs] .
  show ?thesis
  proof (cases op)
    case (List_init h)
    then show ?thesis using spec init_free [OF ok, of h] by (auto simp: is_free_def elim!: ensuresE split: if_splits)
  next
    case (List_push h e)
    then obtain xs where "L h = Some ([] @ xs)" "is_free L e" "L' = L(h \<mapsto> e # xs)" "a = Nothing"
      using spec by (auto split: option.splits if_splits)
    then show ?thesis using insert_between(2) [OF ok, of h "[]" xs e] List_push
      by (auto simp: list_push_def list_end_def elim!: ensuresE)
  next
    case (List_push_back h e)
    then obtain xs where "L h = Some (xs @ [])" "is_free L e" "L' = L(h \<mapsto> xs @ [e])" "a = Nothing"
      using spec by (auto split: option.splits if_splits)
    then show ?thesis using insert_between(4) [OF ok, of h xs "[]" e] List_push_back
      by (auto simp: list_push_back_def list_end_def elim!: ensuresE)
  next
    case (List_insert_after h p e)
    then obtain xs where L: "L h = Some xs" "p \<in> set xs" "is_free L e" "L' = L(h \<mapsto> put_after p e xs)" "a = Nothing"
      using spec by (auto split: option.splits if_splits)
    obtain ys zs where xs: "xs = ys @ p # zs" "p \<notin> set ys" using split_list_first [OF L(2)] by blast
    then show ?thesis using insert_between(1) [OF ok, of h "ys @ [p]" zs e] L List_insert_after
      by (auto simp: put_after_split elim!: ensuresE)
  next
    case (List_insert_before h p e)
    then obtain xs where L: "L h = Some xs" "p \<in> set xs" "is_free L e" "L' = L(h \<mapsto> put_before p e xs)" "a = Nothing"
      using spec by (auto split: option.splits if_splits)
    obtain ys zs where xs: "xs = ys @ p # zs" "p \<notin> set ys" using split_list_first [OF L(2)] by blast
    then show ?thesis using insert_between(3) [OF ok, of h ys "p # zs" e] L List_insert_before
      by (auto simp: put_before_split elim!: ensuresE)
  next
    case (List_delete h p)
    then obtain xs where L: "L h = Some xs" "p \<in> set xs" "L' = L(h \<mapsto> remove1 p xs)" "a = Nothing"
      using spec by (auto split: option.splits if_splits)
    obtain ys zs where xs: "xs = ys @ p # zs" "p \<notin> set ys" using split_list_first [OF L(2)] by blast
    then show ?thesis using delete_between [OF ok, of h ys p zs] L List_delete
      by (auto simp: remove1_split elim!: ensuresE)
  next
    case (List_pop h)
    then obtain x xs where L: "L h = Some ([] @ x # xs)" "L' = L(h \<mapsto> xs)" "a = Node x"
      using spec by (auto split: option.splits list.splits)
    then show ?thesis using delete_between [OF ok, of h "[]" x xs] cyc_head [OF cycle [of h "x # xs"]] List_pop
      by (auto simp: list_pop_def list_begin_def store_defs elim!: ensuresE)
  next
    case (List_pop_back h)
    then obtain y ys where L: "L h = Some (y # ys)" "L' = L(h \<mapsto> butlast (y # ys))" "a = Node (last (y # ys))"
      using spec by (auto split: option.splits list.splits)
    obtain xs x where x: "y # ys = xs @ [x]" by (metis append_butlast_last_id list.distinct(1))
    then show ?thesis using delete_between [OF ok, of h xs x "[]"] cyc_head [OF cycle [OF L(1)]] L List_pop_back
      by (auto simp: list_pop_back_def list_end_def store_defs elim!: ensuresE)
  next
    case (List_move d h)
    then show ?thesis using spec list_move_spec [OF ok, of h _ d] by (auto elim!: ensuresE split: option.splits if_splits)
  next
    case (List_empty h)
    then show ?thesis using spec ok list_empty_spec cycle by fastforce
  next
    case (List_singular h)
    then show ?thesis using spec ok list_singular_spec cycle by fastforce
  next
    case (List_get_next h)
    then show ?thesis using spec ok list_get_next_spec cycle by fastforce
  next
    case (List_find h e)
    then show ?thesis using spec ok list_foreach_spec(2) cycle by fastforce
  next
    case (List_foreach h)
    then show ?thesis using spec ok list_foreach_spec(1) cycle by (fastforce simp: bind_eq_Some_conv)
  next
    case (List_foreach_reverse h)
    then show ?thesis using spec ok list_foreach_reverse_spec cycle by (fastforce simp: bind_eq_Some_conv)
  qed
qed

text \<open>C7: The linked lists implement lists of members. In a store with any number of lists, every sequence of calls that
  the specification allows runs without following a null link or failing an assertion, every loop over a list
  ends, every answer is the one that the lists of members give, and at the end the links are those of the
  lists that the specification has, none disturbed by calls on another.\<close>

theorem linked_lists_refine_lists:
  assumes "lists_ok s L" "lists_run L ops = Some (L', as)"
  shows "\<exists>s'. list_run s ops = Some (s', as) \<and> lists_ok s' L'"
  using assms
proof (induction ops arbitrary: s L as)
  case (Cons op ops)
  then obtain L1 a as' where step: "lists_do L op = Some (L1, a)" "lists_run L1 ops = Some (L', as')" "as = a # as'"
    by (auto simp: bind_eq_Some_conv)
  obtain s1 where "list_do s op = Some (s1, a)" "lists_ok s1 L1" using list_do_spec [OF Cons.prems(1) step(1)] by blast
  with Cons.IH [OF this(2) step(2)] step(3) show ?case by auto
qed simp

definition blank_store :: list_store where
  "blank_store = \<lparr>ls_prev = \<lambda>_. 0, ls_next = \<lambda>_. 0\<rparr>"

definition list_calls :: "list_op list" where
  "list_calls = [List_init 1, List_push 1 10, List_push_back 1 11, List_pop_back 1, List_foreach 1]"

lemma blank_store_ok: "lists_ok blank_store Map.empty"
  by (simp add: lists_ok_def nodes_def)

lemma list_calls_allowed:
  "lists_run Map.empty list_calls = Some ([1 \<mapsto> [10]], [Nothing, Nothing, Nothing, Node 11, Nodes [10]])"
  by (simp add: list_calls_def is_free_def nodes_def)

theorem linked_lists_refine_lists_witness:
  "lists_ok blank_store Map.empty \<and>
   lists_run Map.empty list_calls = Some ([1 \<mapsto> [10]], [Nothing, Nothing, Nothing, Node 11, Nodes [10]]) \<and>
   (\<exists>s'. list_run blank_store list_calls = Some (s', [Nothing, Nothing, Nothing, Node 11, Nodes [10]]) \<and> lists_ok s' [1 \<mapsto> [10]])"
  using linked_lists_refine_lists [OF blank_store_ok list_calls_allowed] blank_store_ok list_calls_allowed by blast

end
