(* ===== verification/Table.thy ===== *)
theory Table
  imports Buffer
begin

text \<open>
  \<^verbatim>\<open>kernel/src/runtime/table.c\<close> and \<^verbatim>\<open>table.h\<close>: hash tables with chains.

  A chain is the list of its entries, so a pointer to a link of a chain is the part of the list before it. A
  table is over the type of its keys; its functions for hashing and comparing them are fields, as in the
  code. Values are pointers, of which zero (\<^verbatim>\<open>EMPTY\<close>) is no value. Sizes and counts are natural
  numbers. What the heaps grant are fields as well: \<open>t_h n\<close> whether there is memory for \<open>n\<close> buckets, and
  \<open>t_eh n\<close> whether there is memory for another entry while \<open>n\<close> are in use.

  The functions on keys are an interface: the locale \<open>table_keys\<close> has what the tables need of them, and is interpreted on
  the pointers and on the byte buffers of the code.
\<close>

section \<open>Data\<close>

definition EMPTY :: ptr where
  "EMPTY = 0"

definition TABLE_MAX_BUCKETS :: nat where
  "TABLE_MAX_BUCKETS = 131072"

record 'c entry =
  e_v :: ptr
  e_k :: u64
  e_c :: 'c

record 'c table =
  t_h :: "nat \<Rightarrow> bool"
  t_eh :: "nat \<Rightarrow> bool"
  t_shared :: bool
  t_buckets :: nat
  t_count :: nat
  t_entries :: "'c entry list list"
  t_key_function :: "'c \<Rightarrow> u64"
  t_equals_function :: "'c \<Rightarrow> 'c \<Rightarrow> bool"

definition pointer_equal :: "ptr \<Rightarrow> ptr \<Rightarrow> bool" where
  "pointer_equal a b \<longleftrightarrow> a = b"

definition identity_key :: "ptr \<Rightarrow> u64" where
  "identity_key a = a"

section \<open>Operations\<close>

text \<open>\<^verbatim>\<open>allocate_table_internal\<close>: \<open>mem\<close> says whether there is memory for the structure and \<open>objcache\<close> is the heap of
  entries of a table with a fixed number of them, if it can be made.\<close>

definition allocate_table_internal ::
    "bool \<Rightarrow> (nat \<Rightarrow> bool) \<Rightarrow> (nat \<Rightarrow> bool) \<Rightarrow> (nat \<Rightarrow> bool) option \<Rightarrow> ('c \<Rightarrow> u64) \<Rightarrow> ('c \<Rightarrow> 'c \<Rightarrow> bool) \<Rightarrow> nat \<Rightarrow>
     'c table option" where
  "allocate_table_internal mem h eh objcache key_function equals_function prealloc_count =
     (let buckets = (if prealloc_count \<noteq> 0 then prealloc_count else 4);
          t = \<lparr>t_h = h, t_eh = eh, t_shared = True, t_buckets = buckets, t_count = 0, t_entries = replicate buckets [],
               t_key_function = key_function, t_equals_function = equals_function\<rparr>
      in if \<not> mem \<or> \<not> h buckets then None
         else if prealloc_count = 0 then Some t
         else map_option (\<lambda>oc. t\<lparr>t_eh := oc, t_shared := False\<rparr>) objcache)"

definition allocate_table ::
    "bool \<Rightarrow> (nat \<Rightarrow> bool) \<Rightarrow> (nat \<Rightarrow> bool) \<Rightarrow> ('c \<Rightarrow> u64) \<Rightarrow> ('c \<Rightarrow> 'c \<Rightarrow> bool) \<Rightarrow> 'c table option" where
  "allocate_table mem h eh key_function equals_function =
     allocate_table_internal mem h eh None key_function equals_function 0"

definition allocate_table_preallocated ::
    "bool \<Rightarrow> (nat \<Rightarrow> bool) \<Rightarrow> (nat \<Rightarrow> bool) \<Rightarrow> (nat \<Rightarrow> bool) option \<Rightarrow> ('c \<Rightarrow> u64) \<Rightarrow> ('c \<Rightarrow> 'c \<Rightarrow> bool) \<Rightarrow> nat \<Rightarrow>
     'c table option" where
  "allocate_table_preallocated mem h eh objcache key_function equals_function prealloc_count =
     allocate_table_internal mem h eh objcache key_function equals_function prealloc_count"

definition position :: "nat \<Rightarrow> u64 \<Rightarrow> nat" where
  "position buckets x = unat (x AND of_nat (buckets - 1))"

text \<open>\<^verbatim>\<open>resize_table\<close>: every entry of every chain goes to the front of its new chain. A failed assertion and a
  lack of memory are \<open>None\<close>.\<close>

definition rehash :: "nat \<Rightarrow> 'c entry list list \<Rightarrow> 'c entry \<Rightarrow> 'c entry list list" where
  "rehash buckets nentries j = (let km = position buckets (e_k j) in nentries[km := j # nentries ! km])"

definition resize_table :: "'c table \<Rightarrow> nat \<Rightarrow> 'c table option" where
  "resize_table t buckets =
     (if buckets AND (buckets - 1) \<noteq> 0 \<or> buckets > TABLE_MAX_BUCKETS \<or> \<not> t_shared t then None
      else if \<not> t_h t buckets then None
      else Some (t\<lparr>t_entries := foldl (foldl (rehash buckets)) (replicate buckets []) (t_entries t), t_buckets := buckets\<rparr>))"

text \<open>The chain of a key, and the test of its entries.\<close>

definition chain_of :: "'c table \<Rightarrow> u64 \<Rightarrow> 'c entry list" where
  "chain_of t k = t_entries t ! position (t_buckets t) k"

definition set_chain :: "'c table \<Rightarrow> u64 \<Rightarrow> 'c entry list \<Rightarrow> 'c table" where
  "set_chain t k es = t\<lparr>t_entries := (t_entries t)[position (t_buckets t) k := es]\<rparr>"

definition entry_matches :: "'c table \<Rightarrow> u64 \<Rightarrow> 'c \<Rightarrow> 'c entry \<Rightarrow> bool" where
  "entry_matches t k c e \<longleftrightarrow> e_k e = k \<and> t_equals_function t (e_c e) c"

text \<open>\<^verbatim>\<open>table_insert_internal\<close> puts the entry at the end of the chain, where the search stopped.\<close>

definition table_insert_internal :: "'c table \<Rightarrow> u64 \<Rightarrow> 'c \<Rightarrow> ptr \<Rightarrow> 'c table option" where
  "table_insert_internal t k c v =
     (if \<not> t_eh t (t_count t) then None
      else let t' = set_chain t k (chain_of t k @ [\<lparr>e_v = v, e_k = k, e_c = c\<rparr>]);
               t'' = t'\<lparr>t_count := t_count t + 1\<rparr>
           in if t_count t > t_buckets t \<and> t_buckets t \<le> TABLE_MAX_BUCKETS div 2
              then resize_table t'' (t_buckets t * 2) else Some t'')"

text \<open>\<^verbatim>\<open>table_remove_internal\<close> unlinks the entry the search stopped at, the first that matches.\<close>

fun remove_first :: "('a \<Rightarrow> bool) \<Rightarrow> 'a list \<Rightarrow> 'a list" where
  "remove_first P [] = []"
| "remove_first P (x # xs) = (if P x then xs else x # remove_first P xs)"

definition table_remove_internal :: "'c table \<Rightarrow> u64 \<Rightarrow> 'c \<Rightarrow> 'c table option" where
  "table_remove_internal t k c =
     (if t_count t > 0
      then Some ((set_chain t k (remove_first (entry_matches t k c) (chain_of t k)))\<lparr>t_count := t_count t - 1\<rparr>)
      else None)"

definition table_find :: "'c table \<Rightarrow> 'c \<Rightarrow> ptr" where
  "table_find t c =
     (let k = t_key_function t c
      in case find (entry_matches t k c) (chain_of t k) of None \<Rightarrow> EMPTY | Some e \<Rightarrow> e_v e)"

fun update_first :: "('a \<Rightarrow> bool) \<Rightarrow> ('a \<Rightarrow> 'a) \<Rightarrow> 'a list \<Rightarrow> 'a list" where
  "update_first P f [] = []"
| "update_first P f (x # xs) = (if P x then f x # xs else x # update_first P f xs)"

definition table_set :: "'c table \<Rightarrow> 'c \<Rightarrow> ptr \<Rightarrow> 'c table option" where
  "table_set t c v =
     (let k = t_key_function t c; m = entry_matches t k c
      in case find m (chain_of t k) of
           Some _ \<Rightarrow> if v = EMPTY then table_remove_internal t k c
                     else Some (set_chain t k (update_first m (\<lambda>e. e\<lparr>e_v := v\<rparr>) (chain_of t k)))
         | None \<Rightarrow> if v \<noteq> EMPTY then table_insert_internal t k c v else Some t)"

definition table_set_noreplace :: "'c table \<Rightarrow> 'c \<Rightarrow> ptr \<Rightarrow> ('c table \<times> bool) option" where
  "table_set_noreplace t c v =
     (let k = t_key_function t c
      in case find (entry_matches t k c) (chain_of t k) of
           Some _ \<Rightarrow> Some (t, False)
         | None \<Rightarrow> map_option (\<lambda>t. (t, True)) (table_insert_internal t k c v))"

definition table_remove :: "'c table \<Rightarrow> 'c \<Rightarrow> ('c table \<times> ptr) option" where
  "table_remove t c =
     (let k = t_key_function t c
      in case find (entry_matches t k c) (chain_of t k) of
           Some e \<Rightarrow> map_option (\<lambda>t. (t, e_v e)) (table_remove_internal t k c)
         | None \<Rightarrow> Some (t, EMPTY))"

definition table_elements :: "'c table \<Rightarrow> nat" where
  "table_elements t = t_count t"

definition table_clear :: "'c table \<Rightarrow> 'c table" where
  "table_clear t = t\<lparr>t_entries := map (\<lambda>_. []) (t_entries t), t_count := 0\<rparr>"

text \<open>\<^verbatim>\<open>table_foreach\<close> with a body that works on its own state. The condition of the inner loop is a comma
  expression whose value is the value of the entry, so the walk of a chain stops at a null value.\<close>

definition table_foreach :: "'c table \<Rightarrow> ('c \<Rightarrow> ptr \<Rightarrow> 's \<Rightarrow> 's) \<Rightarrow> 's \<Rightarrow> 's" where
  "table_foreach t body s = fold (\<lambda>es. fold (\<lambda>e. body (e_c e) (e_v e)) (takeWhile (\<lambda>e. e_v e \<noteq> EMPTY) es)) (t_entries t) s"

section \<open>Lists\<close>

lemma find_split:
  "find P xs = Some e \<Longrightarrow> \<exists>ys zs. xs = ys @ e # zs \<and> P e \<and> (\<forall>y \<in> set ys. \<not> P y)"
proof (induction xs)
  case (Cons x xs)
  show ?case
  proof (cases "P x")
    case True
    with Cons.prems show ?thesis by (intro exI [of _ "[]"] exI [of _ xs]) simp
  next
    case False
    with Cons obtain ys zs where "xs = ys @ e # zs \<and> P e \<and> (\<forall>y \<in> set ys. \<not> P y)" by auto
    with False show ?thesis by (intro exI [of _ "x # ys"] exI [of _ zs]) simp
  qed
qed simp

lemma remove_first_split: "P e \<Longrightarrow> \<forall>y \<in> set ys. \<not> P y \<Longrightarrow> remove_first P (ys @ e # zs) = ys @ zs"
  by (induction ys) auto

lemma update_first_split: "P e \<Longrightarrow> \<forall>y \<in> set ys. \<not> P y \<Longrightarrow> update_first P f (ys @ e # zs) = ys @ f e # zs"
  by (induction ys) auto

lemma concat_update:
  assumes "p < length xss"
  shows "\<exists>A B. concat xss = A @ xss ! p @ B \<and> (\<forall>ys. concat (xss[p := ys]) = A @ ys @ B)"
proof -
  have "concat xss = concat (take p xss) @ xss ! p @ concat (drop (Suc p) xss)"
    using id_take_nth_drop [OF assms] by (metis concat.simps(2) concat_append)
  moreover have "concat (xss[p := ys]) = concat (take p xss) @ ys @ concat (drop (Suc p) xss)" for ys
    using assms by (simp add: upd_conv_take_nth_drop)
  ultimately show ?thesis by blast
qed

lemma map_of_middle:
  assumes "k \<notin> fst ` set A"
  shows "map_of (A @ (k, v) # B) k = Some v"
    "map_of (A @ (k, w) # B) = (map_of (A @ (k, v) # B))(k \<mapsto> w)"
    "k \<notin> fst ` set B \<Longrightarrow> map_of (A @ B) = (map_of (A @ (k, v) # B))(k := None)"
    "k \<notin> fst ` set B \<Longrightarrow> map_of (A @ (k, v) # B) = (map_of (A @ B))(k \<mapsto> v)"
proof -
  have a: "map_of A k = None" using assms by (simp add: map_of_eq_None_iff)
  show "map_of (A @ (k, v) # B) k = Some v" "map_of (A @ (k, w) # B) = (map_of (A @ (k, v) # B))(k \<mapsto> w)"
    using a by (auto simp: map_add_def fun_eq_iff split: option.splits)
  assume "k \<notin> fst ` set B"
  then have b: "map_of B k = None" by (simp add: map_of_eq_None_iff)
  show "map_of (A @ B) = (map_of (A @ (k, v) # B))(k := None)" "map_of (A @ (k, v) # B) = (map_of (A @ B))(k \<mapsto> v)"
    using a b by (auto simp: map_add_def fun_eq_iff split: option.splits)
qed

lemma position_less: "0 < buckets \<Longrightarrow> buckets < 2 ^ 31 \<Longrightarrow> position buckets x < buckets"
proof -
  assume b: "0 < buckets" "buckets < 2 ^ 31"
  have "unat (x AND of_nat (buckets - 1)) \<le> unat (of_nat (buckets - 1) :: u64)"
    using word_and_le1 [of x "of_nat (buckets - 1)"] by (simp add: word_le_nat_alt)
  also have "\<dots> = buckets - 1" using b by (subst unat_of_nat) simp
  finally show ?thesis using b(1) by (simp add: position_def)
qed

lemma foldl_nested: "foldl (foldl f) a xss = foldl f a (concat xss)"
  by (induction xss arbitrary: a) simp_all

lemma power_and_pred: "(2 ^ j) AND (2 ^ j - 1) = (0 :: nat)"
proof -
  have "(2 ^ j) AND (2 ^ j - 1) = take_bit j (2 ^ j :: nat)" by (simp add: take_bit_eq_mask mask_eq_exp_minus_1)
  then show ?thesis by (simp add: take_bit_nat_def)
qed

lemma mset_concat_update:
  assumes "p < length xss" "mset ys = mset (xss ! p) + M"
  shows "mset (concat (xss[p := ys])) = mset (concat xss) + M"
proof -
  obtain A B where "concat xss = A @ xss ! p @ B" "concat (xss[p := ys]) = A @ ys @ B" using concat_update [OF assms(1)] by blast
  with assms(2) show ?thesis by (simp only: mset_append union_ac)
qed

definition hashed :: "nat \<Rightarrow> 'c entry list list \<Rightarrow> bool" where
  "hashed b N \<longleftrightarrow> length N = b \<and> (\<forall>p < b. \<forall>e \<in> set (N ! p). position b (e_k e) = p)"

lemma rehash_step:
  assumes b: "0 < b" "b < 2 ^ 31" and N: "hashed b N"
  shows "hashed b (rehash b N e)" "mset (concat (rehash b N e)) = mset (concat N) + {#e#}"
proof -
  have k: "position b (e_k e) < length N" using position_less [OF b] N by (simp add: hashed_def)
  then show "hashed b (rehash b N e)" using N by (auto simp: hashed_def rehash_def Let_def nth_list_update)
  show "mset (concat (rehash b N e)) = mset (concat N) + {#e#}"
    unfolding rehash_def Let_def using k by (intro mset_concat_update) auto
qed

lemma rehash_all:
  assumes b: "0 < b" "b < 2 ^ 31" and N: "hashed b N"
  shows "hashed b (foldl (rehash b) N es) \<and> mset (concat (foldl (rehash b) N es)) = mset (concat N) + mset es"
  using N
proof (induction es arbitrary: N)
  case (Cons e es)
  from Cons.IH [OF rehash_step(1) [OF b Cons.prems]] rehash_step(2) [OF b Cons.prems] show ?case by simp
qed simp

section \<open>Sequences of operations\<close>

text \<open>A client of a table: a sequence of operations and what they answer (a boolean as 0 or 1).\<close>

datatype 'c table_op = TSet 'c ptr | TNoreplace 'c ptr | TRemove 'c | TFind 'c | TClear

fun table_step :: "'c table_op \<Rightarrow> 'c table \<Rightarrow> ('c table \<times> ptr) option" where
  "table_step (TSet c v) t = map_option (\<lambda>t. (t, 0)) (table_set t c v)"
| "table_step (TNoreplace c v) t = map_option (\<lambda>(t, b). (t, of_bool b)) (table_set_noreplace t c v)"
| "table_step (TRemove c) t = table_remove t c"
| "table_step (TFind c) t = Some (t, table_find t c)"
| "table_step TClear t = Some (table_clear t, 0)"

fun table_run :: "'c table_op list \<Rightarrow> 'c table \<Rightarrow> ('c table \<times> ptr list) option" where
  "table_run [] t = Some (t, [])"
| "table_run (op # ops) t = do {
     (t, r) \<leftarrow> table_step op t;
     (t, rs) \<leftarrow> table_run ops t;
     Some (t, r # rs)
   }"

text \<open>The same operations on a map from keys to pointers, where keys that compare equal are the same.\<close>

definition answer :: "ptr option \<Rightarrow> ptr" where
  "answer r = (case r of None \<Rightarrow> EMPTY | Some v \<Rightarrow> v)"

fun spec_step :: "('c \<Rightarrow> 'c \<Rightarrow> bool) \<Rightarrow> 'c table_op \<Rightarrow> ('c \<Rightarrow> ptr option) \<Rightarrow> ('c \<Rightarrow> ptr option) \<times> ptr" where
  "spec_step eq (TSet c v) m = ((\<lambda>d. if eq d c then (if v = EMPTY then None else Some v) else m d), 0)"
| "spec_step eq (TNoreplace c v) m =
     (if m c = None then ((\<lambda>d. if eq d c then Some v else m d), 1) else (m, 0))"
| "spec_step eq (TRemove c) m = ((\<lambda>d. if eq d c then None else m d), answer (m c))"
| "spec_step eq (TFind c) m = (m, answer (m c))"
| "spec_step eq TClear m = (Map.empty, 0)"

fun spec_run :: "('c \<Rightarrow> 'c \<Rightarrow> bool) \<Rightarrow> 'c table_op list \<Rightarrow> ('c \<Rightarrow> ptr option) \<Rightarrow> ptr list" where
  "spec_run eq [] m = []"
| "spec_run eq (op # ops) m = (let (m', r) = spec_step eq op m in r # spec_run eq ops m')"

fun op_key :: "'c table_op \<Rightarrow> 'c option" where
  "op_key (TSet c v) = Some c"
| "op_key (TNoreplace c v) = Some c"
| "op_key (TRemove c) = Some c"
| "op_key (TFind c) = Some c"
| "op_key TClear = None"

section \<open>Tables as maps\<close>

text \<open>What a table needs of the functions on its keys: on valid keys, comparison is an equivalence and equal keys have
  the same hash.\<close>

locale table_keys =
  fixes key :: "'c \<Rightarrow> u64" and eq :: "'c \<Rightarrow> 'c \<Rightarrow> bool" and valid :: "'c \<Rightarrow> bool"
  assumes eq_refl: "valid a \<Longrightarrow> eq a a"
    and eq_sym: "valid a \<Longrightarrow> valid b \<Longrightarrow> eq a b \<Longrightarrow> eq b a"
    and eq_trans: "valid a \<Longrightarrow> valid b \<Longrightarrow> valid c \<Longrightarrow> eq a b \<Longrightarrow> eq b c \<Longrightarrow> eq a c"
    and eq_key: "valid a \<Longrightarrow> valid b \<Longrightarrow> eq a b \<Longrightarrow> key a = key b"
begin

text \<open>The keys a key stands for.\<close>

definition same_key :: "'c \<Rightarrow> 'c set" where
  "same_key c = {d. valid d \<and> eq c d}"

lemma same_key_eq: "valid a \<Longrightarrow> valid b \<Longrightarrow> same_key a = same_key b \<longleftrightarrow> eq a b"
  using eq_refl eq_sym eq_trans unfolding same_key_def by blast

definition key_pairs :: "'c entry list \<Rightarrow> ('c set \<times> ptr) list" where
  "key_pairs es = map (\<lambda>e. (same_key (e_c e), e_v e)) es"

definition table_map :: "'c table \<Rightarrow> 'c set \<Rightarrow> ptr option" where
  "table_map t = map_of (key_pairs (concat (t_entries t)))"

definition entries_ok :: "'c table \<Rightarrow> bool" where
  "entries_ok t \<longleftrightarrow>
     (\<forall>p < t_buckets t. \<forall>e \<in> set (t_entries t ! p). valid (e_c e) \<and> e_k e = key (e_c e) \<and> position (t_buckets t) (e_k e) = p)"

definition table_wf :: "'c table \<Rightarrow> bool" where
  "table_wf t \<longleftrightarrow>
     t_key_function t = key \<and> t_equals_function t = eq \<and> 0 < t_buckets t \<and> t_buckets t < 2 ^ 31 \<and>
     length (t_entries t) = t_buckets t \<and> entries_ok t \<and> t_count t = length (concat (t_entries t)) \<and>
     distinct (map fst (key_pairs (concat (t_entries t))))"

text \<open>A table that can grow: its buckets are a power of two, and there are more entries than buckets only by one or when
  it is as large as it gets.\<close>

definition growing :: "'c table \<Rightarrow> bool" where
  "growing t \<longleftrightarrow> t_shared t \<and> (\<forall>n. t_h t n) \<and> (\<forall>n. t_eh t n) \<and> (\<exists>j. t_buckets t = 2 ^ j) \<and>
     t_buckets t \<le> TABLE_MAX_BUCKETS \<and> (t_count t \<le> t_buckets t + 1 \<or> TABLE_MAX_BUCKETS div 2 < t_buckets t)"

lemma entries_ok_count [simp]: "entries_ok (t\<lparr>t_count := n\<rparr>) = entries_ok t"
  by (simp add: entries_ok_def)

lemma chain_at:
  assumes "table_wf t"
  shows "\<exists>A B. concat (t_entries t) = A @ chain_of t k @ B \<and>
     (\<forall>es. concat (t_entries (set_chain t k es)) = A @ es @ B)"
  using concat_update [of "position (t_buckets t) k" "t_entries t"] position_less [of "t_buckets t" k] assms
  by (simp add: table_wf_def chain_of_def set_chain_def)

lemma key_pairs_append [simp]:
  "key_pairs [] = []" "key_pairs (e # es) = (same_key (e_c e), e_v e) # key_pairs es" "key_pairs (es @ fs) = key_pairs es @ key_pairs fs"
  by (simp_all add: key_pairs_def)

lemma entry_valid:
  assumes "table_wf t" "e \<in> set (concat (t_entries t))"
  shows "valid (e_c e)" "e_k e = key (e_c e)" "e \<in> set (chain_of t (e_k e))"
proof -
  obtain es where "es \<in> set (t_entries t)" "e \<in> set es" using assms(2) by auto
  then obtain p where p: "p < length (t_entries t)" "e \<in> set (t_entries t ! p)" by (auto simp: in_set_conv_nth)
  moreover have "length (t_entries t) = t_buckets t" "entries_ok t" using assms(1) by (simp_all add: table_wf_def)
  ultimately have "valid (e_c e) \<and> e_k e = key (e_c e) \<and> position (t_buckets t) (e_k e) = p"
    unfolding entries_ok_def by metis
  with p(2) show "valid (e_c e)" "e_k e = key (e_c e)" "e \<in> set (chain_of t (e_k e))"
    unfolding chain_of_def by blast+
qed

lemma matches_iff:
  assumes "table_wf t" "e \<in> set (concat (t_entries t))" "valid c"
  shows "entry_matches t (key c) c e \<longleftrightarrow> same_key (e_c e) = same_key c"
proof -
  have "t_equals_function t = eq" using assms(1) by (simp add: table_wf_def)
  then show ?thesis using entry_valid [OF assms(1,2)] assms(3) eq_key by (auto simp: entry_matches_def same_key_eq)
qed

text \<open>The search through a chain, by its outcome.\<close>

lemma find_none:
  assumes t: "table_wf t" "valid c" and f: "find (entry_matches t (key c) c) (chain_of t (key c)) = None"
  shows "table_map t (same_key c) = None"
proof -
  have "same_key (e_c e) \<noteq> same_key c" if e: "e \<in> set (concat (t_entries t))" for e
  proof
    assume s: "same_key (e_c e) = same_key c"
    then have m: "entry_matches t (key c) c e" using matches_iff [OF t(1) e t(2)] by simp
    then have "e \<in> set (chain_of t (key c))" using entry_valid(3) [OF t(1) e] by (simp add: entry_matches_def)
    with m f show False by (simp add: find_None_iff)
  qed
  then have "same_key c \<notin> (\<lambda>e. same_key (e_c e)) ` set (concat (t_entries t))" by (auto simp del: set_concat)
  then show ?thesis by (simp add: table_map_def map_of_eq_None_iff key_pairs_def image_image del: set_concat)
qed

lemma find_some:
  assumes t: "table_wf t" "valid c" and f: "find (entry_matches t (key c) c) (chain_of t (key c)) = Some e"
  shows "\<exists>A B. concat (t_entries t) = A @ e # B \<and> same_key (e_c e) = same_key c \<and>
     concat (t_entries (set_chain t (key c) (remove_first (entry_matches t (key c) c) (chain_of t (key c))))) = A @ B \<and>
     (\<forall>f. concat (t_entries (set_chain t (key c) (update_first (entry_matches t (key c) c) f (chain_of t (key c))))) = A @ f e # B)"
proof -
  let ?P = "entry_matches t (key c) c"
  obtain ys zs where s: "chain_of t (key c) = ys @ e # zs" "?P e" "\<forall>y \<in> set ys. \<not> ?P y" using find_split [OF f] by blast
  obtain A B where ab: "concat (t_entries t) = A @ chain_of t (key c) @ B"
      "\<forall>es. concat (t_entries (set_chain t (key c) es)) = A @ es @ B" using chain_at [OF t(1)] by blast
  have "e \<in> set (concat (t_entries t))" unfolding ab(1) s(1) by simp
  then have "same_key (e_c e) = same_key c" using matches_iff [OF t(1) _ t(2)] s(2) by blast
  with s ab show ?thesis
    by (intro exI [of _ "A @ ys"] exI [of _ "zs @ B"])
       (simp add: remove_first_split [OF s(2,3)] update_first_split [OF s(2,3)])
qed

lemma table_find_spec:
  assumes "table_wf t" "valid c"
  shows "table_find t c = (case table_map t (same_key c) of None \<Rightarrow> EMPTY | Some v \<Rightarrow> v)"
proof -
  have k: "t_key_function t = key" using assms(1) by (simp add: table_wf_def)
  show ?thesis
  proof (cases "find (entry_matches t (key c) c) (chain_of t (key c))")
    case None
    with find_none [OF assms] show ?thesis by (simp add: table_find_def k)
  next
    case (Some e)
    obtain A B where ab: "concat (t_entries t) = A @ e # B" "same_key (e_c e) = same_key c" using find_some [OF assms Some] by blast
    have "same_key c \<notin> fst ` set (key_pairs A)" using assms(1) ab by (auto simp: table_wf_def)
    then have "table_map t (same_key c) = Some (e_v e)" using ab by (simp add: table_map_def map_of_middle del: map_of_append)
    with Some show ?thesis by (simp add: table_find_def k)
  qed
qed

text \<open>Changes of one chain that keep the table well formed.\<close>

lemma set_chain_ok:
  assumes t: "table_wf t" and es: "\<forall>e \<in> set es. valid (e_c e) \<and> e_k e = key (e_c e) \<and> position (t_buckets t) (e_k e) = position (t_buckets t) k"
  shows "entries_ok (set_chain t k es)" "length (t_entries (set_chain t k es)) = t_buckets t"
proof -
  have l: "length (t_entries t) = t_buckets t" "entries_ok t" using t by (simp_all add: table_wf_def)
  then show "length (t_entries (set_chain t k es)) = t_buckets t" by (simp add: set_chain_def)
  show "entries_ok (set_chain t k es)" unfolding entries_ok_def
  proof (intro allI impI ballI)
    fix p e assume p: "p < t_buckets (set_chain t k es)" "e \<in> set (t_entries (set_chain t k es) ! p)"
    have b: "t_buckets (set_chain t k es) = t_buckets t" by (simp add: set_chain_def)
    show "valid (e_c e) \<and> e_k e = key (e_c e) \<and> position (t_buckets (set_chain t k es)) (e_k e) = p"
    proof (cases "p = position (t_buckets t) k")
      case True
      with p l(1) have "e \<in> set es" by (simp add: set_chain_def)
      with es True b show ?thesis by metis
    next
      case False
      with p l(1) have "p < t_buckets t" "e \<in> set (t_entries t ! p)" by (auto simp: set_chain_def)
      with l(2) b show ?thesis unfolding entries_ok_def by metis
    qed
  qed
qed

lemma chain_entries:
  assumes "table_wf t" "e \<in> set (chain_of t k)"
  shows "valid (e_c e)" "e_k e = key (e_c e)" "position (t_buckets t) (e_k e) = position (t_buckets t) k"
proof -
  have "position (t_buckets t) k < t_buckets t" using assms(1) by (simp add: table_wf_def position_less)
  moreover have "entries_ok t" using assms(1) by (simp add: table_wf_def)
  ultimately show "valid (e_c e)" "e_k e = key (e_c e)" "position (t_buckets t) (e_k e) = position (t_buckets t) k"
    using assms(2) unfolding entries_ok_def chain_of_def by blast+
qed

text \<open>What the operations keep of a table besides its entries.\<close>

definition same_setup :: "'c table \<Rightarrow> 'c table \<Rightarrow> bool" where
  "same_setup t t' \<longleftrightarrow> t_h t' = t_h t \<and> t_eh t' = t_eh t \<and> t_shared t' = t_shared t"

lemma set_chain_wf:
  assumes t: "table_wf t" and es: "\<forall>e \<in> set es. valid (e_c e) \<and> e_k e = key (e_c e) \<and> position (t_buckets t) (e_k e) = position (t_buckets t) k"
    and d: "distinct (map fst (key_pairs (concat (t_entries (set_chain t k es)))))"
  shows "table_wf ((set_chain t k es)\<lparr>t_count := length (concat (t_entries (set_chain t k es)))\<rparr>)"
    "same_setup t ((set_chain t k es)\<lparr>t_count := n\<rparr>)" "t_buckets ((set_chain t k es)\<lparr>t_count := n\<rparr>) = t_buckets t"
proof -
  show "same_setup t ((set_chain t k es)\<lparr>t_count := n\<rparr>)" "t_buckets ((set_chain t k es)\<lparr>t_count := n\<rparr>) = t_buckets t"
    by (simp_all add: same_setup_def set_chain_def)
  have "t_key_function t = key" "t_equals_function t = eq" "0 < t_buckets t" "t_buckets t < 2 ^ 31"
    using t by (simp_all add: table_wf_def)
  with set_chain_ok [OF t es] d
  show "table_wf ((set_chain t k es)\<lparr>t_count := length (concat (t_entries (set_chain t k es)))\<rparr>)"
    by (simp add: table_wf_def) (simp add: set_chain_def)
qed

lemma remove_internal_spec:
  assumes t: "table_wf t" "valid c" and f: "find (entry_matches t (key c) c) (chain_of t (key c)) = Some e"
  shows "\<exists>t'. table_remove_internal t (key c) c = Some t' \<and> table_wf t' \<and> same_setup t t' \<and> t_buckets t' = t_buckets t \<and>
     Suc (t_count t') = t_count t \<and> table_map t (same_key c) = Some (e_v e) \<and> table_map t' = (table_map t)(same_key c := None)"
proof -
  let ?es = "remove_first (entry_matches t (key c) c) (chain_of t (key c))"
  obtain A B where ab: "concat (t_entries t) = A @ e # B" "same_key (e_c e) = same_key c"
      "concat (t_entries (set_chain t (key c) ?es)) = A @ B"
    using find_some [OF t f] by blast
  have d: "same_key c \<notin> fst ` set (key_pairs A)" "same_key c \<notin> fst ` set (key_pairs B)"
      "distinct (map fst (key_pairs (A @ B)))" and cnt: "t_count t = Suc (length (A @ B))"
    using t(1) ab by (auto simp: table_wf_def)
  have sub: "set ?es \<subseteq> set (chain_of t (key c))"
  proof -
    have "set (remove_first P xs) \<subseteq> set xs" for P and xs :: "'c entry list" by (induction xs) auto
    then show ?thesis .
  qed
  then have "\<forall>e \<in> set ?es. valid (e_c e) \<and> e_k e = key (e_c e) \<and> position (t_buckets t) (e_k e) = position (t_buckets t) (key c)"
    using chain_entries [OF t(1)] by blast
  note w = set_chain_wf [OF t(1) this]
  let ?t = "(set_chain t (key c) ?es)\<lparr>t_count := t_count t - 1\<rparr>"
  have "table_wf ?t" using w(1) d(3) cnt unfolding ab(3) by simp
  moreover have "table_map t (same_key c) = Some (e_v e)" "table_map ?t = (table_map t)(same_key c := None)"
    unfolding table_map_def using ab d(1,2) map_of_middle(1,3) [OF d(1)] by (simp_all del: map_of_append)
  ultimately show ?thesis using w(2,3) d(3) cnt ab(3) by (simp add: table_remove_internal_def)
qed

lemma update_spec:
  fixes v :: ptr
  assumes t: "table_wf t" "valid c" and f: "find (entry_matches t (key c) c) (chain_of t (key c)) = Some e"
  defines "t' \<equiv> set_chain t (key c) (update_first (entry_matches t (key c) c) (\<lambda>e. e\<lparr>e_v := v\<rparr>) (chain_of t (key c)))"
  shows "table_wf t' \<and> same_setup t t' \<and> t_buckets t' = t_buckets t \<and> t_count t' = t_count t \<and>
     table_map t' = (table_map t)(same_key c \<mapsto> v)"
proof -
  let ?es = "update_first (entry_matches t (key c) c) (\<lambda>e. e\<lparr>e_v := v\<rparr>) (chain_of t (key c))"
  obtain A B where ab: "concat (t_entries t) = A @ e # B" "same_key (e_c e) = same_key c"
      "concat (t_entries (set_chain t (key c) ?es)) = A @ e\<lparr>e_v := v\<rparr> # B"
    using find_some [OF t f] by blast
  have d: "same_key c \<notin> fst ` set (key_pairs A)" "distinct (map fst (key_pairs (A @ e\<lparr>e_v := v\<rparr> # B)))"
    and cnt: "t_count t = length (A @ e\<lparr>e_v := v\<rparr> # B)"
    using t(1) ab by (auto simp: table_wf_def)
  have "\<forall>e \<in> set (update_first P (\<lambda>e. e\<lparr>e_v := v\<rparr>) es). \<exists>e' \<in> set es. e_c e = e_c e' \<and> e_k e = e_k e'"
    for P and es :: "'c entry list" by (induction es) auto
  then have "\<forall>e \<in> set ?es. valid (e_c e) \<and> e_k e = key (e_c e) \<and> position (t_buckets t) (e_k e) = position (t_buckets t) (key c)"
    using chain_entries [OF t(1)] by metis
  note w = set_chain_wf [OF t(1) this]
  have c: "(set_chain t (key c) ?es)\<lparr>t_count := length (concat (t_entries (set_chain t (key c) ?es)))\<rparr> = set_chain t (key c) ?es"
    unfolding ab(3) cnt [symmetric] by (simp add: set_chain_def)
  have "table_wf t'" using w(1) d(2) unfolding ab(3) t'_def c [unfolded ab(3)] by simp
  moreover have "table_map t' = (table_map t)(same_key c \<mapsto> v)"
    unfolding table_map_def t'_def ab(1,3) using map_of_middle(2) [OF d(1)] ab(2) by (simp del: map_of_append)
  ultimately show ?thesis by (simp add: t'_def same_setup_def set_chain_def)
qed

lemma resize_spec:
  assumes t: "table_wf t" and g: "t_shared t" "\<forall>n. t_h t n" and b: "b = 2 ^ j" "b \<le> TABLE_MAX_BUCKETS"
  shows "\<exists>t'. resize_table t b = Some t' \<and> table_wf t' \<and> same_setup t t' \<and> t_buckets t' = b \<and> t_count t' = t_count t \<and>
     table_map t' = table_map t"
proof -
  let ?N = "foldl (rehash b) (replicate b []) (concat (t_entries t))"
  let ?t = "t\<lparr>t_entries := ?N, t_buckets := b\<rparr>"
  have b0: "0 < b" "b < 2 ^ 31" using b by (simp_all add: TABLE_MAX_BUCKETS_def)
  have "hashed b (replicate b [])" by (simp add: hashed_def)
  from rehash_all [OF b0 this, of "concat (t_entries t)"]
  have N: "hashed b ?N" "mset (concat ?N) = mset (concat (t_entries t))" by simp_all
  have se: "set (concat ?N) = set (concat (t_entries t))" using N(2) by (rule mset_eq_setD)
  have "mset (map fst (key_pairs (concat ?N))) = mset (map fst (key_pairs (concat (t_entries t))))"
    using N(2) by (simp add: key_pairs_def)
  then have d: "distinct (map fst (key_pairs (concat ?N)))" using t mset_eq_imp_distinct_iff by (metis table_wf_def)
  have "table_map ?t = table_map t"
    unfolding table_map_def using d t se
    by (subst map_of_inject_set) (simp_all add: table_wf_def key_pairs_def del: set_concat)
  moreover have "entries_ok ?t" unfolding entries_ok_def
  proof (intro allI impI ballI)
    fix p e assume p: "p < t_buckets ?t" "e \<in> set (t_entries ?t ! p)"
    then have "position b (e_k e) = p" "e \<in> set (concat ?N)" using N(1) by (auto simp: hashed_def)
    moreover from this(2) have "valid (e_c e)" "e_k e = key (e_c e)" using entry_valid(1,2) [OF t] unfolding se by blast+
    ultimately show "valid (e_c e) \<and> e_k e = key (e_c e) \<and> position (t_buckets ?t) (e_k e) = p" by simp
  qed
  moreover have "length (concat ?N) = t_count t" using N(2) t by (metis size_mset table_wf_def)
  ultimately have "table_wf ?t \<and> table_map ?t = table_map t"
    using t d b0 N(1) by (simp add: table_wf_def hashed_def)
  moreover have "resize_table t b = Some ?t"
    using b g power_and_pred [of j] by (simp add: resize_table_def foldl_nested)
  ultimately show ?thesis by (simp add: same_setup_def)
qed

lemma insert_internal_spec:
  assumes t: "table_wf t" "growing t" "valid c" and f: "find (entry_matches t (key c) c) (chain_of t (key c)) = None"
  shows "\<exists>t'. table_insert_internal t (key c) c v = Some t' \<and> table_wf t' \<and> growing t' \<and> t_count t' = Suc (t_count t) \<and>
     table_map t' = (table_map t)(same_key c \<mapsto> v)"
proof -
  let ?n = "\<lparr>e_v = v, e_k = key c, e_c = c\<rparr>"
  let ?es = "chain_of t (key c) @ [?n]"
  obtain A B where ab: "concat (t_entries t) = A @ chain_of t (key c) @ B"
      "concat (t_entries (set_chain t (key c) ?es)) = (A @ chain_of t (key c)) @ ?n # B"
    using chain_at [OF t(1), of "key c"] by auto
  have "table_map t (same_key c) = None" using find_none [OF t(1,3) f] .
  then have nin: "same_key c \<notin> fst ` set (key_pairs (A @ chain_of t (key c)))" "same_key c \<notin> fst ` set (key_pairs B)"
    unfolding table_map_def ab(1) by (simp_all add: map_of_eq_None_iff image_Un del: map_of_append)
  have d: "distinct (map fst (key_pairs ((A @ chain_of t (key c)) @ ?n # B)))"
    using t(1) nin unfolding table_wf_def ab(1) by auto
  have cnt: "t_count t = length (A @ chain_of t (key c) @ B)" using t(1) unfolding table_wf_def ab(1) by simp
  have "\<forall>e \<in> set ?es. valid (e_c e) \<and> e_k e = key (e_c e) \<and> position (t_buckets t) (e_k e) = position (t_buckets t) (key c)"
    using chain_entries [OF t(1)] t(3) by auto
  note w = set_chain_wf [OF t(1) this]
  let ?t = "(set_chain t (key c) ?es)\<lparr>t_count := t_count t + 1\<rparr>"
  have wf: "table_wf ?t" using w(1) d cnt unfolding ab(2) by simp
  have m: "table_map ?t = (table_map t)(same_key c \<mapsto> v)"
    unfolding table_map_def using ab map_of_middle(4) [OF nin] by (simp del: map_of_append)
  have g: "t_shared ?t" "\<forall>n. t_h ?t n" "\<forall>n. t_eh ?t n" "t_buckets ?t = t_buckets t" "t_count ?t = Suc (t_count t)"
    using t(2) by (auto simp: growing_def set_chain_def)
  have ins: "table_insert_internal t (key c) c v =
      (if t_count t > t_buckets t \<and> t_buckets t \<le> TABLE_MAX_BUCKETS div 2 then resize_table ?t (t_buckets t * 2) else Some ?t)"
    using t(2) by (simp add: table_insert_internal_def growing_def Let_def)
  show ?thesis
  proof (cases "t_count t > t_buckets t \<and> t_buckets t \<le> TABLE_MAX_BUCKETS div 2")
    case False
    with t(2) g have "growing ?t" by (auto simp: growing_def)
    with False wf m g(5) show ?thesis unfolding ins by auto
  next
    case True
    obtain j where j: "t_buckets t = 2 ^ j" using t(2) by (auto simp: growing_def)
    have "t_buckets t * 2 = 2 ^ Suc j" "t_buckets t * 2 \<le> TABLE_MAX_BUCKETS" using j True by (simp_all add: TABLE_MAX_BUCKETS_def)
    from resize_spec [OF wf g(1,2) this] obtain t' where t': "resize_table ?t (t_buckets t * 2) = Some t'" "table_wf t'"
        "same_setup ?t t'" "t_buckets t' = t_buckets t * 2" "t_count t' = t_count ?t" "table_map t' = table_map ?t" by blast
    have "t_count t = t_buckets t + 1" using True t(2) by (auto simp: growing_def)
    then have "growing t'"
      using t'(3-5) g j True unfolding growing_def same_setup_def by (auto intro: exI [of _ "Suc j"])
    with True t' m g(5) show ?thesis unfolding ins by simp
  qed
qed

lemma growing_same:
  "growing t \<Longrightarrow> same_setup t t' \<Longrightarrow> t_buckets t' = t_buckets t \<Longrightarrow> t_count t' \<le> t_count t \<Longrightarrow> growing t'"
  by (auto simp: growing_def same_setup_def)

definition table_inv :: "'c table \<Rightarrow> bool" where
  "table_inv t \<longleftrightarrow> table_wf t \<and> growing t"

text \<open>The map a table stands for.\<close>

definition stands_for :: "'c table \<Rightarrow> ('c \<Rightarrow> ptr option) \<Rightarrow> bool" where
  "stands_for t m \<longleftrightarrow> (\<forall>d. valid d \<longrightarrow> m d = table_map t (same_key d))"

lemma search:
  assumes "table_wf t" "valid c"
  shows "t_key_function t = key"
    "find (entry_matches t (key c) c) (chain_of t (key c)) = None \<longleftrightarrow> table_map t (same_key c) = None"
    "find (entry_matches t (key c) c) (chain_of t (key c)) = Some e \<Longrightarrow> table_map t (same_key c) = Some (e_v e)"
proof -
  show "t_key_function t = key" using assms(1) by (simp add: table_wf_def)
  show some: "table_map t (same_key c) = Some (e_v e)"
    if "find (entry_matches t (key c) c) (chain_of t (key c)) = Some e" for e
    using remove_internal_spec [OF assms that] by blast
  show "find (entry_matches t (key c) c) (chain_of t (key c)) = None \<longleftrightarrow> table_map t (same_key c) = None"
    using find_none [OF assms] some by (cases "find (entry_matches t (key c) c) (chain_of t (key c))") auto
qed

lemma table_step_spec:
  assumes t: "table_inv t" and m: "stands_for t m" and c: "\<forall>c. op_key op = Some c \<longrightarrow> valid c"
  shows "\<exists>t' r. table_step op t = Some (t', r) \<and> table_inv t' \<and> stands_for t' (fst (spec_step eq op m)) \<and> r = snd (spec_step eq op m)"
proof -
  have wf: "table_wf t" and g: "growing t" using t by (auto simp: table_inv_def)
  have upd: "stands_for t' (\<lambda>d. if eq d c then w else m d)"
    if "table_map t' = (table_map t)(same_key c := w)" "valid c" for t' c w
    using m that same_key_eq eq_sym unfolding stands_for_def by auto
  have mc: "m c = table_map t (same_key c)" if "valid c" for c using m that by (simp add: stands_for_def)
  have rem: "\<exists>t'. table_remove_internal t (key c) c = Some t' \<and> table_inv t' \<and> stands_for t' (\<lambda>d. if eq d c then None else m d)"
    if "find (entry_matches t (key c) c) (chain_of t (key c)) = Some e" "valid c" for c e
    using remove_internal_spec [OF wf that(2,1)] growing_same [OF g] upd [OF _ that(2), where w = None]
    by (fastforce simp: table_inv_def)
  have ins: "\<exists>t'. table_insert_internal t (key c) c v = Some t' \<and> table_inv t' \<and> stands_for t' (\<lambda>d. if eq d c then Some v else m d)"
    if "find (entry_matches t (key c) c) (chain_of t (key c)) = None" "valid c" for c v
    using insert_internal_spec [OF wf g that(2,1), of v] upd [OF _ that(2), where w = "Some v"] by (auto simp: table_inv_def)
  show ?thesis
  proof (cases op)
    case (TSet c v)
    then have v: "valid c" using c by simp
    note k = search [OF wf v]
    show ?thesis
    proof (cases "find (entry_matches t (key c) c) (chain_of t (key c))")
      case None
      have "stands_for t (\<lambda>d. if eq d c then None else m d)" using None k(2) by (intro upd [OF _ v] fun_upd_idem [symmetric]) simp
      with None ins [OF None v, of v] TSet k(1) t show ?thesis by (auto simp: table_set_def Let_def)
    next
      case (Some e)
      let ?t = "set_chain t (key c) (update_first (entry_matches t (key c) c) (\<lambda>e. e\<lparr>e_v := v\<rparr>) (chain_of t (key c)))"
      have "table_inv ?t \<and> stands_for ?t (\<lambda>d. if eq d c then Some v else m d)"
        using update_spec [OF wf v Some, of v] growing_same [OF g, of ?t] upd [OF _ v, of ?t "Some v"] by (auto simp: table_inv_def)
      with Some rem [OF Some v] TSet k(1) show ?thesis by (auto simp: table_set_def Let_def)
    qed
  next
    case (TNoreplace c v)
    then have v: "valid c" using c by simp
    note k = search [OF wf v]
    show ?thesis
    proof (cases "find (entry_matches t (key c) c) (chain_of t (key c))")
      case None
      with ins [OF None v, of v] TNoreplace k(1,2) mc [OF v] show ?thesis by (auto simp: table_set_noreplace_def Let_def)
    next
      case (Some e)
      with TNoreplace k(1) k(3) [OF Some] mc [OF v] t m show ?thesis by (simp add: table_set_noreplace_def Let_def)
    qed
  next
    case (TRemove c)
    then have v: "valid c" using c by simp
    note k = search [OF wf v]
    show ?thesis
    proof (cases "find (entry_matches t (key c) c) (chain_of t (key c))")
      case None
      have "stands_for t (\<lambda>d. if eq d c then None else m d)" using None k(2) by (intro upd [OF _ v] fun_upd_idem [symmetric]) simp
      with None TRemove k(1,2) mc [OF v] t show ?thesis by (simp add: table_remove_def Let_def answer_def)
    next
      case (Some e)
      with rem [OF Some v] TRemove k(1) k(3) [OF Some] mc [OF v] show ?thesis
        by (auto simp: table_remove_def Let_def answer_def)
    qed
  next
    case (TFind c)
    then have v: "valid c" using c by simp
    then show ?thesis using TFind t m mc [OF v] table_find_spec [OF wf v] by (simp add: answer_def)
  next
    case TClear
    have e: "concat (map (\<lambda>_. []) xss) = []" for xss :: "'c entry list list" by simp
    have "table_wf (table_clear t)" using wf by (simp add: table_wf_def table_clear_def entries_ok_def key_pairs_def e)
    moreover have "growing (table_clear t)" by (rule growing_same [OF g]) (simp_all add: table_clear_def same_setup_def)
    moreover have "table_map (table_clear t) = Map.empty" by (simp add: table_map_def table_clear_def e)
    ultimately show ?thesis using TClear by (simp add: table_inv_def stands_for_def)
  qed
qed

lemma table_run_spec:
  assumes "table_inv t" "stands_for t m" "\<forall>op \<in> set ops. \<forall>c. op_key op = Some c \<longrightarrow> valid c"
  shows "\<exists>t'. table_run ops t = Some (t', spec_run eq ops m) \<and> table_inv t'"
  using assms
proof (induction ops arbitrary: t m)
  case (Cons op ops)
  obtain t1 r where s: "table_step op t = Some (t1, r)" "table_inv t1" "stands_for t1 (fst (spec_step eq op m))" "r = snd (spec_step eq op m)"
    using table_step_spec [OF Cons.prems(1,2)] Cons.prems(3) by (metis list.set_intros(1))
  with Cons.IH [OF s(2,3)] Cons.prems(3) show ?case by (auto simp: case_prod_unfold Let_def)
qed simp

lemma new_table:
  assumes "allocate_table True (\<lambda>_. True) (\<lambda>_. True) key eq = Some t"
  shows "table_inv t" "stands_for t Map.empty"
proof -
  have t: "t_entries t = replicate 4 []" "t_buckets t = 2 ^ 2" "t_count t = 0" "t_key_function t = key" "t_equals_function t = eq"
      "t_shared t" "\<forall>n. t_h t n" "\<forall>n. t_eh t n"
    using assms by (auto simp: allocate_table_def allocate_table_internal_def Let_def)
  have c: "concat (t_entries t) = []" unfolding t(1) by simp
  have "entries_ok t" unfolding entries_ok_def t(1,2) by simp
  then have "table_wf t" using t(2-5) unfolding table_wf_def c by (simp add: t(1))
  moreover have "t_buckets t \<le> TABLE_MAX_BUCKETS" "t_count t \<le> t_buckets t + 1" using t(2,3) by (simp_all add: TABLE_MAX_BUCKETS_def)
  then have "growing t" unfolding growing_def using t(2,6-8) by blast
  ultimately show "table_inv t" by (simp add: table_inv_def)
  show "stands_for t Map.empty" by (simp add: stands_for_def table_map_def c)
qed

end

section \<open>The keys of the code\<close>

interpretation pointer_keys: table_keys identity_key pointer_equal "\<lambda>_. True"
  by unfold_locales (simp_all add: pointer_equal_def)

interpretation buffer_keys: table_keys fnv64 buffer_compare buffer_wf
  by unfold_locales (simp_all add: buffer_compare_blist fnv64_blist)

section \<open>Properties\<close>


definition text_key :: "u8 list \<Rightarrow> bytebuf" where
  "text_key bs = \<lparr>b_start = 0, b_end = length bs, b_length = length bs, b_wrapped = True, b_contents = bs\<rparr>"


end
