(* ===== verification/Symbol.thy ===== *)
theory Symbol
  imports Table
begin

text \<open>
  \<^verbatim>\<open>kernel/src/runtime/symbol.c\<close>: symbols, one for each byte string.

  The state is that of the file: the table from names to symbols, the symbols allocated so far and the two words
  of the generator of their keys. The heap of the names is an argument, and so is the heap of the symbols: it
  gives an address, and what is asked of it is that the address is not null and not of a symbol in use. Running out
  of memory halts, which is \<open>None\<close>. Each operation holds the lock and runs as a whole.
\<close>

section \<open>Symbols\<close>

record symbol =
  sym_s :: bytebuf
  sym_k :: u64

record symbol_state =
  ss_symbols :: "bytebuf table"
  ss_store :: "ptr \<Rightarrow> symbol option"
  ss_seed :: "u64 \<times> u64"

type_synonym symbol_heap = "(ptr \<Rightarrow> symbol option) \<Rightarrow> ptr option"

definition ROL :: "u64 \<Rightarrow> nat \<Rightarrow> u64" where
  "ROL x y = push_bit y x OR drop_bit (64 - y) x"

definition intern_hash_u64 :: "u64 \<times> u64 \<Rightarrow> (u64 \<times> u64) \<times> u64" where
  "intern_hash_u64 s =
     (let s0 = fst s; s1 = snd s; result = s0 + s1; s1 = s1 XOR s0
      in ((ROL s0 55 XOR s1 XOR push_bit 14 s1, ROL s1 36), result))"

definition intern :: "u8 heap \<Rightarrow> symbol_heap \<Rightarrow> symbol_state \<Rightarrow> bytebuf \<Rightarrow> (symbol_state \<times> ptr) option" where
  "intern iheap sheap st name =
     (let s = table_find (ss_symbols st) name
      in if s \<noteq> 0 then Some (st, s)
         else do {
           b \<leftarrow> allocate_buffer iheap (buffer_length name);
           (b, ok) \<leftarrow> push_buffer iheap b name;
           if \<not> ok then None
           else do {
             s \<leftarrow> sheap (ss_store st);
             let (seed, k) = intern_hash_u64 (ss_seed st);
             t \<leftarrow> table_set (ss_symbols st) b s;
             Some (st\<lparr>ss_symbols := t, ss_store := (ss_store st)(s \<mapsto> \<lparr>sym_s = b, sym_k = k\<rparr>), ss_seed := seed\<rparr>, s)
           }
         })"

definition symbol_string :: "symbol_state \<Rightarrow> ptr \<Rightarrow> bytebuf option" where
  "symbol_string st s = map_option sym_s (ss_store st s)"

definition key_from_symbol :: "symbol_state \<Rightarrow> ptr \<Rightarrow> u64 option" where
  "key_from_symbol st z = map_option sym_k (ss_store st z)"

definition init_symbols :: "bool \<Rightarrow> (nat \<Rightarrow> bool) \<Rightarrow> (nat \<Rightarrow> bool) \<Rightarrow> symbol_state option" where
  "init_symbols mem h eh =
     map_option (\<lambda>t. \<lparr>ss_symbols = t, ss_store = Map.empty, ss_seed = (0xa5a5beefa5a5cafe, 0xbeef55aaface55aa)\<rparr>)
       (allocate_table mem h eh fnv64 buffer_compare)"

fun intern_all :: "u8 heap \<Rightarrow> symbol_heap \<Rightarrow> symbol_state \<Rightarrow> bytebuf list \<Rightarrow> (symbol_state \<times> ptr list) option" where
  "intern_all iheap sheap st [] = Some (st, [])"
| "intern_all iheap sheap st (name # names) = do {
     (st, s) \<leftarrow> intern iheap sheap st name;
     (st, ss) \<leftarrow> intern_all iheap sheap st names;
     Some (st, s # ss)
   }"

section \<open>One symbol for each name\<close>

text \<open>A heap with room for \<open>n\<close> symbols.\<close>

definition symbol_heap_ok :: "nat \<Rightarrow> symbol_heap \<Rightarrow> bool" where
  "symbol_heap_ok n sheap \<longleftrightarrow> (\<forall>store. card (dom store) < n \<longrightarrow> (\<exists>p. sheap store = Some p \<and> p \<noteq> 0 \<and> store p = None))"

text \<open>The table and the symbols agree: a name leads to a symbol with that name, and each symbol is found by its name.\<close>

definition symbols_inv :: "symbol_state \<Rightarrow> (bytebuf \<Rightarrow> ptr option) \<Rightarrow> bool" where
  "symbols_inv st m \<longleftrightarrow> buffer_keys.table_inv (ss_symbols st) \<and> buffer_keys.stands_for (ss_symbols st) m \<and>
     (\<forall>d p. buffer_wf d \<and> m d = Some p \<longrightarrow> p \<noteq> 0 \<and> (\<exists>y. ss_store st p = Some y \<and> blist (sym_s y) = blist d)) \<and>
     (\<forall>p y. ss_store st p = Some y \<longrightarrow> buffer_wf (sym_s y) \<and> m (sym_s y) = Some p)"

lemma stands_for_name:
  assumes "buffer_keys.stands_for t m" "buffer_wf a" "buffer_wf b" "blist a = blist b"
  shows "m a = m b"
  using assms buffer_keys.same_key_eq [OF assms(2,3)] by (simp add: buffer_keys.stands_for_def buffer_compare_blist)

lemma copy_name:
  assumes "heap_ok h" "heap_grants h" "buffer_wf name"
  obtains b b' where "allocate_buffer h (buffer_length name) = Some b" "push_buffer h b name = Some (b', True)"
    "buffer_wf b'" "blist b' = blist name"
proof -
  obtain c where "h (buffer_length name) = Some c" using assms(2) by (auto simp: heap_grants_def)
  then obtain b where b: "allocate_buffer h (buffer_length name) = Some b" "\<not> b_wrapped b"
    by (cases "buffer_length name = 0") (simp_all add: allocate_buffer_def init_buffer_def)
  then have wf: "buffer_wf b" "blist b = []" using allocate_buffer_wf [OF assms(1)] by auto
  have src: "push_buffer h b name = buffer_write h b (blist name)"
    using assms(3) by (auto simp: push_buffer_def buffer_ref_def buffer_wf_def mem_slice_def buffer_length_def blist_def drop_take)
  obtain b' ok where b': "buffer_write h b (blist name) = Some (b', ok)" "buffer_wf b'" "blist b' = blist b @ (if ok then blist name else [])"
    using buffer_write_spec [OF wf(1) assms(1), of "blist name"] by (auto elim!: ensuresE)
  then have "ok" using buffer_write_granted [OF wf(1) assms(1,2) b(2)] by blast
  then show thesis using that [of b b'] b(1) b' src wf(2) by simp
qed

lemma intern_spec:
  assumes inv: "symbols_inv st m" and h: "heap_ok iheap" "heap_grants iheap" "symbol_heap_ok n sheap" "card (dom (ss_store st)) < n"
    and name: "buffer_wf name"
  shows "\<exists>st' m' s y. intern iheap sheap st name = Some (st', s) \<and> symbols_inv st' m' \<and> ss_store st \<subseteq>\<^sub>m ss_store st' \<and>
     card (dom (ss_store st')) \<le> Suc (card (dom (ss_store st))) \<and> ss_store st' s = Some y \<and> blist (sym_s y) = blist name"
proof -
  let ?t = "ss_symbols st"
  have t: "buffer_keys.table_inv ?t" "buffer_keys.stands_for ?t m" using inv by (simp_all add: symbols_inv_def)
  have find: "table_find ?t name = (case m name of None \<Rightarrow> 0 | Some p \<Rightarrow> p)"
    using buffer_keys.table_step_spec [OF t, of "TFind name"] name by (simp add: answer_def EMPTY_def split: option.splits)
  show ?thesis
  proof (cases "m name")
    case (Some p)
    then obtain y where "p \<noteq> 0" "ss_store st p = Some y" "blist (sym_s y) = blist name"
      using inv name unfolding symbols_inv_def by blast
    then show ?thesis using inv Some find by (auto simp: intern_def)
  next
    case None
    obtain b b' where b: "allocate_buffer iheap (buffer_length name) = Some b" "push_buffer iheap b name = Some (b', True)"
        "buffer_wf b'" "blist b' = blist name"
      using copy_name [OF h(1,2) name] .
    obtain p where p: "sheap (ss_store st) = Some p" "p \<noteq> 0" "ss_store st p = None"
      using h(3,4) by (auto simp: symbol_heap_ok_def)
    obtain seed k where k: "intern_hash_u64 (ss_seed st) = (seed, k)" by fastforce
    let ?m = "\<lambda>d. if buffer_compare d b' then Some p else m d"
    obtain t' where t': "table_set ?t b' p = Some t'" "buffer_keys.table_inv t'" "buffer_keys.stands_for t' ?m"
      using buffer_keys.table_step_spec [OF t, of "TSet b' p"] b(3) p(2) by (auto simp: EMPTY_def cong: if_cong)
    let ?y = "\<lparr>sym_s = b', sym_k = k\<rparr>"
    let ?st = "st\<lparr>ss_symbols := t', ss_store := (ss_store st)(p \<mapsto> ?y), ss_seed := seed\<rparr>"
    have run: "intern iheap sheap st name = Some (?st, p)" using None find b(1,2) p k t'(1) by (simp add: intern_def)
    have other: "\<not> buffer_compare (sym_s y) b'" if "ss_store st q = Some y" for q y
    proof -
      have "buffer_wf (sym_s y)" "m (sym_s y) = Some q" using inv that by (auto simp: symbols_inv_def)
      then have "blist (sym_s y) \<noteq> blist name" using None stands_for_name [OF t(2) name, of "sym_s y"] by auto
      then show ?thesis using \<open>buffer_wf (sym_s y)\<close> b(3,4) by (simp add: buffer_compare_blist)
    qed
    have unused: "m d \<noteq> Some p" if "buffer_wf d" for d
      using inv p(3) that unfolding symbols_inv_def by (metis option.distinct(1))
    have "symbols_inv ?st ?m"
      using inv t'(2,3) b(3) p other unused by (auto simp: symbols_inv_def buffer_compare_blist)
    moreover have "ss_store st \<subseteq>\<^sub>m ss_store ?st" using p(3) by (auto simp: map_le_def)
    moreover have "card (dom (ss_store ?st)) \<le> Suc (card (dom (ss_store st)))" by (simp add: card_insert_le_m1 card_insert_if)
    ultimately show ?thesis using run b(4) by auto
  qed
qed

lemma intern_all_spec:
  assumes "symbols_inv st m" "heap_ok iheap" "heap_grants iheap" "symbol_heap_ok n sheap"
    "card (dom (ss_store st)) + length names \<le> n" "\<forall>name \<in> set names. buffer_wf name"
  shows "\<exists>st' m' ss. intern_all iheap sheap st names = Some (st', ss) \<and> symbols_inv st' m' \<and> ss_store st \<subseteq>\<^sub>m ss_store st' \<and>
     list_all2 (\<lambda>name s. \<exists>y. ss_store st' s = Some y \<and> blist (sym_s y) = blist name) names ss"
  using assms
proof (induction names arbitrary: st m)
  case (Cons name names)
  have "card (dom (ss_store st)) < n" "buffer_wf name" using Cons.prems(5,6) by simp_all
  from intern_spec [OF Cons.prems(1-4) this] obtain st1 m1 s y where one: "intern iheap sheap st name = Some (st1, s)" "symbols_inv st1 m1" "ss_store st \<subseteq>\<^sub>m ss_store st1"
      "card (dom (ss_store st1)) \<le> Suc (card (dom (ss_store st)))" "ss_store st1 s = Some y" "blist (sym_s y) = blist name"
    by blast
  have "card (dom (ss_store st1)) + length names \<le> n" using one(4) Cons.prems(5) by simp
  from Cons.IH [OF one(2) Cons.prems(2-4) this] Cons.prems(6) obtain st' m' ss where rest: "intern_all iheap sheap st1 names = Some (st', ss)" "symbols_inv st' m'" "ss_store st1 \<subseteq>\<^sub>m ss_store st'"
      "list_all2 (\<lambda>name s. \<exists>y. ss_store st' s = Some y \<and> blist (sym_s y) = blist name) names ss"
    by auto
  have "ss_store st' s = Some y" using rest(3) one(5) by (metis domI map_le_def)
  then show ?case using one rest map_le_trans [OF one(3) rest(3)] by auto
qed auto


definition two_symbols :: symbol_heap where
  "two_symbols store = find (\<lambda>p. store p = None) [0x100, 0x200]"

lemma two_symbols_ok: "symbol_heap_ok 2 two_symbols"
proof -
  have room: "store 0x100 = None \<or> store 0x200 = None" if "card (dom store) < 2" for store :: "ptr \<Rightarrow> symbol option"
  proof (rule ccontr)
    assume "\<not> ?thesis"
    then have "{0x100, 0x200} \<subseteq> dom store" by auto
    then have "card {0x100, 0x200 :: ptr} \<le> card (dom store)" by (intro card_mono) simp_all
    then show False using that by simp
  qed
  have "\<exists>p. two_symbols store = Some p \<and> p \<noteq> 0 \<and> store p = None" if "card (dom store) < 2" for store
    using room [OF that] by (cases "store 0x100") (auto simp: two_symbols_def)
  then show ?thesis by (simp add: symbol_heap_ok_def)
qed


end
