(* ===== verification/Chacha.thy ===== *)
theory Chacha
  imports Prelude
begin

text \<open>
  \<^verbatim>\<open>kernel/src/runtime/crypto/chacha.c\<close>: the ChaCha20 stream cipher.

  The sixteen words of the context are a list, as are the local variables \<^verbatim>\<open>x0\<close> to \<^verbatim>\<open>x15\<close> and \<^verbatim>\<open>j0\<close> to \<^verbatim>\<open>j15\<close>. The reference
  is the cipher as its designer states it: a matrix of four rows, rounds on its columns and on its diagonals, and a
  key stream whose blocks are numbered by a 64-bit counter. The lemmas show that keying, counting and
  encrypting in the code give that stream, for messages of any length and whatever the buffer on the
  stack holds.
\<close>

unbundle bit_operations_syntax

section \<open>Words\<close>

definition ROTL32 :: "u32 \<Rightarrow> nat \<Rightarrow> u32" where
  "ROTL32 v n = (push_bit n v AND 0xFFFFFFFF) OR drop_bit (32 - n) v"

definition U8TO32_LITTLE :: "u8 list \<Rightarrow> nat \<Rightarrow> u32" where
  "U8TO32_LITTLE p i =
     ucast (p ! i) OR push_bit 8 (ucast (p ! (i + 1))) OR push_bit 16 (ucast (p ! (i + 2))) OR
     push_bit 24 (ucast (p ! (i + 3)))"

definition U32TO8_LITTLE :: "u32 \<Rightarrow> u8 list" where
  "U32TO8_LITTLE v =
     [ucast v AND 0xFF, ucast (drop_bit 8 v) AND 0xFF, ucast (drop_bit 16 v) AND 0xFF, ucast (drop_bit 24 v) AND 0xFF]"

text \<open>The loads of \<open>n\<close> consecutive words; \<open>None\<close> is an access outside the bytes that \<open>p\<close> points to.\<close>

definition load_words :: "u8 list \<Rightarrow> nat \<Rightarrow> nat \<Rightarrow> u32 list option" where
  "load_words p off n =
     (if off + 4 * n \<le> length p then Some (map (\<lambda>i. U8TO32_LITTLE p (off + 4 * i)) [0..<n]) else None)"

section \<open>The context\<close>

record chacha_ctx =
  ch_input :: "u32 list"

definition sigma :: "u8 list" where
  "sigma = map of_char ''expand 32-byte k''"

definition tau :: "u8 list" where
  "tau = map of_char ''expand 16-byte k''"

definition chacha_keysetup :: "chacha_ctx \<Rightarrow> u8 list \<Rightarrow> u32 \<Rightarrow> chacha_ctx option" where
  "chacha_keysetup x k kbits = do {
     a \<leftarrow> load_words k 0 4;
     input \<leftarrow> memcpy_to (ch_input x) 4 a;
     let (k, constants) = (if kbits = 256 then (drop 16 k, sigma) else (k, tau));
     b \<leftarrow> load_words k 0 4;
     input \<leftarrow> memcpy_to input 8 b;
     c \<leftarrow> load_words constants 0 4;
     input \<leftarrow> memcpy_to input 0 c;
     Some (x\<lparr>ch_input := input\<rparr>)
   }"

definition chacha_ivsetup :: "chacha_ctx \<Rightarrow> u8 list \<Rightarrow> u8 list option \<Rightarrow> chacha_ctx option" where
  "chacha_ivsetup x iv counter = do {
     c \<leftarrow> (case counter of None \<Rightarrow> Some [0, 0] | Some counter \<Rightarrow> load_words counter 0 2);
     input \<leftarrow> memcpy_to (ch_input x) 12 c;
     i \<leftarrow> load_words iv 0 2;
     input \<leftarrow> memcpy_to input 14 i;
     Some (x\<lparr>ch_input := input\<rparr>)
   }"

section \<open>Encryption\<close>

definition QUARTERROUND :: "nat \<Rightarrow> nat \<Rightarrow> nat \<Rightarrow> nat \<Rightarrow> u32 list \<Rightarrow> u32 list" where
  "QUARTERROUND a b c d x =
     (let x = x[a := x ! a + x ! b]; x = x[d := ROTL32 (x ! d XOR x ! a) 16];
          x = x[c := x ! c + x ! d]; x = x[b := ROTL32 (x ! b XOR x ! c) 12];
          x = x[a := x ! a + x ! b]; x = x[d := ROTL32 (x ! d XOR x ! a) 8];
          x = x[c := x ! c + x ! d]
      in x[b := ROTL32 (x ! b XOR x ! c) 7])"

fun rounds_loop :: "nat \<Rightarrow> u32 list \<Rightarrow> u32 list" where
  "rounds_loop i x =
     (if 0 < i then
        let x = QUARTERROUND 0 4 8 12 x;
            x = QUARTERROUND 1 5 9 13 x;
            x = QUARTERROUND 2 6 10 14 x;
            x = QUARTERROUND 3 7 11 15 x;
            x = QUARTERROUND 0 5 10 15 x;
            x = QUARTERROUND 1 6 11 12 x;
            x = QUARTERROUND 2 7 8 13 x;
            x = QUARTERROUND 3 4 9 14 x
        in rounds_loop (i - 2) x
      else x)"

declare rounds_loop.simps [simp del]

definition count_block :: "u32 list \<Rightarrow> u32 list" where
  "count_block j =
     (let j = j[12 := j ! 12 + 1] in if j ! 12 = 0 then j[13 := j ! 13 + 1] else j)"

text \<open>The loop over the blocks of the message. \<open>tmp\<close> is the block on the stack, through which the last one passes when it is
  short; beyond the bytes of the message its contents are whatever was there.\<close>

function encrypt_loop :: "u32 list \<Rightarrow> u8 list \<Rightarrow> u8 list \<Rightarrow> u32 \<Rightarrow> (u32 list \<times> u8 list) option" where
  "encrypt_loop j m tmp bytes = do {
     src \<leftarrow> (if bytes < 64 then do {
               s \<leftarrow> mem_slice m 0 (unat bytes);
               memcpy_to tmp 0 s
             } else Some m);
     let x = map2 (+) (rounds_loop 20 j) j;
     w \<leftarrow> load_words src 0 16;
     let x = map2 (XOR) x w;
     let j = count_block j;
     let c = concat (map U32TO8_LITTLE x);
     if bytes \<le> 64 then Some (j, take (unat bytes) c)
     else do {
       (j, rest) \<leftarrow> encrypt_loop j (drop 64 m) tmp (bytes - 64);
       Some (j, c @ rest)
     }
   }"
  by pat_completeness auto
termination
  by (relation "measure (\<lambda>(_, _, _, bytes). unat bytes)") (auto simp: unat_sub word_less_nat_alt word_le_nat_alt)

declare encrypt_loop.simps [simp del]

definition chacha_encrypt_bytes :: "chacha_ctx \<Rightarrow> u8 list \<Rightarrow> u8 list \<Rightarrow> u32 \<Rightarrow> (chacha_ctx \<times> u8 list) option" where
  "chacha_encrypt_bytes x m tmp bytes =
     (if bytes = 0 then Some (x, [])
      else do {
        (j, c) \<leftarrow> encrypt_loop (ch_input x) m tmp bytes;
        Some (x\<lparr>ch_input := (ch_input x)[12 := j ! 12, 13 := j ! 13]\<rparr>, c)
      })"

section \<open>The cipher\<close>

text \<open>Numbers as little-endian bytes.\<close>

definition le_nat :: "u8 list \<Rightarrow> nat" where
  "le_nat bs = foldr (\<lambda>b n. unat b + 256 * n) bs 0"

definition le_words :: "nat \<Rightarrow> u8 list \<Rightarrow> u32 list" where
  "le_words k bs = map (\<lambda>i. of_nat (le_nat (take 4 (drop (4 * i) bs)))) [0..<k]"

definition le_bytes :: "nat \<Rightarrow> nat \<Rightarrow> u8 list" where
  "le_bytes k n = map (\<lambda>i. of_nat (n div 256 ^ i)) [0..<k]"

text \<open>The quarter round on four words.\<close>

definition quarter :: "u32 \<Rightarrow> u32 \<Rightarrow> u32 \<Rightarrow> u32 \<Rightarrow> u32 list" where
  "quarter a b c d =
     (let a = a + b; d = word_rotl 16 (d XOR a);
          c = c + d; b = word_rotl 12 (b XOR c);
          a = a + b; d = word_rotl 8 (d XOR a);
          c = c + d; b = word_rotl 7 (b XOR c)
      in [a, b, c, d])"

text \<open>The state as a matrix, indexed by row and column.\<close>

type_synonym matrix = "nat \<Rightarrow> nat \<Rightarrow> u32"

definition column_round :: "matrix \<Rightarrow> matrix" where
  "column_round M = (\<lambda>r c. quarter (M 0 c) (M 1 c) (M 2 c) (M 3 c) ! r)"

definition skew :: "matrix \<Rightarrow> matrix" where
  "skew M = (\<lambda>r c. M r ((c + r) mod 4))"

definition unskew :: "matrix \<Rightarrow> matrix" where
  "unskew M = (\<lambda>r c. M r ((c + 4 - r) mod 4))"

definition double_round :: "matrix \<Rightarrow> matrix" where
  "double_round M = unskew (column_round (skew (column_round M)))"

text \<open>The matrix of a key of 32 bytes, a nonce of 8 and the number of a block; its block of the key stream.\<close>

definition initial :: "u8 list \<Rightarrow> u8 list \<Rightarrow> u64 \<Rightarrow> u32 list" where
  "initial key iv n =
     [0x61707865, 0x3320646e, 0x79622d32, 0x6b206574] @
     le_words 8 key @ [of_nat (unat n), of_nat (unat n div 2 ^ 32)] @ le_words 2 iv"

definition matrix_of :: "u32 list \<Rightarrow> matrix" where
  "matrix_of x = (\<lambda>r c. x ! (4 * r + c))"

definition stream_block :: "u8 list \<Rightarrow> u8 list \<Rightarrow> u64 \<Rightarrow> u8 list" where
  "stream_block key iv n =
     (let M = matrix_of (initial key iv n); N = (double_round ^^ 10) M
      in concat (map (\<lambda>i. le_bytes 4 (unat (N (i div 4) (i mod 4) + M (i div 4) (i mod 4)))) [0..<16]))"

definition key_stream :: "u8 list \<Rightarrow> u8 list \<Rightarrow> u64 \<Rightarrow> nat \<Rightarrow> u8" where
  "key_stream key iv n i = stream_block key iv (n + of_nat (i div 64)) ! (i mod 64)"


section \<open>Words and bytes\<close>

lemma ROTL32_rotl:
  assumes "0 < b" "b < 32"
  shows "ROTL32 a b = word_rotl b a"
proof (rule bit_word_eqI)
  fix n assume "n < LENGTH(32)"
  then have n: "n < 32" by simp
  have ones: "(0xFFFFFFFF :: u32) = - 1" by simp
  have "bit (word_rotl b a) n \<longleftrightarrow> bit a ((n + (32 - b)) mod 32)"
    using n assms by (simp add: bit_word_rotl_iff)
  also have "(n + (32 - b)) mod 32 = (if n < b then n + (32 - b) else n - b)" using n assms by (simp add: mod_if)
  finally show "bit (ROTL32 a b) n \<longleftrightarrow> bit (word_rotl b a) n"
    unfolding ROTL32_def ones using n assms
    by (auto simp: bit_or_iff bit_drop_bit_eq bit_push_bit_iff add.commute dest: bit_imp_le_length)
qed

lemma add_byte: "of_nat (unat b + 256 * n) = (ucast (b :: u8) OR push_bit 8 (of_nat n) :: u32)"
proof -
  have "of_nat (unat b + 256 * n) = (ucast b :: u32) + push_bit 8 (of_nat n)"
    by (simp add: push_bit_eq_mult)
  also have "\<dots> = ucast b OR push_bit 8 (of_nat n)"
    by (rule disjunctive_add) (auto simp: bit_push_bit_iff bit_ucast_iff dest: bit_imp_le_length)
  finally show ?thesis .
qed

lemma load_le:
  assumes "i + 4 \<le> length p"
  shows "U8TO32_LITTLE p i = of_nat (le_nat (take 4 (drop i p)))"
proof -
  have "take 4 (drop i p) = [p ! i, p ! (i + 1), p ! (i + 2), p ! (i + 3)]"
    using assms by (intro nth_equalityI) (auto simp: less_Suc_eq numeral_eq_Suc)
  then have "of_nat (le_nat (take 4 (drop i p))) =
      (of_nat (unat (p ! i) + 256 * (unat (p ! (i + 1)) + 256 * (unat (p ! (i + 2)) + 256 * (unat (p ! (i + 3)) + 256 * 0)))) :: u32)"
    by (simp add: le_nat_def)
  also have "\<dots> = U8TO32_LITTLE p i"
    unfolding add_byte by (simp add: U8TO32_LITTLE_def push_bit_or or.assoc)
  finally show ?thesis by simp
qed

lemma upt_4: "[0..<4] = [0, 1, 2, 3]"
  by (simp add: upt_conv_Cons)

lemma store_le: "U32TO8_LITTLE v = le_bytes 4 (unat v)"
proof -
  have ones: "(0xFF :: u8) = - 1" by simp
  have "ucast (drop_bit k v) AND 0xFF = (of_nat (unat v div 2 ^ k) :: u8)" for k
  proof -
    have "unat v div 2 ^ k = unat (drop_bit k v)" by (subst unat_drop_bit_eq) (rule drop_bit_eq_div [symmetric])
    then show ?thesis unfolding ones by simp
  qed
  from this [of 0] this [of 8] this [of 16] this [of 24] show ?thesis
    by (simp add: U32TO8_LITTLE_def le_bytes_def upt_4)
qed

lemma length_le_words [simp]: "length (le_words k bs) = k"
  by (simp add: le_words_def)

lemma load_words_le: "4 * n \<le> length p \<Longrightarrow> load_words p 0 n = Some (le_words n p)"
  by (simp add: load_words_def le_words_def load_le)

section \<open>Rounds\<close>

lemma length_QUARTERROUND [simp]: "length (QUARTERROUND a b c d x) = length x"
  by (simp add: QUARTERROUND_def Let_def)

lemma QUARTERROUND_quarter:
  assumes "distinct [a, b, c, d]" "a < length x" "b < length x" "c < length x" "d < length x"
  shows "QUARTERROUND a b c d x =
     (let q = quarter (x ! a) (x ! b) (x ! c) (x ! d) in x[a := q ! 0, b := q ! 1, c := q ! 2, d := q ! 3])"
  using assms
  by (intro nth_equalityI) (auto simp: QUARTERROUND_def quarter_def Let_def nth_list_update ROTL32_rotl)

definition same_matrix :: "matrix \<Rightarrow> matrix \<Rightarrow> bool" where
  "same_matrix M N \<longleftrightarrow> (\<forall>r < 4. \<forall>c < 4. M r c = N r c)"

lemma column_round_same: "same_matrix M N \<Longrightarrow> same_matrix (column_round M) (column_round N)"
  by (simp add: same_matrix_def column_round_def)

lemma skew_same:
  "same_matrix M N \<Longrightarrow> same_matrix (skew M) (skew N)"
  "same_matrix M N \<Longrightarrow> same_matrix (unskew M) (unskew N)"
  by (simp_all add: same_matrix_def skew_def unskew_def)

lemma same_matrix_trans: "same_matrix L M \<Longrightarrow> same_matrix M N \<Longrightarrow> same_matrix L N"
  by (simp add: same_matrix_def)

lemma double_round_same:
  assumes "same_matrix M N"
  shows "same_matrix (double_round M) (double_round N)"
  unfolding double_round_def using assms by (intro skew_same column_round_same)

definition double_round_list :: "u32 list \<Rightarrow> u32 list" where
  "double_round_list x =
     QUARTERROUND 3 4 9 14 (QUARTERROUND 2 7 8 13 (QUARTERROUND 1 6 11 12 (QUARTERROUND 0 5 10 15
       (QUARTERROUND 3 7 11 15 (QUARTERROUND 2 6 10 14 (QUARTERROUND 1 5 9 13 (QUARTERROUND 0 4 8 12 x)))))))"

lemma less_4: "(i :: nat) < 4 \<longleftrightarrow> i = 0 \<or> i = 1 \<or> i = 2 \<or> i = 3"
  by auto

lemma double_round_list:
  assumes "length x = 16"
  shows "same_matrix (matrix_of (double_round_list x)) (double_round (matrix_of x))"
proof -
  define y where "y = QUARTERROUND 3 7 11 15 (QUARTERROUND 2 6 10 14 (QUARTERROUND 1 5 9 13 (QUARTERROUND 0 4 8 12 x)))"
  have y: "length y = 16" using assms by (simp add: y_def)
  have "same_matrix (matrix_of y) (column_round (matrix_of x))"
    using assms by (auto simp: same_matrix_def less_4 y_def matrix_of_def column_round_def QUARTERROUND_quarter Let_def
        simp del: add_2_eq_Suc add_2_eq_Suc')
  moreover have "same_matrix (matrix_of (double_round_list x)) (unskew (column_round (skew (matrix_of y))))"
    unfolding double_round_list_def y_def [symmetric]
    using y by (auto simp: same_matrix_def less_4 matrix_of_def column_round_def skew_def unskew_def QUARTERROUND_quarter Let_def
        simp del: add_2_eq_Suc add_2_eq_Suc')
  ultimately show ?thesis
    unfolding double_round_def by (meson skew_same column_round_same same_matrix_trans)
qed


lemma rounds_loop_step: "rounds_loop (Suc (Suc i)) x = rounds_loop i (double_round_list x)"
  by (subst rounds_loop.simps) (simp add: double_round_list_def Let_def)

lemma rounds_loop_rounds:
  "length x = 16 \<Longrightarrow> same_matrix (matrix_of x) M \<Longrightarrow>
   length (rounds_loop (2 * n) x) = 16 \<and> same_matrix (matrix_of (rounds_loop (2 * n) x)) ((double_round ^^ n) M)"
proof (induction n arbitrary: x M)
  case 0
  then show ?case by (simp add: rounds_loop.simps)
next
  case (Suc n)
  have "length (double_round_list x) = 16" using Suc.prems by (simp add: double_round_list_def)
  moreover have "same_matrix (matrix_of (double_round_list x)) (double_round M)"
    using double_round_list double_round_same same_matrix_trans Suc.prems by blast
  ultimately show ?case using Suc.IH by (simp add: rounds_loop_step funpow_swap1)
qed

text \<open>The bytes the code computes for a state: ten double rounds, the state added.\<close>

definition block_words :: "u32 list \<Rightarrow> u32 list" where
  "block_words j = map2 (+) (rounds_loop 20 j) j"

definition block_bytes :: "u32 list \<Rightarrow> u8 list" where
  "block_bytes j = concat (map U32TO8_LITTLE (block_words j))"

lemma length_block_words: "length j = 16 \<Longrightarrow> length (block_words j) = 16"
  using rounds_loop_rounds [of j "matrix_of j" 10] by (simp add: block_words_def same_matrix_def)

lemma length_initial: "length (initial key iv n) = 16"
  by (simp add: initial_def)

lemma block_bytes_initial: "block_bytes (initial key iv n) = stream_block key iv n"
proof -
  let ?j = "initial key iv n"
  have r: "length (rounds_loop 20 ?j) = 16"
      "same_matrix (matrix_of (rounds_loop 20 ?j)) ((double_round ^^ 10) (matrix_of ?j))"
    using rounds_loop_rounds [of ?j "matrix_of ?j" 10] by (simp_all add: length_initial same_matrix_def)
  have "rounds_loop 20 ?j ! i = (double_round ^^ 10) (matrix_of ?j) (i div 4) (i mod 4)" if "i < 16" for i
    using r(2) [unfolded same_matrix_def, rule_format, of "i div 4" "i mod 4"] that
    by (simp add: matrix_of_def less_mult_imp_div_less)
  then have "block_words ?j =
      map (\<lambda>i. (double_round ^^ 10) (matrix_of ?j) (i div 4) (i mod 4) + matrix_of ?j (i div 4) (i mod 4)) [0..<16]"
    using r(1) by (intro nth_equalityI) (simp_all add: block_words_def length_initial matrix_of_def)
  then show ?thesis by (simp add: block_bytes_def stream_block_def Let_def store_le comp_def)
qed

lemma count_words:
  "(of_nat (unat (n + 1)) :: u32) = of_nat (unat n) + 1"
  "(of_nat (unat (n + 1) div 2 ^ 32) :: u32) =
     of_nat (unat n div 2 ^ 32) + (if (of_nat (unat n) :: u32) + 1 = 0 then 1 else 0)"
  for n :: u64
proof -
  have zero: "(of_nat m :: u32) + 1 = 0 \<longleftrightarrow> Suc m mod 2 ^ 32 = 0" for m
  proof -
    have "(of_nat m :: u32) + 1 = of_nat (Suc m)" by simp
    then show ?thesis by (simp only: word_of_nat_eq_0_iff dvd_eq_mod_eq_0 len_of_numeral_defs) simp
  qed
  have "(of_nat (unat (n + 1)) :: u32) = of_nat (unat n) + 1 \<and>
    (of_nat (unat (n + 1) div 2 ^ 32) :: u32) =
     of_nat (unat n div 2 ^ 32) + (if Suc (unat n) mod 2 ^ 32 = 0 then 1 else 0)"
  proof (cases "n = - 1")
    case True
    have "(- 1 :: u64) = 18446744073709551615" by simp
    then have "unat (- 1 :: u64) = 18446744073709551615" by (simp only: unat_numeral) simp
    then show ?thesis unfolding True by (simp only: add.left_inverse) simp
  next
    case False
    then have "1 + n \<noteq> 0" by (metis add.commute eq_neg_iff_add_eq_0)
    from unatSuc [OF this] have "unat (n + 1) = Suc (unat n)" by (simp only: add.commute)
    then show ?thesis by (simp only: div_Suc of_nat_Suc add.commute split: if_split) simp
  qed
  then show "(of_nat (unat (n + 1)) :: u32) = of_nat (unat n) + 1"
    and "(of_nat (unat (n + 1) div 2 ^ 32) :: u32) =
     of_nat (unat n div 2 ^ 32) + (if (of_nat (unat n) :: u32) + 1 = 0 then 1 else 0)"
    unfolding zero by simp_all
qed

lemma initial_split:
  "initial key iv n =
     ([0x61707865, 0x3320646e, 0x79622d32, 0x6b206574] @ le_words 8 key) @
     [of_nat (unat n), of_nat (unat n div 2 ^ 32)] @ le_words 2 iv"
  by (simp add: initial_def)

lemma initial_counter:
  "initial key iv n ! 12 = of_nat (unat n)" "initial key iv n ! 13 = of_nat (unat n div 2 ^ 32)"
  "(initial key iv n)[12 := of_nat (unat m), 13 := of_nat (unat m div 2 ^ 32)] = initial key iv m"
  unfolding initial_split by (simp_all add: nth_append list_update_append)

lemma set_counter: "(initial key iv n)[12 := initial key iv m ! 12, 13 := initial key iv m ! 13] = initial key iv m"
  by (simp only: initial_counter)

lemma count_block_initial: "count_block (initial key iv n) = initial key iv (n + 1)"
proof -
  let ?j = "initial key iv n"
  have "?j[12 := a, 13 := of_nat (unat n div 2 ^ 32)] = ?j[12 := a]" for a
    by (subst list_update_same_conv) (simp_all add: length_initial initial_counter)
  then have "count_block ?j = ?j[12 := of_nat (unat n) + 1, 13 := of_nat (unat n div 2 ^ 32) + (if (of_nat (unat n) :: u32) + 1 = 0 then 1 else 0)]"
    by (simp add: count_block_def initial_counter(1,2) length_initial Let_def)
  then show ?thesis unfolding count_words(2) [symmetric] unfolding count_words(1) [symmetric] initial_counter(3) .
qed

section \<open>Blocks\<close>

lemma le_nat_Cons: "le_nat (b # bs) = unat b + 256 * le_nat bs"
  by (simp add: le_nat_def)

lemma le_nat_less: "le_nat bs < 256 ^ length bs"
proof (induction bs)
  case (Cons b bs)
  have "unat b < 256" using unsigned_less [of b, where 'a = nat] by simp
  then show ?case using Cons by (simp add: le_nat_Cons)
qed (simp add: le_nat_def)

lemma le_bytes_Suc: "le_bytes (Suc k) n = of_nat n # le_bytes k (n div 256)"
  by (simp add: le_bytes_def upt_conv_Cons map_Suc_upt [symmetric] div_mult2_eq del: upt_Suc)

lemma le_bytes_nat: "le_bytes (length bs) (le_nat bs) = bs"
proof (induction bs)
  case (Cons b bs)
  have "unat b < 256" using unsigned_less [of b, where 'a = nat] by simp
  then have "le_nat (b # bs) div 256 = le_nat bs" by (simp add: le_nat_Cons)
  moreover have "(256 :: u8) = 0" by simp
  then have "(of_nat (le_nat (b # bs)) :: u8) = b"
    by (simp only: le_nat_Cons of_nat_add of_nat_mult of_nat_numeral) simp
  ultimately show ?case using Cons by (simp add: le_bytes_Suc)
qed (simp add: le_bytes_def)

lemma store_load:
  assumes "length bs = 4"
  shows "U32TO8_LITTLE (of_nat (le_nat bs)) = bs"
proof -
  have "unat (of_nat (le_nat bs) :: u32) = le_nat bs"
    using le_nat_less [of bs] assms by (simp add: unat_of_nat)
  then show ?thesis using le_bytes_nat [of bs] assms by (simp add: store_le)
qed

lemma store_xor: "U32TO8_LITTLE (a XOR b) = map2 (XOR) (U32TO8_LITTLE a) (U32TO8_LITTLE b)"
proof -
  have ones: "(0xFF :: u8) = - 1" by simp
  show ?thesis unfolding U32TO8_LITTLE_def ones by (simp add: drop_bit_xor unsigned_xor_eq)
qed

lemma le_words_Suc: "le_words (Suc k) bs = of_nat (le_nat (take 4 bs)) # le_words k (drop 4 bs)"
  by (simp add: le_words_def upt_conv_Cons map_Suc_upt [symmetric] add.commute del: upt_Suc)

lemma length_store [simp]: "length (U32TO8_LITTLE v) = 4"
  by (simp add: U32TO8_LITTLE_def)

lemma map2_append: "length xs = length us \<Longrightarrow> map2 f (xs @ ys) (us @ vs) = map2 f xs us @ map2 f ys vs"
  by simp

lemma store_words_xor:
  "4 * length ws \<le> length src \<Longrightarrow>
   concat (map U32TO8_LITTLE (map2 (XOR) ws (le_words (length ws) src))) =
   map2 (XOR) (concat (map U32TO8_LITTLE ws)) (take (4 * length ws) src)"
proof (induction ws arbitrary: src)
  case (Cons w ws)
  let ?s = "take 4 src"
  have s: "length ?s = 4" using Cons.prems by simp
  have "take (4 * length (w # ws)) src = ?s @ take (4 * length ws) (drop 4 src)"
    by (simp add: take_add)
  then have "map2 (XOR) (concat (map U32TO8_LITTLE (w # ws))) (take (4 * length (w # ws)) src) =
      map2 (XOR) (U32TO8_LITTLE w) ?s @ map2 (XOR) (concat (map U32TO8_LITTLE ws)) (take (4 * length ws) (drop 4 src))"
    using s by simp
  then show ?case
    using Cons.IH [of "drop 4 src"] Cons.prems s by (simp add: le_words_Suc store_xor store_load)
qed simp

lemma length_store_words: "length (concat (map U32TO8_LITTLE ws)) = 4 * length ws"
  by (induction ws) simp_all

lemma length_stream_block: "length (stream_block key iv n) = 64"
  using length_store_words [of "block_words (initial key iv n)"] length_block_words [OF length_initial]
  unfolding block_bytes_initial [symmetric] block_bytes_def by simp

text \<open>One block of the loop: the words of the state, combined with those of the message, are the bytes of the message
  combined with those of the stream.\<close>

lemma block_xor:
  assumes "64 \<le> length src"
  shows "concat (map U32TO8_LITTLE (map2 (XOR) (map2 (+) (rounds_loop 20 (initial key iv n)) (initial key iv n)) (le_words 16 src))) =
    map (\<lambda>i. src ! i XOR key_stream key iv n i) [0..<64]"
proof -
  let ?w = "block_words (initial key iv n)"
  have w: "length ?w = 16" by (rule length_block_words [OF length_initial])
  have "concat (map U32TO8_LITTLE (map2 (XOR) ?w (le_words 16 src))) = map2 (XOR) (stream_block key iv n) (take 64 src)"
    using store_words_xor [of ?w src] assms
    unfolding w block_bytes_initial [symmetric] block_bytes_def by simp
  also have "\<dots> = map (\<lambda>i. src ! i XOR key_stream key iv n i) [0..<64]"
    using assms by (intro nth_equalityI) (simp_all add: length_stream_block key_stream_def xor.commute)
  finally show ?thesis unfolding block_words_def .
qed

section \<open>Messages\<close>

lemma encrypt_loop_correct:
  assumes "length tmp = 64" "0 < unat bytes" "unat bytes \<le> length m"
  shows "encrypt_loop (initial key iv n) m tmp bytes =
    Some (initial key iv (n + of_nat ((unat bytes + 63) div 64)),
          map (\<lambda>i. m ! i XOR key_stream key iv n i) [0..<unat bytes])"
  using assms(2,3)
proof (induction "unat bytes" arbitrary: n m bytes rule: less_induct)
  case less
  let ?N = "unat bytes"
  let ?src = "if bytes < 64 then take ?N m @ drop ?N tmp else m"
  let ?c = "map (\<lambda>i. ?src ! i XOR key_stream key iv n i) [0..<64]"
  have src: "64 \<le> length ?src" "\<And>i. i < ?N \<Longrightarrow> ?src ! i = m ! i"
    using less.prems assms(1) by (auto simp: word_less_nat_alt nth_append)
  have step: "encrypt_loop (initial key iv n) m tmp bytes =
      (if bytes \<le> 64 then Some (initial key iv (n + 1), take ?N ?c)
       else do {
         (j, rest) \<leftarrow> encrypt_loop (initial key iv (n + 1)) (drop 64 m) tmp (bytes - 64);
         Some (j, ?c @ rest)
       })"
    using less.prems assms(1) block_xor [OF src(1)] load_words_le [of 16 ?src] src(1)
    by (subst encrypt_loop.simps) (auto simp: Let_def count_block_initial word_less_nat_alt)
  show ?case
  proof (cases "bytes \<le> 64")
    case True
    then have N: "?N \<le> 64" by (simp add: word_le_nat_alt)
    then have "(?N + 63) div 64 = 1" using less.prems(1) by simp
    moreover have "take ?N ?c = map (\<lambda>i. m ! i XOR key_stream key iv n i) [0..<?N]"
      using N src(2) by (simp add: take_map)
    ultimately show ?thesis using step True by simp
  next
    case False
    then have N: "64 < ?N" by (simp add: word_le_nat_alt)
    then have sub: "unat (bytes - 64) = ?N - 64" by (simp add: unat_sub word_le_nat_alt)
    have "(?N + 63) div 64 = Suc ((?N - 64 + 63) div 64)" using N by (simp add: le_div_geq)
    then have count: "n + 1 + of_nat ((?N - 64 + 63) div 64) = n + of_nat ((?N + 63) div 64)" by simp
    have stream: "key_stream key iv (n + 1) i = key_stream key iv n (64 + i)" for i
    proof -
      have "(64 + i) div 64 = Suc (i div 64)" by simp
      then show ?thesis by (simp add: key_stream_def add.assoc)
    qed
    have "?c @ map (\<lambda>i. drop 64 m ! i XOR key_stream key iv (n + 1) i) [0..<?N - 64] =
        map (\<lambda>i. m ! i XOR key_stream key iv n i) [0..<?N]"
      using N less.prems False by (intro nth_equalityI) (auto simp: nth_append stream word_less_nat_alt)
    moreover have "encrypt_loop (initial key iv (n + 1)) (drop 64 m) tmp (bytes - 64) =
        Some (initial key iv (n + of_nat ((?N + 63) div 64)),
              map (\<lambda>i. drop 64 m ! i XOR key_stream key iv (n + 1) i) [0..<?N - 64])"
      using less.hyps [of "bytes - 64" "drop 64 m" "n + 1", unfolded sub count] N less.prems by simp
    ultimately show ?thesis using step False by simp
  qed
qed

lemma chacha_encrypt_bytes_initial:
  assumes "ch_input x = initial key iv n" "length tmp = 64" "unat bytes \<le> length m"
  shows "chacha_encrypt_bytes x m tmp bytes =
    Some (x\<lparr>ch_input := initial key iv (n + of_nat ((unat bytes + 63) div 64))\<rparr>,
          map (\<lambda>i. m ! i XOR key_stream key iv n i) [0..<unat bytes])"
proof (cases "bytes = 0")
  case True
  then show ?thesis using assms(1) by (simp add: chacha_encrypt_bytes_def)
next
  case False
  then have "0 < unat bytes" by (simp add: unat_gt_0)
  then show ?thesis
    using encrypt_loop_correct [OF assms(2) _ assms(3), of key iv n] False assms(1)
    by (simp add: chacha_encrypt_bytes_def set_counter)
qed

section \<open>Setting up\<close>

lemma le_nat_append: "le_nat (as @ bs) = le_nat as + 256 ^ length as * le_nat bs"
  by (induction as) (simp_all add: le_nat_def algebra_simps)

lemma le_words_add: "le_words (j + k) bs = le_words j bs @ le_words k (drop (4 * j) bs)"
proof -
  have "[j..<j + k] = map (\<lambda>i. i + j) [0..<k]" by (simp add: map_add_upt add.commute)
  then show ?thesis
    unfolding le_words_def upt_add_eq_append [OF le0, of j k] by (simp add: algebra_simps)
qed

lemma le_nat_zero: "le_nat (replicate k 0) = 0"
  by (induction k) (simp_all add: le_nat_def)

lemma load_sigma: "load_words sigma 0 4 = Some [0x61707865, 0x3320646e, 0x79622d32, 0x6b206574]"
  by code_simp

lemma counter_words:
  assumes "length ctr = 8"
  shows "le_words 2 ctr = [of_nat (unat (of_nat (le_nat ctr) :: u64)), of_nat (unat (of_nat (le_nat ctr) :: u64) div 2 ^ 32)]"
proof -
  have less: "le_nat (take 4 ctr) < 2 ^ 32" "le_nat ctr < 2 ^ 64"
    using le_nat_less [of "take 4 ctr"] le_nat_less [of ctr] assms by simp_all
  have split: "le_nat ctr = le_nat (take 4 ctr) + 2 ^ 32 * le_nat (drop 4 ctr)"
    using le_nat_append [of "take 4 ctr" "drop 4 ctr"] assms by simp
  have n: "unat (of_nat (le_nat ctr) :: u64) = le_nat ctr" using less(2) by (simp add: unat_of_nat)
  have "(2 ^ 32 :: u32) = 0" by simp
  then have lo: "(of_nat (le_nat ctr) :: u32) = of_nat (le_nat (take 4 ctr))"
    unfolding split by (simp only: of_nat_add of_nat_mult of_nat_power of_nat_numeral) simp
  have hi: "le_nat ctr div 2 ^ 32 = le_nat (drop 4 ctr)" unfolding split using less(1) by simp
  have "le_words 2 ctr = [of_nat (le_nat (take 4 ctr)), of_nat (le_nat (take 4 (drop 4 ctr)))]"
    by (simp add: le_words_def upt_conv_Cons)
  then show ?thesis unfolding n lo hi using assms by simp
qed

lemma chacha_keysetup_256:
  assumes "length (ch_input x) = 16" "length key = 32"
  shows "chacha_keysetup x key 256 =
    Some (x\<lparr>ch_input := [0x61707865, 0x3320646e, 0x79622d32, 0x6b206574] @ le_words 8 key @ drop 12 (ch_input x)\<rparr>)"
  using assms le_words_add [of 4 4 key]
  by (simp add: chacha_keysetup_def load_words_le load_sigma)

lemma chacha_ivsetup_counter:
  assumes "length (ch_input x) = 16" "length iv = 8" "length ctr = 8"
  shows "chacha_ivsetup x iv (Some ctr) = Some (x\<lparr>ch_input := take 12 (ch_input x) @ le_words 2 ctr @ le_words 2 iv\<rparr>)"
  using assms by (simp add: chacha_ivsetup_def load_words_le)

lemma chacha_setup:
  assumes "length (ch_input x) = 16" "length key = 32" "length iv = 8" "length ctr = 8"
  shows "chacha_keysetup x key 256 \<bind> (\<lambda>x. chacha_ivsetup x iv (Some ctr)) =
    Some (x\<lparr>ch_input := initial key iv (of_nat (le_nat ctr))\<rparr>)"
  using assms by (simp add: chacha_keysetup_256 chacha_ivsetup_counter counter_words initial_def)

text \<open>The test vector of the cipher's specification for the quarter round.\<close>

lemma quarter_vector:
  "QUARTERROUND 0 1 2 3 [0x11111111, 0x01020304, 0x9b8d6f43, 0x01234567] = [0xea2a92f4, 0xcb1cf8ce, 0x4581472e, 0x5881c4bb]"
  by code_simp

section \<open>The properties\<close>

text \<open>C9: The cipher of the kernel is ChaCha20. Keyed with 32 bytes, a nonce of 8 and a counter of 8, it encrypts any message to the
  message combined with the key stream from that counter on, whatever the block on the stack holds, and
  leaves the context at the first block not used. Encryption is decryption, since combining twice gives the message back.\<close>

theorem chacha20_correct:
  assumes "length (ch_input x) = 16" "length key = 32" "length iv = 8" "length ctr = 8"
    and "length tmp = 64" "unat bytes \<le> length m"
  shows "do {
      x \<leftarrow> chacha_keysetup x key 256;
      x \<leftarrow> chacha_ivsetup x iv (Some ctr);
      chacha_encrypt_bytes x m tmp bytes
    } =
    Some (x\<lparr>ch_input := initial key iv (of_nat (le_nat ctr) + of_nat ((unat bytes + 63) div 64))\<rparr>,
          map (\<lambda>i. m ! i XOR key_stream key iv (of_nat (le_nat ctr)) i) [0..<unat bytes])"
proof -
  let ?n = "of_nat (le_nat ctr)"
  have "chacha_encrypt_bytes (x\<lparr>ch_input := initial key iv ?n\<rparr>) m tmp bytes =
    Some (x\<lparr>ch_input := initial key iv (?n + of_nat ((unat bytes + 63) div 64))\<rparr>,
          map (\<lambda>i. m ! i XOR key_stream key iv ?n i) [0..<unat bytes])"
    using chacha_encrypt_bytes_initial [of "x\<lparr>ch_input := initial key iv ?n\<rparr>" key iv ?n tmp bytes m] assms(5,6) by simp
  then show ?thesis using chacha_setup [OF assms(1-4)] by (simp flip: bind_assoc)
qed

theorem chacha20_correct_witness:
  "length (ch_input \<lparr>ch_input = replicate 16 0\<rparr>) = 16 \<and> unat (100 :: u32) \<le> length (replicate 100 (0 :: u8)) \<and>
   do {
      x \<leftarrow> chacha_keysetup \<lparr>ch_input = replicate 16 0\<rparr> (replicate 32 1) 256;
      x \<leftarrow> chacha_ivsetup x (replicate 8 2) (Some (replicate 8 0));
      chacha_encrypt_bytes x (replicate 100 0) (replicate 64 7) 100
    } =
    Some (\<lparr>ch_input = initial (replicate 32 1) (replicate 8 2) 2\<rparr>,
          map (\<lambda>i. replicate 100 0 ! i XOR key_stream (replicate 32 1) (replicate 8 2) 0 i) [0..<100])"
  using chacha20_correct [of "\<lparr>ch_input = replicate 16 0\<rparr>" "replicate 32 1" "replicate 8 2" "replicate 8 0"
      "replicate 64 7" 100 "replicate 100 0"]
  by (simp add: le_nat_zero del: upt_rec_numeral)

end
