(* ===== verification/Arc4random.thy ===== *)
theory Arc4random
  imports Chacha Clock Buffer
begin

text \<open>
  \<^verbatim>\<open>kernel/src/runtime/random.c\<close> and the entropy device of \<^verbatim>\<open>kernel/src/virtio/virtio_rng.c\<close>: random numbers.

  A generator runs the stream cipher under a key drawn from the preferred source of entropy, with the processor's
  instruction as a fallback, and draws a new key after 65536 bytes, after 300 seconds or on request. The preferred source is an
  interface, the locale \<open>entropy_source\<close>, which the device implements. The lemmas show that the bytes
  handed out are those of successive blocks of the cipher, no block of a key twice and no key for more than a bounded
  number of bytes. Times are the readings of \<^verbatim>\<open>now(CLOCK_ID_MONOTONIC_RAW)\<close>; the mutex makes each call a whole.
\<close>

unbundle bit_operations_syntax

section \<open>Seeds\<close>

text \<open>The entropy there is: the state of the preferred source and the number of values that \<^verbatim>\<open>hw_get_seed\<close> has returned. The
  values themselves are a parameter \<open>hw\<close>.\<close>

record 's entropy =
  en_source :: 's
  en_draws :: nat

type_synonym 's get_seed = "'s \<Rightarrow> nat \<Rightarrow> ('s \<times> u8 list) option"

text \<open>The bytes of a 64-bit integer in memory.\<close>

definition u64_bytes :: "u64 \<Rightarrow> u8 list" where
  "u64_bytes w = le_bytes 8 (unat w)"

fun fallback_get_seed :: "(nat \<Rightarrow> u64) \<Rightarrow> nat \<Rightarrow> nat \<Rightarrow> nat \<times> u8 list" where
  "fallback_get_seed hw draws remain =
     (if 0 < remain then
        let n = min 8 remain;
            s = hw draws;
            (draws, rest) = fallback_get_seed hw (draws + 1) (remain - n)
        in (draws, take n (u64_bytes s) @ rest)
      else (draws, []))"

declare fallback_get_seed.simps [simp del]

partial_function (option) get_seed_complete ::
    "'s get_seed option \<Rightarrow> (nat \<Rightarrow> u64) \<Rightarrow> 's entropy \<Rightarrow> nat \<Rightarrow> ('s entropy \<times> u8 list) option" where
  "get_seed_complete preferred hw en len =
     (if 0 < len then do {
        (en, bs) \<leftarrow> (case preferred of
            None \<Rightarrow> Some (en, [])
          | Some g \<Rightarrow> map_option (\<lambda>(s, bs). (en\<lparr>en_source := s\<rparr>, bs)) (g (en_source en) len));
        let (en, bs) =
          (if bs = [] then let (d, bs) = fallback_get_seed hw (en_draws en) len in (en\<lparr>en_draws := d\<rparr>, bs) else (en, bs));
        if length bs \<le> len then do {
          (en, rest) \<leftarrow> get_seed_complete preferred hw en (len - length bs);
          Some (en, bs @ rest)
        } else None
      } else Some (en, []))"

declare get_seed_complete.simps [code]

section \<open>The generator\<close>

record chacha20_s =
  numbytes :: int
  t_reseed :: u64
  m_buffer :: "u8 list"
  cc_ctx :: chacha_ctx

definition CHACHA20_RESEED_BYTES :: int where
  "CHACHA20_RESEED_BYTES = 65536"

definition CHACHA20_RESEED_SECONDS :: u64 where
  "CHACHA20_RESEED_SECONDS = 300"

definition CHACHA20_KEYBYTES :: nat where
  "CHACHA20_KEYBYTES = 32"

definition CHACHA20_BUFFER_SIZE :: nat where
  "CHACHA20_BUFFER_SIZE = 64"

text \<open>The static instance, which the loader clears.\<close>

definition chacha20inst :: chacha20_s where
  "chacha20inst =
     \<lparr>numbytes = 0, t_reseed = 0, m_buffer = replicate CHACHA20_BUFFER_SIZE 0, cc_ctx = \<lparr>ch_input = replicate 16 0\<rparr>\<rparr>"

definition chacha20_randomstir_locked ::
    "'s get_seed option \<Rightarrow> (nat \<Rightarrow> u64) \<Rightarrow> chacha20_s \<Rightarrow> 's entropy \<Rightarrow> timestamp \<Rightarrow> (chacha20_s \<times> 's entropy) option" where
  "chacha20_randomstir_locked preferred hw chacha20 en t = do {
     (en, key) \<leftarrow> get_seed_complete preferred hw en CHACHA20_KEYBYTES;
     let now_sec = sec_from_timestamp t;
     let now_usec = usec_from_timestamp (truncate_seconds t);
     ctx \<leftarrow> chacha_keysetup (cc_ctx chacha20) key (of_nat (CHACHA20_KEYBYTES * 8));
     ctx \<leftarrow> chacha_ivsetup ctx (u64_bytes now_sec) (Some (u64_bytes now_usec));
     Some (chacha20\<lparr>cc_ctx := ctx, t_reseed := now_sec + CHACHA20_RESEED_SECONDS, numbytes := 0\<rparr>, en)
   }"

definition init_random ::
    "'s get_seed option \<Rightarrow> (nat \<Rightarrow> u64) \<Rightarrow> 's entropy \<Rightarrow> timestamp \<Rightarrow> (chacha20_s \<times> 's entropy) option" where
  "init_random preferred hw en t = chacha20_randomstir_locked preferred hw chacha20inst en t"

definition random_reseed ::
    "'s get_seed option \<Rightarrow> (nat \<Rightarrow> u64) \<Rightarrow> chacha20_s \<Rightarrow> 's entropy \<Rightarrow> timestamp \<Rightarrow> (chacha20_s \<times> 's entropy) option" where
  "random_reseed preferred hw chacha20 en t = chacha20_randomstir_locked preferred hw chacha20 en t"

text \<open>The loop of \<^verbatim>\<open>arc4rand\<close>. \<open>tmp\<close> gives what the block on the stack of \<^verbatim>\<open>chacha_encrypt_bytes\<close> holds at each call, here told apart by
  the number of bytes still to come.\<close>

function arc4rand_loop ::
    "'s get_seed option \<Rightarrow> (nat \<Rightarrow> u64) \<Rightarrow> (nat \<Rightarrow> u8 list) \<Rightarrow> timestamp \<Rightarrow> chacha20_s \<Rightarrow> 's entropy \<Rightarrow> nat \<Rightarrow>
     (chacha20_s \<times> 's entropy \<times> u8 list) option" where
  "arc4rand_loop preferred hw tmp t chacha20 en len =
     (if 0 < len then do {
        let n = min CHACHA20_BUFFER_SIZE len;
        (ctx, p) \<leftarrow> chacha_encrypt_bytes (cc_ctx chacha20) (m_buffer chacha20) (tmp len) (of_nat n);
        let chacha20 = chacha20\<lparr>cc_ctx := ctx, numbytes := numbytes chacha20 + int n\<rparr>;
        (chacha20, en) \<leftarrow>
          (if numbytes chacha20 > CHACHA20_RESEED_BYTES
           then chacha20_randomstir_locked preferred hw chacha20 en t else Some (chacha20, en));
        (chacha20, en, rest) \<leftarrow> arc4rand_loop preferred hw tmp t chacha20 en (len - n);
        Some (chacha20, en, p @ rest)
      } else Some (chacha20, en, []))"

  by pat_completeness auto
termination by (relation "measure (\<lambda>(_, _, _, _, _, _, len). len)") (auto simp: CHACHA20_BUFFER_SIZE_def)

declare arc4rand_loop.simps [simp del]

definition arc4rand ::
    "'s get_seed option \<Rightarrow> (nat \<Rightarrow> u64) \<Rightarrow> (nat \<Rightarrow> u8 list) \<Rightarrow> timestamp \<Rightarrow> chacha20_s \<Rightarrow> 's entropy \<Rightarrow> nat \<Rightarrow>
     (chacha20_s \<times> 's entropy \<times> u8 list) option" where
  "arc4rand preferred hw tmp t chacha20 en len = do {
     let now_sec = sec_from_timestamp t;
     (chacha20, en) \<leftarrow>
       (if numbytes chacha20 > CHACHA20_RESEED_BYTES \<or> now_sec > t_reseed chacha20
        then chacha20_randomstir_locked preferred hw chacha20 en t else Some (chacha20, en));
     arc4rand_loop preferred hw tmp t chacha20 en len
   }"

text \<open>Before the generator is set up: a key of its own, and for nonce and counter the return value before it is set.\<close>

definition random_early_u64 ::
    "'s get_seed option \<Rightarrow> (nat \<Rightarrow> u64) \<Rightarrow> u8 list \<Rightarrow> u64 \<Rightarrow> chacha20_s \<Rightarrow> 's entropy \<Rightarrow> (chacha20_s \<times> 's entropy \<times> u64) option" where
  "random_early_u64 preferred hw tmp retval chacha20 en = do {
     (en, key) \<leftarrow> get_seed_complete preferred hw en CHACHA20_KEYBYTES;
     ctx \<leftarrow> chacha_keysetup (cc_ctx chacha20) key (of_nat (CHACHA20_KEYBYTES * 8));
     ctx \<leftarrow> chacha_ivsetup ctx (u64_bytes retval) (Some (u64_bytes retval));
     (ctx, p) \<leftarrow> chacha_encrypt_bytes ctx (m_buffer chacha20) tmp 8;
     Some (chacha20\<lparr>cc_ctx := ctx\<rparr>, en, of_nat (le_nat p))
   }"

definition random_u64 ::
    "'s get_seed option \<Rightarrow> (nat \<Rightarrow> u64) \<Rightarrow> (nat \<Rightarrow> u8 list) \<Rightarrow> timestamp \<Rightarrow> chacha20_s \<Rightarrow> 's entropy \<Rightarrow>
     (chacha20_s \<times> 's entropy \<times> u64) option" where
  "random_u64 preferred hw tmp t chacha20 en = do {
     (chacha20, en, p) \<leftarrow> arc4rand preferred hw tmp t chacha20 en 8;
     Some (chacha20, en, of_nat (le_nat p))
   }"

definition random_buffer ::
    "'s get_seed option \<Rightarrow> (nat \<Rightarrow> u64) \<Rightarrow> (nat \<Rightarrow> u8 list) \<Rightarrow> timestamp \<Rightarrow> chacha20_s \<Rightarrow> 's entropy \<Rightarrow> u8 buffer \<Rightarrow>
     (chacha20_s \<times> 's entropy \<times> u8 buffer \<times> nat) option" where
  "random_buffer preferred hw tmp t chacha20 en b = do {
     off \<leftarrow> buffer_ref b 0;
     (chacha20, en, p) \<leftarrow> arc4rand preferred hw tmp t chacha20 en (buffer_length b);
     c \<leftarrow> memcpy_to (b_contents b) off p;
     Some (chacha20, en, b\<lparr>b_contents := c\<rparr>, buffer_length b)
   }"

section \<open>The entropy device\<close>

definition VIRTIO_RNG_BUFSIZE :: nat where
  "VIRTIO_RNG_BUFSIZE = 32768"

record entropy_buf =
  eb_buf :: "u8 list"
  eb_offset :: nat
  eb_len :: nat
  eb_filling :: bool

record virtio_rng =
  vr_ebufs :: "entropy_buf \<times> entropy_buf"
  vr_second :: bool
  vr_initialized :: bool

text \<open>\<^verbatim>\<open>ebuf_idx\<close> is zero or one, \<open>vr_second\<close>.\<close>

definition current_ebuf :: "virtio_rng \<Rightarrow> entropy_buf" where
  "current_ebuf v = (if vr_second v then snd (vr_ebufs v) else fst (vr_ebufs v))"

definition write_ebuf :: "virtio_rng \<Rightarrow> entropy_buf \<Rightarrow> virtio_rng" where
  "write_ebuf v e =
     v\<lparr>vr_ebufs := (if vr_second v then (fst (vr_ebufs v), e) else (e, snd (vr_ebufs v)))\<rparr>"

text \<open>The request to the device, which the device answers with the completion.\<close>

definition virtio_rng_fill :: "entropy_buf \<Rightarrow> entropy_buf" where
  "virtio_rng_fill e = e\<lparr>eb_filling := True\<rparr>"

text \<open>The completion for one of the two buffers, into which the device has written; the second result says whether it goes on to
  \<^verbatim>\<open>random_reseed\<close>, which the first completion does.\<close>

definition ebuf_fill_complete :: "virtio_rng \<Rightarrow> bool \<Rightarrow> u8 list \<Rightarrow> nat \<Rightarrow> (virtio_rng \<times> bool) option" where
  "ebuf_fill_complete v second bytes len =
     (if len \<le> VIRTIO_RNG_BUFSIZE then
        let filled = (\<lambda>e. e\<lparr>eb_buf := bytes, eb_offset := 0, eb_len := len, eb_filling := False\<rparr>);
            v = v\<lparr>vr_ebufs := (if second then apsnd filled (vr_ebufs v) else apfst filled (vr_ebufs v))\<rparr>
        in Some (v\<lparr>vr_initialized := True\<rparr>, \<not> vr_initialized v)
      else None)"

definition virtio_init_ebufs :: "u8 list \<Rightarrow> u8 list \<Rightarrow> virtio_rng \<Rightarrow> virtio_rng" where
  "virtio_init_ebufs buf0 buf1 v =
     (let e = (\<lambda>buf. virtio_rng_fill \<lparr>eb_buf = buf, eb_offset = 0, eb_len = 0, eb_filling = False\<rparr>)
      in v\<lparr>vr_ebufs := (e buf0, e buf1), vr_second := False\<rparr>)"

text \<open>A difference below zero is taken as a size, larger than any request.\<close>

partial_function (option) get_seed_loop :: "virtio_rng \<Rightarrow> nat \<Rightarrow> (virtio_rng \<times> u8 list) option" where
  "get_seed_loop v remain =
     (if 0 < remain \<and> \<not> eb_filling (current_ebuf v) then do {
        let e = current_ebuf v;
        let n = (if eb_offset e \<le> eb_len e then min remain (eb_len e - eb_offset e) else remain);
        bs \<leftarrow> mem_slice (eb_buf e) (eb_offset e) n;
        let e = e\<lparr>eb_offset := eb_offset e + n\<rparr>;
        let v = (if eb_offset e \<ge> eb_len e then (write_ebuf v (virtio_rng_fill e))\<lparr>vr_second := \<not> vr_second v\<rparr>
                 else write_ebuf v e);
        (v, rest) \<leftarrow> get_seed_loop v (remain - n);
        Some (v, bs @ rest)
      } else Some (v, []))"

declare get_seed_loop.simps [code]

definition virtio_rng_get_seed :: "virtio_rng get_seed" where
  "virtio_rng_get_seed v len = get_seed_loop v len"

section \<open>What the generator hands out\<close>

text \<open>A segment is the use of one key: the key, the time it was drawn, and the lengths of the pieces of the successive blocks of
  its stream that were handed out.\<close>

record segment =
  sg_key :: "u8 list"
  sg_time :: timestamp
  sg_lens :: "nat list"

definition seg_nonce :: "segment \<Rightarrow> u8 list" where
  "seg_nonce s = u64_bytes (sec_from_timestamp (sg_time s))"

definition seg_counter :: "segment \<Rightarrow> nat \<Rightarrow> u64" where
  "seg_counter s i = usec_from_timestamp (truncate_seconds (sg_time s)) + of_nat i"

definition seg_bytes :: "segment \<Rightarrow> u8 list" where
  "seg_bytes s =
     concat (map (\<lambda>i. take (sg_lens s ! i) (stream_block (sg_key s) (seg_nonce s) (seg_counter s i))) [0..<length (sg_lens s)])"

definition seg_ok :: "timestamp set \<Rightarrow> segment \<Rightarrow> bool" where
  "seg_ok T s \<longleftrightarrow> sg_time s \<in> T \<and> length (sg_key s) = 32 \<and> (\<forall>l \<in> set (sg_lens s). 0 < l \<and> l \<le> 64) \<and>
     sum_list (sg_lens s) \<le> 65600 \<and> distinct (map (seg_counter s) [0..<length (sg_lens s)])"

text \<open>Seeds drawn one after the other.\<close>

fun draw_seeds :: "'s get_seed option \<Rightarrow> (nat \<Rightarrow> u64) \<Rightarrow> 's entropy \<Rightarrow> nat \<Rightarrow> ('s entropy \<times> u8 list list) option" where
  "draw_seeds preferred hw en 0 = Some (en, [])"
| "draw_seeds preferred hw en (Suc k) = do {
     (en, keys) \<leftarrow> draw_seeds preferred hw en k;
     (en, key) \<leftarrow> get_seed_complete preferred hw en 32;
     Some (en, keys @ [key])
   }"

text \<open>Calls to the generator and the bytes each returns.\<close>

datatype rng_call = Arc4rand timestamp nat | Reseed timestamp

fun call_time :: "rng_call \<Rightarrow> timestamp" where
  "call_time (Arc4rand t _) = t"
| "call_time (Reseed t) = t"

fun call_len :: "rng_call \<Rightarrow> nat" where
  "call_len (Arc4rand _ n) = n"
| "call_len (Reseed _) = 0"

fun run_calls ::
    "'s get_seed option \<Rightarrow> (nat \<Rightarrow> u64) \<Rightarrow> (nat \<Rightarrow> u8 list) \<Rightarrow> rng_call list \<Rightarrow> chacha20_s \<Rightarrow> 's entropy \<Rightarrow>
     (chacha20_s \<times> 's entropy \<times> u8 list list) option" where
  "run_calls preferred hw tmp [] rng en = Some (rng, en, [])"
| "run_calls preferred hw tmp (Arc4rand t n # cs) rng en = do {
     (rng, en, p) \<leftarrow> arc4rand preferred hw tmp t rng en n;
     (rng, en, outs) \<leftarrow> run_calls preferred hw tmp cs rng en;
     Some (rng, en, p # outs)
   }"
| "run_calls preferred hw tmp (Reseed t # cs) rng en = do {
     (rng, en) \<leftarrow> random_reseed preferred hw rng en t;
     (rng, en, outs) \<leftarrow> run_calls preferred hw tmp cs rng en;
     Some (rng, en, [] # outs)
   }"

section \<open>Numbers and segments\<close>

lemma length_le_bytes [simp]: "length (le_bytes k n) = k"
  by (simp add: le_bytes_def)

lemma length_u64_bytes [simp]: "length (u64_bytes w) = 8"
  by (simp add: u64_bytes_def)

lemma le_nat_bytes: "n < 256 ^ k \<Longrightarrow> le_nat (le_bytes k n) = n"
proof (induction k arbitrary: n)
  case 0
  then show ?case by (simp add: le_bytes_def le_nat_def)
next
  case (Suc k)
  then have "n div 256 < 256 ^ k" by (simp add: less_mult_imp_div_less mult.commute)
  moreover have "unat (of_nat n :: u8) = n mod 256" by (simp add: unat_of_nat)
  ultimately show ?case using Suc.IH [of "n div 256"] by (simp add: le_bytes_Suc le_nat_Cons)
qed

lemma u64_of_bytes [simp]: "of_nat (le_nat (u64_bytes w)) = w"
proof -
  have "unat w < 256 ^ 8" using unsigned_less [of w, where 'a = nat] by simp
  then show ?thesis by (simp add: u64_bytes_def le_nat_bytes)
qed

lemma fallback_length [simp]: "length (snd (fallback_get_seed hw d n)) = n"
proof (induction hw d n rule: fallback_get_seed.induct)
  case (1 hw d n)
  then show ?case by (subst fallback_get_seed.simps) (auto split: prod.split simp: Let_def)
qed

lemma length_le_sum: "\<forall>l \<in> set ls. 0 < l \<Longrightarrow> length ls \<le> sum_list (ls :: nat list)"
  by (induction ls) auto

lemma seg_counters_distinct:
  assumes "n \<le> 2 ^ 64"
  shows "distinct (map (seg_counter s) [0..<n])"
proof -
  have "i = j" if "seg_counter s i = seg_counter s j" "i < n" "j < n" for i j
  proof -
    have "(of_nat i :: u64) = of_nat j" using that(1) by (simp add: seg_counter_def)
    then have "unat (of_nat i :: u64) = unat (of_nat j :: u64)" by simp
    then have "i mod 2 ^ 64 = j mod 2 ^ 64" by (simp only: unat_of_nat) simp
    then show ?thesis using that assms by simp
  qed
  then show ?thesis by (auto simp: distinct_map inj_on_def)
qed

lemma seg_okI:
  assumes "sg_time s \<in> T" "length (sg_key s) = 32" "\<forall>l \<in> set (sg_lens s). 0 < l \<and> l \<le> 64" "sum_list (sg_lens s) \<le> 65600"
  shows "seg_ok T s"
  using assms length_le_sum [of "sg_lens s"] seg_counters_distinct [of "length (sg_lens s)" s]
  by (auto simp: seg_ok_def)

lemma seg_bytes_snoc:
  "seg_bytes (s\<lparr>sg_lens := sg_lens s @ [l]\<rparr>) =
   seg_bytes s @ take l (stream_block (sg_key s) (seg_nonce s) (seg_counter s (length (sg_lens s))))"
  by (auto simp: seg_bytes_def seg_nonce_def seg_counter_def nth_append intro!: arg_cong [of _ _ concat] map_cong)

section \<open>A source of entropy\<close>

text \<open>What the generator asks of the preferred source, if there is one: it returns, with no more bytes than were asked for.\<close>

locale entropy_source =
  fixes get :: "'s get_seed option" and ok :: "'s \<Rightarrow> bool"
  assumes get_ok: "get = Some g \<Longrightarrow> ok s \<Longrightarrow> ensures (g s len) (\<lambda>(s', bs). length bs \<le> len \<and> ok s')"
begin

lemma get_seed_complete_ok:
  "ok (en_source en) \<Longrightarrow>
   ensures (get_seed_complete get hw en len) (\<lambda>(en', bs). length bs = len \<and> ok (en_source en'))"
proof (induction len arbitrary: en rule: less_induct)
  case (less len)
  show ?case
  proof (cases "0 < len")
    case True
    let ?g = "case get of None \<Rightarrow> Some (en, [])
          | Some g \<Rightarrow> map_option (\<lambda>(s, bs). (en\<lparr>en_source := s\<rparr>, bs)) (g (en_source en) len)"
    obtain en1 bs1 where g: "?g = Some (en1, bs1)" "length bs1 \<le> len" "ok (en_source en1)"
    proof (cases get)
      case None
      then show ?thesis using less.prems that by simp
    next
      case (Some g)
      then show ?thesis using get_ok [OF Some less.prems, of len] that by (auto elim!: ensuresE)
    qed
    define en2 bs2 where "en2 = (if bs1 = [] then en1\<lparr>en_draws := fst (fallback_get_seed hw (en_draws en1) len)\<rparr> else en1)"
      and "bs2 = (if bs1 = [] then snd (fallback_get_seed hw (en_draws en1) len) else bs1)"
    have two: "length bs2 \<le> len" "0 < length bs2" "ok (en_source en2)"
      using g True fallback_length [of hw "en_draws en1" len] by (auto simp: bs2_def en2_def simp del: fallback_length)
    then have "ensures (get_seed_complete get hw en2 (len - length bs2))
        (\<lambda>(en', bs). length bs = len - length bs2 \<and> ok (en_source en'))"
      using True by (intro less.IH) auto
    then obtain en3 bs3 where three: "get_seed_complete get hw en2 (len - length bs2) = Some (en3, bs3)"
        "length bs3 = len - length bs2" "ok (en_source en3)"
      by (auto elim!: ensuresE)
    have "(if bs1 = [] then let (d, bs) = fallback_get_seed hw (en_draws en1) len in (en1\<lparr>en_draws := d\<rparr>, bs)
        else (en1, bs1)) = (en2, bs2)"
      by (simp add: en2_def bs2_def split: prod.split)
    then have "get_seed_complete get hw en len = Some (en3, bs2 @ bs3)"
      using True g(1) two(1) three(1) by (subst get_seed_complete.simps) simp
    then show ?thesis using two three by simp
  qed (use less.prems in \<open>simp add: get_seed_complete.simps\<close>)
qed

text \<open>The generator in the middle of its life: the segments \<open>past\<close> are finished and \<open>cur\<close> is in use, with the keys in the
  order they were drawn from \<open>en0\<close> on.\<close>

definition rng_inv ::
    "(nat \<Rightarrow> u64) \<Rightarrow> timestamp set \<Rightarrow> 's entropy \<Rightarrow> segment list \<Rightarrow> segment \<Rightarrow> chacha20_s \<Rightarrow> 's entropy \<Rightarrow> bool" where
  "rng_inv hw T en0 past cur rng en \<longleftrightarrow>
     ok (en_source en) \<and>
     draw_seeds get hw en0 (Suc (length past)) = Some (en, map sg_key (past @ [cur])) \<and>
     (\<forall>s \<in> set (past @ [cur]). seg_ok T s) \<and>
     numbytes rng = int (sum_list (sg_lens cur)) \<and>
     m_buffer rng = replicate 64 0 \<and>
     ch_input (cc_ctx rng) = initial (sg_key cur) (seg_nonce cur) (seg_counter cur (length (sg_lens cur)))"

lemma stir_ok:
  assumes draws: "draw_seeds get hw en0 (length segs) = Some (en, map sg_key segs)"
    and segs: "\<forall>s \<in> set segs. seg_ok T s" and ok: "ok (en_source en)" and t: "t \<in> T"
    and rng: "m_buffer rng = replicate 64 0" "length (ch_input (cc_ctx rng)) = 16"
  shows "ensures (chacha20_randomstir_locked get hw rng en t)
    (\<lambda>(rng', en'). \<exists>key. rng_inv hw T en0 segs \<lparr>sg_key = key, sg_time = t, sg_lens = []\<rparr> rng' en')"
proof -
  from get_seed_complete_ok [OF ok, of hw 32] obtain en' key where
    key: "get_seed_complete get hw en 32 = Some (en', key)" "length key = 32" "ok (en_source en')"
    by (auto elim!: ensuresE)
  let ?cur = "\<lparr>sg_key = key, sg_time = t, sg_lens = []\<rparr>"
  let ?ctx = "(cc_ctx rng)\<lparr>ch_input := initial key (seg_nonce ?cur) (seg_counter ?cur 0)\<rparr>"
  have "chacha_keysetup (cc_ctx rng) key 256 \<bind> (\<lambda>x. chacha_ivsetup x (u64_bytes (sec_from_timestamp t))
      (Some (u64_bytes (usec_from_timestamp (truncate_seconds t))))) = Some ?ctx"
    using chacha_setup [OF rng(2) key(2)] by (simp add: seg_nonce_def seg_counter_def)
  then have "chacha20_randomstir_locked get hw rng en t =
      Some (rng\<lparr>cc_ctx := ?ctx, t_reseed := sec_from_timestamp t + CHACHA20_RESEED_SECONDS, numbytes := 0\<rparr>, en')"
    using key(1) by (auto simp: chacha20_randomstir_locked_def CHACHA20_KEYBYTES_def Let_def bind_eq_Some_conv)
  moreover have "seg_ok T ?cur" using t key(2) by (intro seg_okI) simp_all
  ultimately show ?thesis using key draws segs rng by (auto simp: rng_inv_def)
qed


text \<open>Between calls the key in use has given out at most 65536 bytes.\<close>

definition rng_ready ::
    "(nat \<Rightarrow> u64) \<Rightarrow> timestamp set \<Rightarrow> 's entropy \<Rightarrow> segment list \<Rightarrow> chacha20_s \<Rightarrow> 's entropy \<Rightarrow> bool" where
  "rng_ready hw T en0 segs rng en \<longleftrightarrow>
     segs \<noteq> [] \<and> rng_inv hw T en0 (butlast segs) (last segs) rng en \<and> sum_list (sg_lens (last segs)) \<le> 65536"

lemma rng_readyI:
  "rng_inv hw T en0 past cur rng en \<Longrightarrow> sum_list (sg_lens cur) \<le> 65536 \<Longrightarrow> rng_ready hw T en0 (past @ [cur]) rng en"
  by (simp add: rng_ready_def)

lemma restir_ok:
  assumes inv: "rng_inv hw T en0 past cur rng en" and t: "t \<in> T"
  shows "ensures (chacha20_randomstir_locked get hw rng en t)
    (\<lambda>(rng', en'). \<exists>key. rng_ready hw T en0 (past @ [cur] @ [\<lparr>sg_key = key, sg_time = t, sg_lens = []\<rparr>]) rng' en')"
proof -
  have "ensures (chacha20_randomstir_locked get hw rng en t)
      (\<lambda>(rng', en'). \<exists>key. rng_inv hw T en0 (past @ [cur]) \<lparr>sg_key = key, sg_time = t, sg_lens = []\<rparr> rng' en')"
    using inv t by (intro stir_ok) (simp_all add: rng_inv_def length_initial)
  then show ?thesis by (rule ensures_mono) (auto dest!: rng_readyI)
qed

text \<open>One block of the stream, or a part of it.\<close>

lemma block_ok:
  assumes inv: "rng_inv hw T en0 past cur rng en" and n: "0 < n" "n \<le> 64" and tmp: "length tmp = 64"
    and sum: "sum_list (sg_lens cur) \<le> 65536"
  shows "ensures (chacha_encrypt_bytes (cc_ctx rng) (m_buffer rng) tmp (of_nat n))
    (\<lambda>(ctx, p). length p = n \<and>
       rng_inv hw T en0 past (cur\<lparr>sg_lens := sg_lens cur @ [n]\<rparr>) (rng\<lparr>cc_ctx := ctx, numbytes := numbytes rng + int n\<rparr>) en \<and>
       seg_bytes (cur\<lparr>sg_lens := sg_lens cur @ [n]\<rparr>) = seg_bytes cur @ p)"
proof -
  let ?c = "seg_counter cur (length (sg_lens cur))"
  let ?cur = "cur\<lparr>sg_lens := sg_lens cur @ [n]\<rparr>"
  let ?p = "take n (stream_block (sg_key cur) (seg_nonce cur) ?c)"
  have rng: "ch_input (cc_ctx rng) = initial (sg_key cur) (seg_nonce cur) ?c" "m_buffer rng = replicate 64 0"
    using inv by (simp_all add: rng_inv_def)
  have u: "unat (of_nat n :: u32) = n" using n(2) by (simp add: unat_of_nat)
  have "(n + 63) div 64 = 1" using n by simp
  moreover have "map (\<lambda>i. replicate 64 0 ! i XOR key_stream (sg_key cur) (seg_nonce cur) ?c i) [0..<n] = ?p"
    using n(2) by (intro nth_equalityI) (simp_all add: length_stream_block key_stream_def)
  ultimately have enc: "chacha_encrypt_bytes (cc_ctx rng) (m_buffer rng) tmp (of_nat n) =
      Some ((cc_ctx rng)\<lparr>ch_input := initial (sg_key cur) (seg_nonce cur) (?c + 1)\<rparr>, ?p)"
    using chacha_encrypt_bytes_initial [OF rng(1) tmp, of "of_nat n" "m_buffer rng"] n(2) u by (simp add: rng(2))
  have "seg_ok T ?cur"
    using inv n sum by (intro seg_okI) (auto simp: rng_inv_def seg_ok_def)
  moreover have "seg_nonce ?cur = seg_nonce cur" "seg_counter ?cur (Suc (length (sg_lens cur))) = ?c + 1"
    by (simp_all add: seg_nonce_def seg_counter_def add.commute add.left_commute)
  ultimately have "rng_inv hw T en0 past ?cur
      (rng\<lparr>cc_ctx := (cc_ctx rng)\<lparr>ch_input := initial (sg_key cur) (seg_nonce cur) (?c + 1)\<rparr>, numbytes := numbytes rng + int n\<rparr>) en"
    using inv by (simp add: rng_inv_def)
  then show ?thesis using enc n(2) by (simp add: seg_bytes_snoc length_stream_block)
qed

lemma arc4rand_loop_ok:
  assumes t: "t \<in> T" and tmp: "\<forall>n. length (tmp n) = 64"
  shows "rng_ready hw T en0 segs rng en \<Longrightarrow>
    ensures (arc4rand_loop get hw tmp t rng en len)
      (\<lambda>(rng', en', out). length out = len \<and>
         (\<exists>segs'. rng_ready hw T en0 segs' rng' en' \<and> concat (map seg_bytes segs') = concat (map seg_bytes segs) @ out))"
proof (induction len arbitrary: segs rng en rule: less_induct)
  case (less len)
  show ?case
  proof (cases "0 < len")
    case True
    define n where "n = min CHACHA20_BUFFER_SIZE len"
    have n: "0 < n" "n \<le> 64" "n \<le> len" using True by (auto simp: n_def CHACHA20_BUFFER_SIZE_def)
    obtain past cur where segs: "segs = past @ [cur]" and inv: "rng_inv hw T en0 past cur rng en"
      and sum: "sum_list (sg_lens cur) \<le> 65536"
      using less.prems by (metis append_butlast_last_id rng_ready_def)
    let ?cur = "cur\<lparr>sg_lens := sg_lens cur @ [n]\<rparr>"
    from block_ok [OF inv n(1,2) spec [OF tmp, of len] sum] obtain ctx p where
      p: "chacha_encrypt_bytes (cc_ctx rng) (m_buffer rng) (tmp len) (of_nat n) = Some (ctx, p)" "length p = n"
        "seg_bytes ?cur = seg_bytes cur @ p"
      and inv1: "rng_inv hw T en0 past ?cur (rng\<lparr>cc_ctx := ctx, numbytes := numbytes rng + int n\<rparr>) en"
      by (auto elim!: ensuresE)
    let ?rng = "rng\<lparr>cc_ctx := ctx, numbytes := numbytes rng + int n\<rparr>"
    let ?stir = "if numbytes ?rng > CHACHA20_RESEED_BYTES
           then chacha20_randomstir_locked get hw ?rng en t else Some (?rng, en)"
    have "ensures ?stir (\<lambda>(rng2, en2). \<exists>segs2. rng_ready hw T en0 segs2 rng2 en2 \<and>
        concat (map seg_bytes segs2) = concat (map seg_bytes (past @ [?cur])))"
    proof (cases "numbytes ?rng > CHACHA20_RESEED_BYTES")
      case True
      have "seg_bytes \<lparr>sg_key = k, sg_time = t, sg_lens = []\<rparr> = []" for k by (simp add: seg_bytes_def)
      then have "ensures (chacha20_randomstir_locked get hw ?rng en t) (\<lambda>(rng2, en2). \<exists>segs2. rng_ready hw T en0 segs2 rng2 en2 \<and>
          concat (map seg_bytes segs2) = concat (map seg_bytes (past @ [?cur])))"
        by (intro ensures_mono [OF restir_ok [OF inv1 t]]) fastforce
      then show ?thesis using True by simp
    next
      case False
      then have "rng_ready hw T en0 (past @ [?cur]) ?rng en"
        using inv1 by (intro rng_readyI) (auto simp: rng_inv_def CHACHA20_RESEED_BYTES_def)
      then show ?thesis using False by auto
    qed
    then obtain rng2 en2 segs2 where two: "?stir = Some (rng2, en2)" "rng_ready hw T en0 segs2 rng2 en2"
      "concat (map seg_bytes segs2) = concat (map seg_bytes (past @ [?cur]))"
      by (auto elim!: ensuresE)
    from less.IH [OF _ two(2), of "len - n"] n obtain rng3 en3 out segs3 where
      three: "arc4rand_loop get hw tmp t rng2 en2 (len - n) = Some (rng3, en3, out)" "length out = len - n"
        "rng_ready hw T en0 segs3 rng3 en3" "concat (map seg_bytes segs3) = concat (map seg_bytes segs2) @ out"
      by (auto elim!: ensuresE)
    have "arc4rand_loop get hw tmp t rng en len = Some (rng3, en3, p @ out)"
      using True p(1) two(1) three(1) by (subst arc4rand_loop.simps) (simp add: Let_def flip: n_def)
    then show ?thesis using p two three n segs by (auto intro!: exI [of _ segs3])
  qed (use less.prems in \<open>auto simp: arc4rand_loop.simps\<close>)
qed


lemma arc4rand_ok:
  assumes t: "t \<in> T" and tmp: "\<forall>n. length (tmp n) = 64" and ready: "rng_ready hw T en0 segs rng en"
  shows "ensures (arc4rand get hw tmp t rng en len)
      (\<lambda>(rng', en', out). length out = len \<and>
         (\<exists>segs'. rng_ready hw T en0 segs' rng' en' \<and> concat (map seg_bytes segs') = concat (map seg_bytes segs) @ out))"
proof (cases "numbytes rng > CHACHA20_RESEED_BYTES \<or> sec_from_timestamp t > t_reseed rng")
  case True
  obtain past cur where segs: "segs = past @ [cur]" and inv: "rng_inv hw T en0 past cur rng en"
    using ready by (metis append_butlast_last_id rng_ready_def)
  from restir_ok [OF inv t] obtain rng1 en1 key where
    one: "chacha20_randomstir_locked get hw rng en t = Some (rng1, en1)"
      "rng_ready hw T en0 (segs @ [\<lparr>sg_key = key, sg_time = t, sg_lens = []\<rparr>]) rng1 en1"
    by (auto elim!: ensuresE simp: segs)
  have "seg_bytes \<lparr>sg_key = key, sg_time = t, sg_lens = []\<rparr> = []" by (simp add: seg_bytes_def)
  then show ?thesis
    using arc4rand_loop_ok [OF t tmp one(2), of len] one(1) True by (simp add: arc4rand_def Let_def)
next
  case False
  then show ?thesis using arc4rand_loop_ok [OF t tmp ready, of len] by (simp add: arc4rand_def Let_def)
qed

lemma reseed_ok:
  assumes t: "t \<in> T" and ready: "rng_ready hw T en0 segs rng en"
  shows "ensures (random_reseed get hw rng en t)
      (\<lambda>(rng', en'). \<exists>segs'. rng_ready hw T en0 segs' rng' en' \<and> concat (map seg_bytes segs') = concat (map seg_bytes segs))"
proof -
  obtain past cur where segs: "segs = past @ [cur]" and inv: "rng_inv hw T en0 past cur rng en"
    using ready by (metis append_butlast_last_id rng_ready_def)
  have "seg_bytes \<lparr>sg_key = k, sg_time = t, sg_lens = []\<rparr> = []" for k by (simp add: seg_bytes_def)
  then show ?thesis
    unfolding random_reseed_def by (intro ensures_mono [OF restir_ok [OF inv t]]) (fastforce simp: segs)
qed

lemma run_calls_ok:
  assumes tmp: "\<forall>n. length (tmp n) = 64"
  shows "rng_ready hw T en0 segs rng en \<Longrightarrow> call_time ` set calls \<subseteq> T \<Longrightarrow>
    ensures (run_calls get hw tmp calls rng en)
      (\<lambda>(rng', en', outs). map length outs = map call_len calls \<and>
         (\<exists>segs'. rng_ready hw T en0 segs' rng' en' \<and>
            concat (map seg_bytes segs') = concat (map seg_bytes segs) @ concat outs))"
proof (induction calls arbitrary: segs rng en)
  case Nil
  then show ?case by auto
next
  case (Cons c calls)
  have t: "call_time c \<in> T" and ts: "call_time ` set calls \<subseteq> T" using Cons.prems(2) by simp_all
  show ?case
  proof (cases c)
    case (Arc4rand t n)
    from arc4rand_ok [OF _ tmp Cons.prems(1), of t n] t Arc4rand obtain rng1 en1 p segs1 where
      one: "arc4rand get hw tmp t rng en n = Some (rng1, en1, p)" "length p = n" "rng_ready hw T en0 segs1 rng1 en1"
        "concat (map seg_bytes segs1) = concat (map seg_bytes segs) @ p"
      by (auto elim!: ensuresE)
    show ?thesis using Cons.IH [OF one(3) ts] one Arc4rand by (auto elim!: ensuresE)
  next
    case (Reseed t)
    from reseed_ok [OF _ Cons.prems(1), of t] t Reseed obtain rng1 en1 segs1 where
      one: "random_reseed get hw rng en t = Some (rng1, en1)" "rng_ready hw T en0 segs1 rng1 en1"
        "concat (map seg_bytes segs1) = concat (map seg_bytes segs)"
      by (auto elim!: ensuresE)
    show ?thesis using Cons.IH [OF one(2) ts] one Reseed by (auto elim!: ensuresE)
  qed
qed

lemma random_run_ok:
  assumes ok: "ok (en_source en)" and tmp: "\<forall>n. length (tmp n) = 64"
  shows "ensures (do {
      (rng, en) \<leftarrow> init_random get hw en t;
      run_calls get hw tmp calls rng en
    }) (\<lambda>(rng', en', outs). map length outs = map call_len calls \<and>
         (\<exists>segs. draw_seeds get hw en (length segs) = Some (en', map sg_key segs) \<and>
            (\<forall>s \<in> set segs. seg_ok (insert t (call_time ` set calls)) s) \<and>
            concat outs = concat (map seg_bytes segs)))"
proof -
  let ?T = "insert t (call_time ` set calls)"
  have "ensures (init_random get hw en t)
      (\<lambda>(rng', en'). \<exists>key. rng_inv hw ?T en [] \<lparr>sg_key = key, sg_time = t, sg_lens = []\<rparr> rng' en')"
    unfolding init_random_def
    by (rule stir_ok [where segs = "[]", simplified])
       (simp_all add: ok chacha20inst_def CHACHA20_BUFFER_SIZE_def)
  then obtain rng1 en1 key where one: "init_random get hw en t = Some (rng1, en1)"
    "rng_ready hw ?T en [\<lparr>sg_key = key, sg_time = t, sg_lens = []\<rparr>] rng1 en1"
    by (auto elim!: ensuresE dest!: rng_readyI)
  have draws: "draw_seeds get hw en (length segs) = Some (en', map sg_key segs) \<and> (\<forall>s \<in> set segs. seg_ok ?T s)"
    if "rng_ready hw ?T en segs rng' en'" for segs rng' en'
    using that unfolding rng_ready_def rng_inv_def
    by (metis append_butlast_last_id length_append_singleton)
  have "seg_bytes \<lparr>sg_key = key, sg_time = t, sg_lens = []\<rparr> = []" by (simp add: seg_bytes_def)
  then have "ensures (run_calls get hw tmp calls rng1 en1)
      (\<lambda>(rng', en', outs). map length outs = map call_len calls \<and>
         (\<exists>segs. draw_seeds get hw en (length segs) = Some (en', map sg_key segs) \<and>
            (\<forall>s \<in> set segs. seg_ok ?T s) \<and> concat outs = concat (map seg_bytes segs)))"
    by (intro ensures_mono [OF run_calls_ok [OF tmp one(2)]]) (auto dest!: draws)
  then show ?thesis using one(1) by simp
qed

text \<open>A buffer is filled from its start to its end, and nothing else of it changes.\<close>

lemma random_buffer_ok:
  assumes "t \<in> T" "\<forall>n. length (tmp n) = 64" "rng_ready hw T en0 segs rng en" "buffer_wf b"
  shows "ensures (random_buffer get hw tmp t rng en b)
      (\<lambda>(rng', en', b', n). n = buffer_length b \<and> buffer_wf b' \<and>
         b' = b\<lparr>b_contents := take (b_start b) (b_contents b) @ take n (drop (b_start b) (b_contents b')) @ drop (b_end b) (b_contents b)\<rparr> \<and>
         (\<exists>segs'. rng_ready hw T en0 segs' rng' en' \<and>
            concat (map seg_bytes segs') = concat (map seg_bytes segs) @ take n (drop (b_start b) (b_contents b'))))"
proof -
  from arc4rand_ok [OF assms(1-3), of "buffer_length b"] obtain rng1 en1 p segs1 where
    one: "arc4rand get hw tmp t rng en (buffer_length b) = Some (rng1, en1, p)" "length p = buffer_length b"
      "rng_ready hw T en0 segs1 rng1 en1" "concat (map seg_bytes segs1) = concat (map seg_bytes segs) @ p"
    by (auto elim!: ensuresE)
  have "b_start b \<le> b_end b" "b_end b \<le> length (b_contents b)" "b_length b = length (b_contents b)"
    using assms(4) by (simp_all add: buffer_wf_def)
  then show ?thesis
    using one assms(4) by (auto simp: random_buffer_def buffer_ref_def buffer_length_def buffer_wf_def)
qed

end

section \<open>The device as a source\<close>

definition ebuf_ok :: "entropy_buf \<Rightarrow> bool" where
  "ebuf_ok e \<longleftrightarrow> eb_offset e \<le> eb_len e \<and> eb_len e \<le> VIRTIO_RNG_BUFSIZE \<and> length (eb_buf e) = VIRTIO_RNG_BUFSIZE"

definition virtio_ok :: "virtio_rng \<Rightarrow> bool" where
  "virtio_ok v \<longleftrightarrow> ebuf_ok (fst (vr_ebufs v)) \<and> ebuf_ok (snd (vr_ebufs v))"

lemma virtio_init_ebufs_ok:
  "length buf0 = VIRTIO_RNG_BUFSIZE \<Longrightarrow> length buf1 = VIRTIO_RNG_BUFSIZE \<Longrightarrow> virtio_ok (virtio_init_ebufs buf0 buf1 v)"
  by (simp add: virtio_init_ebufs_def virtio_ok_def ebuf_ok_def virtio_rng_fill_def)

lemma ebuf_fill_complete_ok:
  assumes "virtio_ok v" "length bytes = VIRTIO_RNG_BUFSIZE" "len \<le> VIRTIO_RNG_BUFSIZE"
  shows "ensures (ebuf_fill_complete v second bytes len)
    (\<lambda>(v', reseed). virtio_ok v' \<and> vr_initialized v' \<and> (reseed \<longleftrightarrow> \<not> vr_initialized v))"
  using assms by (simp add: ebuf_fill_complete_def virtio_ok_def ebuf_ok_def Let_def)

definition filled_bufs :: "virtio_rng \<Rightarrow> nat" where
  "filled_bufs v =
     (if eb_filling (fst (vr_ebufs v)) then 0 else 1) + (if eb_filling (snd (vr_ebufs v)) then 0 else 1)"

lemma write_ebuf_facts:
  assumes "virtio_ok v" "ebuf_ok e" "\<not> eb_filling (current_ebuf v)"
  shows "virtio_ok ((write_ebuf v e)\<lparr>vr_second := b\<rparr>)" "virtio_ok (write_ebuf v e)"
    "filled_bufs ((write_ebuf v e)\<lparr>vr_second := b\<rparr>) = filled_bufs v - (if eb_filling e then 1 else 0)"
    "filled_bufs (write_ebuf v e) = filled_bufs v - (if eb_filling e then 1 else 0)" "0 < filled_bufs v"
  using assms by (auto simp: virtio_ok_def write_ebuf_def filled_bufs_def current_ebuf_def split: if_splits)

text \<open>Each turn either completes the request or empties a buffer, which is then being filled; so there are at most three.\<close>

lemma get_seed_loop_ok:
  "virtio_ok v \<Longrightarrow> ensures (get_seed_loop v remain) (\<lambda>(v', bs). length bs \<le> remain \<and> virtio_ok v')"
proof (induction "filled_bufs v + (if 0 < remain then 1 else 0)" arbitrary: v remain rule: less_induct)
  case less
  show ?case
  proof (cases "0 < remain \<and> \<not> eb_filling (current_ebuf v)")
    case True
    define e n where "e = current_ebuf v" and "n = min remain (eb_len e - eb_offset e)"
    have e: "ebuf_ok e" "\<not> eb_filling e"
      using less.prems True by (auto simp: e_def current_ebuf_def virtio_ok_def)
    let ?e = "e\<lparr>eb_offset := eb_offset e + n\<rparr>"
    let ?v = "if eb_len e \<le> eb_offset e + n then (write_ebuf v (virtio_rng_fill ?e))\<lparr>vr_second := \<not> vr_second v\<rparr>
                 else write_ebuf v ?e"
    have ok: "ebuf_ok ?e" "ebuf_ok (virtio_rng_fill ?e)" using e by (auto simp: ebuf_ok_def n_def virtio_rng_fill_def)
    note f = write_ebuf_facts [OF less.prems ok(1)] write_ebuf_facts [OF less.prems ok(2)]
    have v: "virtio_ok ?v" using f True by simp
    have "filled_bufs ?v + (if 0 < remain - n then 1 else 0) < filled_bufs v + (if 0 < remain then 1 else 0)"
      using f True e by (auto simp: n_def virtio_rng_fill_def)
    from less.hyps [OF this v] obtain v2 bs2 where
      two: "get_seed_loop ?v (remain - n) = Some (v2, bs2)" "length bs2 \<le> remain - n" "virtio_ok v2"
      by (auto elim!: ensuresE)
    have slice: "eb_offset e \<le> eb_len e" "eb_offset e + n \<le> length (eb_buf e)" using e by (auto simp: ebuf_ok_def n_def)
    then have "get_seed_loop v remain = Some (v2, take n (drop (eb_offset e) (eb_buf e)) @ bs2)"
      using True two(1)
      by (subst get_seed_loop.simps, cases "eb_len e \<le> eb_offset e + n") (simp_all add: Let_def flip: e_def n_def)
    then show ?thesis using two slice by (simp add: n_def)
  qed (use less.prems in \<open>auto simp: get_seed_loop.simps\<close>)
qed

interpretation virtio_source: entropy_source "Some virtio_rng_get_seed" virtio_ok
  by unfold_locales (auto simp: virtio_rng_get_seed_def intro: get_seed_loop_ok)

interpretation hw_source: entropy_source "None :: virtio_rng get_seed option" virtio_ok
  by unfold_locales simp

section \<open>The properties\<close>

text \<open>C6: Random numbers, with the entropy device or without it. From its initialisation through any sequence of requests
  and reseedings the generator returns (no assertion fails and no loop runs on) and gives each request as many bytes as it asks for.
  All bytes together are those of a sequence of segments, one for each key, with the keys in the order in which they were drawn
  from the source of entropy and nothing else drawn from it; a segment takes each block of its stream at most once, its nonce and first counter are the time at
  which the key was drawn, and it holds at most 65600 bytes.\<close>

theorem random_stream_correct:
  assumes "preferred = None \<or> preferred = Some virtio_rng_get_seed"
    and "virtio_ok (en_source en)" and "\<forall>n. length (tmp n) = 64"
  shows "ensures (do {
      (rng, en) \<leftarrow> init_random preferred hw en t;
      run_calls preferred hw tmp calls rng en
    }) (\<lambda>(rng', en', outs). map length outs = map call_len calls \<and>
         (\<exists>segs. draw_seeds preferred hw en (length segs) = Some (en', map sg_key segs) \<and>
            (\<forall>s \<in> set segs. seg_ok (insert t (call_time ` set calls)) s) \<and>
            concat outs = concat (map seg_bytes segs)))"
  using assms(1) virtio_source.random_run_ok [OF assms(2,3)] hw_source.random_run_ok [OF assms(2,3)] by blast

definition some_ebuf :: entropy_buf where
  "some_ebuf = \<lparr>eb_buf = replicate VIRTIO_RNG_BUFSIZE 5, eb_offset = 3, eb_len = 20, eb_filling = False\<rparr>"

definition some_entropy :: "virtio_rng entropy" where
  "some_entropy = \<lparr>en_source = \<lparr>vr_ebufs = (some_ebuf, some_ebuf), vr_second = False, vr_initialized = True\<rparr>, en_draws = 0\<rparr>"

theorem random_stream_witness:
  "virtio_ok (en_source some_entropy) \<and>
   ensures (do {
      (rng, en) \<leftarrow> init_random (Some virtio_rng_get_seed) of_nat some_entropy 7;
      run_calls (Some virtio_rng_get_seed) of_nat (\<lambda>n. replicate 64 0) [Arc4rand 8 100, Reseed 9, Arc4rand 9 5] rng en
    }) (\<lambda>(rng', en', outs). map length outs = map call_len [Arc4rand 8 100, Reseed 9, Arc4rand 9 5] \<and>
         (\<exists>segs. draw_seeds (Some virtio_rng_get_seed) of_nat some_entropy (length segs) = Some (en', map sg_key segs) \<and>
            (\<forall>s \<in> set segs. seg_ok (insert 7 (call_time ` set [Arc4rand 8 100, Reseed 9, Arc4rand 9 5])) s) \<and>
            concat outs = concat (map seg_bytes segs)))"
  by (intro conjI random_stream_correct)
     (simp_all add: some_entropy_def some_ebuf_def virtio_ok_def ebuf_ok_def VIRTIO_RNG_BUFSIZE_def del: replicate_Suc)

end
