(* ===== verification/Spec2Isabelle.thy ===== *)
theory Spec2Isabelle
  imports Timer Id_Heap_Ops Queue Ringbuf Calendar Sha256 Linked_List Symbol Arc4random
begin

text \<open>
  A verification of the runtime of the kernel under \<^verbatim>\<open>src/kernel/src\<close>: the data structures and services
  that its drivers, file systems and system calls are built on.

  \<^bold>\<open>The parts and how they interact.\<close> Buffers are the byte strings of the kernel. Vectors are buffers of
  pointers, and priority queues are vectors kept in heap order. The clocks turn the counter of the
  platform into the time scales of the kernel; timers wait in a priority queue ordered by their expiry
  on one of these clocks. Red-black trees carry the range maps, which are trees of disjoint ranges, and
  a heap of ids is a range map whose nodes own a bitmap of the ids in use. Hash tables keyed by the
  contents of buffers hold the symbols. The generator of random numbers runs the ChaCha20 cipher under keys from the
  entropy device. Queues shared between processors, ring buffers, linked
  lists, the calendar and the SHA-256 digest stand for themselves. The imports of the theories follow
  these dependencies.

  \<^bold>\<open>Conventions\<close> (theory \<open>Prelude\<close>). Machine integers are words of their width where wrap-around or bit
  operations matter, natural numbers where the code only counts memory it owns. An operation whose
  C code can reach \<^verbatim>\<open>assert\<close>, \<^verbatim>\<open>halt\<close>, memory outside its object or a loop without end returns an option
  and \<open>None\<close> is that outcome; \<open>ensures m Q\<close> says that \<open>m\<close> returns and its result satisfies \<open>Q\<close>. A property
  stated with \<open>ensures\<close> or with \<open>Some\<close> therefore includes that the code returns. Memory comes from a
  heap, a parameter that grants or refuses each request: \<open>heap_grants\<close> is the heap that never refuses,
  \<open>heap_ok\<close> one that hands out as much as it was asked for. Definitions keep the names of the C functions,
  and the fields of a record those of the struct, with the prefix of the record.

  \<^bold>\<open>The theories.\<close> Each holds the state, the operations in the order of the code, the invariant and the
  properties of one part.

  \<^item> \<open>Buffer\<close> (\<^verbatim>\<open>runtime/buffer.h\<close>, \<^verbatim>\<open>buffer.c\<close>): the struct \<^verbatim>\<open>buffer\<close> with its backing bytes and the two
    indices. Reads and writes are exact on the contents, growth included; the variable-length
    integers of \<^verbatim>\<open>push_varint\<close> are read back by \<^verbatim>\<open>pop_varint\<close>; \<^verbatim>\<open>buffer_lt\<close> is a total order on contents.

  \<^item> \<open>Vector\<close> (\<^verbatim>\<open>runtime/vector.h\<close>) and \<open>Pqueue\<close> (\<^verbatim>\<open>runtime/pqueue.c\<close>): insertion, removal from any position
    and reordering keep the multiset of the entries and the heap order. The locale \<open>pqueue_sort\<close> is what
    a queue asks of its \<^verbatim>\<open>sort\<close> function; the queues of timers interpret it.

  \<^item> \<open>Clock\<close> (\<^verbatim>\<open>runtime/clock.h\<close>, \<^verbatim>\<open>kernel/clock.c\<close>, \<^verbatim>\<open>kernel/vdso.h\<close>, \<^verbatim>\<open>kernel/vdso-now.c\<close>): the conversions between
    timestamps and counts of nano-, micro- and milliseconds, the readings of the kernel and of user space,
    and the updates of the shared parameters. An update is a sequence of writes to the page shared with
    user space, bracketed by the two changes of the generation number; a step relation interleaves
    them with the reads of a reader, and a reading that is returned comes from one state of the parameters in which
    no update was in progress.

  \<^item> \<open>Timer\<close> (\<^verbatim>\<open>runtime/timer.c\<close>, \<^verbatim>\<open>timer.h\<close>, and the parts of \<^verbatim>\<open>kernel/clock.c\<close> that reorder timers): registration, removal
    and the service loop, with the handlers as a parameter and the timer's memory as an explicit
    store. The loop ends, serves exactly the timers that are due and reports their overruns; setting the clock
    reorders the queues.

  \<^item> \<open>Rbtree\<close> (\<^verbatim>\<open>runtime/rbtree.c\<close>, \<^verbatim>\<open>rbtree.h\<close>) and \<open>Rangemap\<close> (\<^verbatim>\<open>runtime/range.c\<close>, \<^verbatim>\<open>range.h\<close>): the locale \<open>rb_compare\<close>
    asks of the comparison that it is that of a key of a linear order, and in it every operation keeps the
    invariant of left-leaning trees, which the validator of the code decides, and acts on the inorder
    sequence as on a sorted list. Range maps interpret it. A run of any tree operations refines a
    finite map, trees are of logarithmic height, and the operations on ranges (insertion, merging, holes, gaps,
    intersections) are characterised by the sets of numbers they cover.

  \<^item> \<open>Bitmap\<close> (\<^verbatim>\<open>runtime/bitmap.c\<close>, \<^verbatim>\<open>bitmap.h\<close>): allocation takes exactly a free aligned run, or
    refuses because there is none, and deallocation gives the run back.

  \<^item> \<open>Id_Heap\<close> and \<open>Id_Heap_Ops\<close> (\<^verbatim>\<open>runtime/heap/id.c\<close>, \<^verbatim>\<open>id.h\<close>): ranges of ids on range maps and bitmaps. In a run of any
    allocations of up to 512 pages and frees, the blocks held are disjoint, aligned and inside the heap, and the count of allocated bytes
    is exact.

  \<^item> \<open>Table\<close> (\<^verbatim>\<open>runtime/table.c\<close>, \<^verbatim>\<open>table.h\<close>) and \<open>Symbol\<close> (\<^verbatim>\<open>runtime/symbol.c\<close>): the locale \<open>table_keys\<close> asks that
    keys which compare equal hash alike. It is interpreted for keys that are pointers and for keys that are
    buffers, the two kinds the kernel creates tables with. Tables, resized as they grow, refine maps, and
    interning returns one symbol for one string.

  \<^item> \<open>Queue\<close> (\<^verbatim>\<open>runtime/queue.h\<close>, \<^verbatim>\<open>queue.c\<close>): first the operations as whole calls, which refine a bounded FIFO; then, for items of one
    word, each shared access of \<^verbatim>\<open>enqueue\<close> and \<^verbatim>\<open>dequeue\<close> as one step of one of many threads. The invariant of the
    reachable states gives that values come out in the order they went in, none lost and none twice, and that from every
    reachable state the threads can all finish.

  \<^item> \<open>Ringbuf\<close> (\<^verbatim>\<open>runtime/ringbuf.c\<close>, \<^verbatim>\<open>ringbuf.h\<close>): refines the list of bytes, over the wrap-around and the extension.

  \<^item> \<open>Linked_List\<close> (\<^verbatim>\<open>runtime/list.h\<close>): circular lists as links in a store of nodes, so that a deletion or
    a move acts on whatever list the node is linked into; a run of operations on several heads refines several lists.

  \<^item> \<open>Calendar\<close> (\<^verbatim>\<open>unix/mktime.c\<close>): \<^verbatim>\<open>gmtime_r\<close> and \<^verbatim>\<open>mktime\<close> with the overflow of \<^verbatim>\<open>int\<close>, against the Gregorian
    calendar.

  \<^item> \<open>Sha256\<close> (\<^verbatim>\<open>runtime/sha256.c\<close>): the streaming digest equals the function of the standard on the padded message; the
    constants are the bits of the square and cube roots of the primes.

  \<^item> \<open>Chacha\<close> (\<^verbatim>\<open>runtime/crypto/chacha.c\<close>) and \<open>Arc4random\<close> (\<^verbatim>\<open>runtime/random.c\<close>, \<^verbatim>\<open>virtio/virtio_rng.c\<close>): the cipher is
    ChaCha20, for messages of any length. The locale \<open>entropy_source\<close> is what the generator asks of the source of its keys; it is
    interpreted for the entropy device and for the kernel without one. The bytes handed out are those of
    cipher blocks, each used at most once, under keys drawn in turn and each used for a bounded number of bytes.

  \<^bold>\<open>Bounds.\<close> Loops that the C code leaves open are partial functions or recursions whose result is \<open>None\<close> when they do
  not end, and the properties show that they do; no property rests on an amount of fuel. Hypotheses on sizes are
  those of the code's own types. Heaps of ids end below \<open>2 ^ 60\<close>, so that their 64-bit sums do not wrap, and the
  ids under one bitmap are fewer than \<open>2 ^ 31\<close> where the code passes them as \<^verbatim>\<open>int\<close>. Timestamps convert back below
  \<open>2 ^ 32\<close> seconds, the width of their integer part. Dates are exact below \<open>2 ^ 31\<close> seconds since 1970;
  later ones leave the range of \<^verbatim>\<open>int\<close>. A message is shorter than \<open>2 ^ 32\<close> bytes where the code counts it in 32 bits.

  \<^bold>\<open>Where the code falls short.\<close> Some properties state what the code does where it does not do what it means to: the
  monotonic clock goes back at an update, a retried conversion of an expiry subtracts the offset of the clock twice, a search for ids that
  starts at an unaligned place, as with randomization, can hand out ids that are taken, large requests lose their
  alignment, peeking at a queue whose counter has wrapped reports no item, and late dates overflow.

  \<^bold>\<open>Not modelled.\<close> Locks: an operation that takes a lock runs as a whole, which is what the lock gives it; the
  queue and the clock page, which take none, are modelled as interleavings under sequential consistency.
  The remaining allocators keep their lists inside the memory they hand out, which needs a model of raw memory. Formatting,
  parsing and tuples work through variadic functions and tagged pointers. The scheduler, page tables,
  interrupts, drivers and the boot code act on registers and hardware. The page cache, the file systems and the system calls are chains of
  closures run by that scheduler. The network code is an interface to a stack that is not part of the
  sources. The tools written in Go are programs of another language around the kernel.
\<close>

end
